(* ===== verification/Neb_Prelude.thy ===== *)
theory Neb_Prelude
  imports Main "HOL-Library.Word" "HOL-Library.Multiset"
begin

text \<open>
  Shared vocabulary of the development: machine integer types of the C sources, the outcome
  type of operations that may hit undefined behaviour or fail, and generic lemmas on lists,
  multisets and words that the component theories use.
\<close>

section \<open>Types shared by the components\<close>

type_synonym u8 = "8 word"
type_synonym u16 = "16 word"
type_synonym u32 = "32 word"
type_synonym u64 = "64 word"

text \<open>
  What a C operation can do beside returning: read or write outside an object, follow a pointer
  to a released object, follow a null pointer, overflow a signed integer, divide by zero, convert a floating point number that does not fit, (\<open>NoEnd\<close>) run
  longer than the fuel given to the model, or end the process with \<^verbatim>\<open>abort\<close> or \<^verbatim>\<open>exit\<close>. An operation of a
  model returns \<open>Inl\<close> of such a fault where the source would have undefined behaviour or would not return.
\<close>

datatype fault = OutOfBounds | UseAfterFree | NullDeref | SignedOverflow | NotLinked | NoEnd | DivisionByZero | BadConversion | Abort | Exit

type_synonym 'a outcome = "fault + 'a"

abbreviation int_max :: int where "int_max \<equiv> 2147483647"
abbreviation int_min :: int where "int_min \<equiv> -2147483648"

text \<open>An array element: reading or writing outside the array is a fault.\<close>

definition array_get :: "'a list \<Rightarrow> nat \<Rightarrow> 'a outcome" where
  "array_get xs i = (if i < length xs then Inr (xs ! i) else Inl OutOfBounds)"

definition obind :: "'a outcome \<Rightarrow> ('a \<Rightarrow> 'b outcome) \<Rightarrow> 'b outcome" where
  "obind r f = (case r of Inl e \<Rightarrow> Inl e | Inr x \<Rightarrow> f x)"

named_theorems outcome_simps \<open>evaluation of outcomes and array reads\<close>

lemma obind_Inl [simp]: "obind (Inl e) f = Inl e"
  and obind_Inr [simp]: "obind (Inr x) f = f x"
  by (simp_all add: obind_def)

lemma obind_eq_Inr_iff: "obind r f = Inr y \<longleftrightarrow> (\<exists>x. r = Inr x \<and> f x = Inr y)"
  by (cases r) auto

lemma array_get_lt [simp, outcome_simps]: "i < length xs \<Longrightarrow> array_get xs i = Inr (xs ! i)"
  by (simp add: array_get_def)

lemma array_get_ge [simp, outcome_simps]: "length xs \<le> i \<Longrightarrow> array_get xs i = Inl OutOfBounds"
  by (simp add: array_get_def)

lemma array_get_eq_Inr_iff: "array_get xs i = Inr x \<longleftrightarrow> i < length xs \<and> xs ! i = x"
  by (simp add: array_get_def)

text \<open>Writing an element, and copying bytes into an array at an offset.\<close>

definition array_set :: "'a list \<Rightarrow> nat \<Rightarrow> 'a \<Rightarrow> 'a list outcome" where
  "array_set xs i v = (if i < length xs then Inr (xs[i := v]) else Inl OutOfBounds)"

definition array_copy :: "'a list \<Rightarrow> nat \<Rightarrow> 'a list \<Rightarrow> 'a list outcome" where
  "array_copy xs off ys =
     (if off + length ys \<le> length xs then Inr (take off xs @ ys @ drop (off + length ys) xs) else Inl OutOfBounds)"

lemma array_set_lt [simp, outcome_simps]: "i < length xs \<Longrightarrow> array_set xs i v = Inr (xs[i := v])"
  by (simp add: array_set_def)

lemma array_set_ge [simp, outcome_simps]: "length xs \<le> i \<Longrightarrow> array_set xs i v = Inl OutOfBounds"
  by (simp add: array_set_def)

lemma array_copy_le [simp, outcome_simps]:
  "off + length ys \<le> length xs \<Longrightarrow> array_copy xs off ys = Inr (take off xs @ ys @ drop (off + length ys) xs)"
  by (simp add: array_copy_def)

section \<open>Lists and multisets\<close>

text \<open>Exchange of two array elements.\<close>

definition swap_at :: "nat \<Rightarrow> nat \<Rightarrow> 'a list \<Rightarrow> 'a list" where
  "swap_at i j xs = xs[i := xs ! j, j := xs ! i]"

lemma length_swap_at [simp]: "length (swap_at i j xs) = length xs"
  by (simp add: swap_at_def)

lemma nth_swap_at:
  "i < length xs \<Longrightarrow> j < length xs \<Longrightarrow> k < length xs \<Longrightarrow>
   swap_at i j xs ! k = (if k = j then xs ! i else if k = i then xs ! j else xs ! k)"
  by (simp add: swap_at_def nth_list_update)

lemma mset_swap_at [simp]: "i < length xs \<Longrightarrow> j < length xs \<Longrightarrow> mset (swap_at i j xs) = mset xs"
  by (simp add: swap_at_def mset_swap)

lemma set_swap_at [simp]: "i < length xs \<Longrightarrow> j < length xs \<Longrightarrow> set (swap_at i j xs) = set xs"
  by (metis mset_swap_at set_mset_mset)

lemma distinct_swap_at [simp]:
  "i < length xs \<Longrightarrow> j < length xs \<Longrightarrow> distinct (swap_at i j xs) = distinct xs"
  by (simp add: swap_at_def)

lemma length_remove1_mem: "x \<in> set xs \<Longrightarrow> length xs = Suc (length (remove1 x xs))"
  by (induction xs) auto

lemma sum_list_map_update:
  fixes f :: "'a \<Rightarrow> 'b::comm_monoid_add"
  assumes "i < length xs"
  shows "sum_list (map f (xs[i := y])) + f (xs ! i) = sum_list (map f xs) + f y"
  using assms
proof (induction xs arbitrary: i)
  case Nil
  then show ?case by simp
next
  case (Cons x xs)
  then show ?case by (cases i) (simp add: ac_simps, simp add: add.assoc)
qed

lemma mset_le_sum_list: "x \<in> set xs \<Longrightarrow> f x \<subseteq># sum_list (map f xs)"
proof (induction xs)
  case (Cons a xs)
  then show ?case
    by (cases "x = a") (auto intro: subset_mset.add_increasing subset_mset.order_trans [OF _ mset_subset_eq_add_right])
qed simp

lemma sum_list_replicate_0 [simp]: "sum_list (replicate n (0 :: 'a::monoid_add)) = 0"
  by (induction n) auto

lemma sum_list_all_0: "\<forall>x \<in> set xs. f x = 0 \<Longrightarrow> sum_list (map f xs) = (0 :: 'a::monoid_add)"
  by (induction xs) auto

lemma sum_list_map_swap_at:
  fixes f :: "'a \<Rightarrow> nat"
  assumes "i < length xs" "j < length xs"
  shows "sum_list (map f (swap_at i j xs)) = sum_list (map f xs)"
proof -
  have "mset (map f (swap_at i j xs)) = mset (map f xs)"
    using assms by (simp del: mset_map add: mset_map)
  then show ?thesis by (metis sum_mset_sum_list)
qed

text \<open>A sequence in order but for one element, which also fits its neighbour, is in order.\<close>

lemma ascending_but_source:
  fixes f :: "nat \<Rightarrow> 'a::preorder"
  assumes "\<forall>k l. k < l \<and> l < n \<and> k \<noteq> j \<longrightarrow> f k \<le> f l" "Suc j < n \<longrightarrow> f j \<le> f (Suc j)"
    and kl: "k < l" "l < n"
  shows "f k \<le> f l"
proof (cases "k = j")
  case True
  show ?thesis
  proof (cases "l = Suc j")
    case False
    with True kl have "f j \<le> f (Suc j)" "f (Suc j) \<le> f l" using assms(1,2) by auto
    with True show ?thesis using order_trans by blast
  qed (use True kl assms in simp)
qed (use assms in auto)

lemma ascending_but_target:
  fixes f :: "nat \<Rightarrow> 'a::preorder"
  assumes "\<forall>k l. k < l \<and> l < n \<and> l \<noteq> Suc j \<longrightarrow> f k \<le> f l" "f j \<le> f (Suc j)"
    and kl: "k < l" "l < n"
  shows "f k \<le> f l"
proof (cases "l = Suc j")
  case True
  show ?thesis
  proof (cases "k = j")
    case False
    with True kl have "f k \<le> f j" using assms(1) by auto
    with True assms(2) show ?thesis using order_trans by blast
  qed (use True assms in simp)
qed (use assms in auto)

section \<open>Words\<close>

lemma of_nat_less_word_iff:
  "m < 2 ^ LENGTH('a) \<Longrightarrow> n < 2 ^ LENGTH('a) \<Longrightarrow>
   (of_nat m :: 'a::len word) < of_nat n \<longleftrightarrow> m < n"
  by (simp add: word_less_nat_alt unat_of_nat)

lemma of_nat_word_eq_0_iff: "n < 2 ^ LENGTH('a) \<Longrightarrow> (of_nat n :: 'a::len word) = 0 \<longleftrightarrow> n = 0"
  by (auto simp: word_of_nat_eq_0_iff dest: nat_dvd_not_less)

unbundle bit_operations_syntax

lemma and_low16: "x AND 0xffff = take_bit 16 (x :: 'a::len word)"
  by (simp add: take_bit_eq_mask mask_eq_exp_minus_1)

lemma and_low32: "x AND 0xffffffff = take_bit 32 (x :: 'a::len word)"
  by (simp add: take_bit_eq_mask mask_eq_exp_minus_1)

lemma and_low8: "x AND 0xff = take_bit 8 (x :: 'a::len word)"
  by (simp add: take_bit_eq_mask mask_eq_exp_minus_1)

lemma and_low4: "x AND 0xf = take_bit 4 (x :: 'a::len word)"
  by (simp add: take_bit_eq_mask mask_eq_exp_minus_1)

lemma unat_add_no_wrap: "unat (x :: 'a::len word) + unat y < 2 ^ LENGTH('a) \<Longrightarrow> unat (x + y) = unat x + unat y"
  by (rule unat_add_lem [THEN iffD1])

lemma unat_take_bit_mod: "unat (take_bit n (x :: 'a::len word)) = unat x mod 2 ^ n"
  by (metis unsigned_take_bit_eq take_bit_nat_def)

lemma unat_drop_bit_div: "unat (drop_bit n (x :: 'a::len word)) = unat x div 2 ^ n"
  by (metis unat_drop_bit_eq drop_bit_nat_def)

lemma unat_push_bit_mult: "unat (push_bit n (x :: 'a::len word)) = 2 ^ n * unat x mod 2 ^ LENGTH('a)"
  by (metis unsigned_push_bit_eq take_bit_nat_def push_bit_nat_def mult.commute)

section \<open>Computations\<close>

text \<open>Computations on a state that may end with a fault: the code of components that keep their
  data in linked structures.\<close>

type_synonym ('a, 's) comp = "'s \<Rightarrow> ('a \<times> 's) outcome"

definition eret :: "'a \<Rightarrow> ('a, 's) comp" where "eret x w = Inr (x, w)"

definition efail :: "fault \<Rightarrow> ('a, 's) comp" where "efail e w = Inl e"

definition ebind :: "('a, 's) comp \<Rightarrow> ('a \<Rightarrow> ('b, 's) comp) \<Rightarrow> ('b, 's) comp" where
  "ebind m f w = (case m w of Inl e \<Rightarrow> Inl e | Inr (x, w') \<Rightarrow> f x w')"

definition eseq :: "(unit, 's) comp \<Rightarrow> ('b, 's) comp \<Rightarrow> ('b, 's) comp" where
  "eseq m n = ebind m (\<lambda>_. n)"

definition ewhen :: "bool \<Rightarrow> (unit, 's) comp \<Rightarrow> (unit, 's) comp" where
  "ewhen b m = (if b then m else eret ())"

text \<open>Following a pointer.\<close>

definition deref :: "nat option \<Rightarrow> (nat, 's) comp" where
  "deref p = (case p of None \<Rightarrow> efail NullDeref | Some a \<Rightarrow> eret a)"

named_theorems evm_simps \<open>evaluation of computations on a state\<close>

lemma eret_app [evm_simps]: "eret x w = Inr (x, w)" by (simp add: eret_def)
lemma efail_app [evm_simps]: "efail e w = Inl e" by (simp add: efail_def)
lemma ebind_Inr [evm_simps]: "m w = Inr (x, w') \<Longrightarrow> ebind m f w = f x w'" by (simp add: ebind_def)
lemma ebind_Inl [evm_simps]: "m w = Inl e \<Longrightarrow> ebind m f w = Inl e" by (simp add: ebind_def)
lemma ebind_bool [evm_simps]: "m w = Inr (True, w') \<Longrightarrow> ebind m f w = f True w'" "m w = Inr (False, w') \<Longrightarrow> ebind m f w = f False w'"
  by (simp_all add: ebind_def)
lemma eseq_Inr [evm_simps]: "m w = Inr (x, w') \<Longrightarrow> eseq m n w = n w'" by (simp add: eseq_def ebind_def)
lemma eseq_Inl [evm_simps]: "m w = Inl e \<Longrightarrow> eseq m n w = Inl e" by (simp add: eseq_def ebind_def)
lemma ewhen_app [evm_simps]: "ewhen b m w = (if b then m w else Inr ((), w))"
  by (simp add: ewhen_def eret_def)
lemma deref_Some [evm_simps]: "deref (Some a) = eret a" by (simp add: deref_def)
lemma deref_None [evm_simps]: "deref None = efail NullDeref" by (simp add: deref_def)

text \<open>Total correctness: the computation ends without a fault, with a result and a state that satisfy
  \<open>Q\<close>.\<close>

definition eruns :: "('a, 's) comp \<Rightarrow> 's \<Rightarrow> ('a \<Rightarrow> 's \<Rightarrow> bool) \<Rightarrow> bool" where
  "eruns m w Q \<longleftrightarrow> (\<exists>x w'. m w = Inr (x, w') \<and> Q x w')"

lemma eruns_ebind: "eruns (ebind m f) w Q \<longleftrightarrow> eruns m w (\<lambda>x w'. eruns (f x) w' Q)"
  by (auto simp: eruns_def ebind_def split: sum.splits)

lemma eruns_eseq: "eruns (eseq m n) w Q \<longleftrightarrow> eruns m w (\<lambda>_ w'. eruns n w' Q)"
  by (simp add: eseq_def eruns_ebind)

lemma eruns_eret: "eruns (eret x) w Q \<longleftrightarrow> Q x w"
  by (simp add: eruns_def eret_def)

lemma eruns_Inr: "m w = Inr (x, w') \<Longrightarrow> eruns m w Q \<longleftrightarrow> Q x w'"
  by (simp add: eruns_def)

lemma eruns_bool: "m w = Inr (True, w') \<Longrightarrow> eruns m w Q \<longleftrightarrow> Q True w'" "m w = Inr (False, w') \<Longrightarrow> eruns m w Q \<longleftrightarrow> Q False w'"
  by (simp_all only: eruns_Inr)

lemma eruns_mono: "eruns m w Q \<Longrightarrow> (\<And>x w'. Q x w' \<Longrightarrow> Q' x w') \<Longrightarrow> eruns m w Q'"
  by (auto simp: eruns_def)

lemma eruns_ewhen: "eruns (ewhen b m) w Q \<longleftrightarrow> (if b then eruns m w Q else Q () w)"
  by (simp add: ewhen_def eruns_eret)

lemmas eruns_simps = eruns_ebind eruns_eseq eruns_eret eruns_ewhen eruns_Inr eruns_bool

text \<open>Total correctness up to exhaustion of memory, which ends the process with \<open>Exit\<close>.\<close>

definition eruns_exit :: "('a, 's) comp \<Rightarrow> 's \<Rightarrow> ('a \<Rightarrow> 's \<Rightarrow> bool) \<Rightarrow> bool" where
  "eruns_exit m w Q \<longleftrightarrow> m w = Inl Exit \<or> eruns m w Q"

lemma eruns_exit_ebind: "eruns_exit (ebind m f) w Q \<longleftrightarrow> eruns_exit m w (\<lambda>x w'. eruns_exit (f x) w' Q)"
  by (auto simp: eruns_exit_def eruns_def ebind_def split: sum.splits)

lemma eruns_exit_eseq: "eruns_exit (eseq m n) w Q \<longleftrightarrow> eruns_exit m w (\<lambda>_ w'. eruns_exit n w' Q)"
  by (simp add: eseq_def eruns_exit_ebind)

lemma eruns_exit_eret: "eruns_exit (eret x) w Q \<longleftrightarrow> Q x w"
  by (auto simp: eruns_exit_def eruns_def eret_def)

lemma eruns_exit_ewhen: "eruns_exit (ewhen b m) w Q \<longleftrightarrow> (if b then eruns_exit m w Q else Q () w)"
  by (simp add: ewhen_def eruns_exit_eret)

lemma eruns_exit_Inr: "m w = Inr (x, w') \<Longrightarrow> eruns_exit m w Q \<longleftrightarrow> Q x w'"
  by (simp add: eruns_exit_def eruns_def)

lemma eruns_exit_mono: "eruns_exit m w Q \<Longrightarrow> (\<And>x w'. Q x w' \<Longrightarrow> Q' x w') \<Longrightarrow> eruns_exit m w Q'"
  by (auto simp: eruns_exit_def eruns_def)

lemmas eruns_exit_simps = eruns_exit_ebind eruns_exit_eseq eruns_exit_eret eruns_exit_ewhen

definition exits :: "'a outcome \<Rightarrow> bool" where "exits r = (case r of Inl e \<Rightarrow> e = Exit | Inr x \<Rightarrow> False)"

lemma exits_iff: "exits r \<longleftrightarrow> r = Inl Exit"
  by (auto simp: exits_def split: sum.splits)

section \<open>Sequences of calls\<close>

fun run_calls :: "('a \<Rightarrow> 's \<Rightarrow> ('r \<times> 's) outcome) \<Rightarrow> 'a list \<Rightarrow> 's \<Rightarrow> ('r list \<times> 's) outcome" where
  "run_calls run [] s = Inr ([], s)"
| "run_calls run (a # as) s = (case run a s of Inl e \<Rightarrow> Inl e
     | Inr (r, s') \<Rightarrow> (case run_calls run as s' of Inl e \<Rightarrow> Inl e | Inr (rs, s'') \<Rightarrow> Inr (r # rs, s'')))"

fun legal_calls :: "('a \<Rightarrow> 's \<Rightarrow> ('r \<times> 's) outcome) \<Rightarrow> ('s \<Rightarrow> 'a \<Rightarrow> bool) \<Rightarrow> 'a list \<Rightarrow> 's \<Rightarrow> bool" where
  "legal_calls run legal [] s = True"
| "legal_calls run legal (a # as) s = (legal s a \<and>
     (case run a s of Inl e \<Rightarrow> True | Inr (r, s') \<Rightarrow> legal_calls run legal as s'))"

text \<open>An interface whose calls, made as its users must make them, do not fault and keep an invariant.\<close>

locale safe_api =
  fixes run :: "'a \<Rightarrow> 's \<Rightarrow> ('r \<times> 's) outcome"
    and legal :: "'s \<Rightarrow> 'a \<Rightarrow> bool"
    and inv :: "'s \<Rightarrow> bool"
  assumes call_safe: "inv s \<Longrightarrow> legal s a \<Longrightarrow> \<exists>r s'. run a s = Inr (r, s') \<and> inv s'"
begin

lemma calls_safe:
  "inv s \<Longrightarrow> legal_calls run legal as s \<Longrightarrow> \<exists>rs s'. run_calls run as s = Inr (rs, s') \<and> inv s' \<and> length rs = length as"
proof (induction as arbitrary: s)
  case (Cons a as)
  obtain r s' where s': "run a s = Inr (r, s')" "inv s'" using call_safe [of s a] Cons.prems by auto
  then obtain rs s'' where "run_calls run as s' = Inr (rs, s'')" "inv s''" "length rs = length as"
    using Cons.IH [of s'] Cons.prems(2) by auto
  then show ?case using s' by simp
qed simp

end

text \<open>An interface that implements an abstract specification: \<open>spec a x r y\<close> tells that the call
  \<open>a\<close> may take the abstract state \<open>x\<close> to \<open>y\<close> with the result \<open>r\<close>.\<close>

fun spec_calls :: "('a \<Rightarrow> 'x \<Rightarrow> 'r \<Rightarrow> 'x \<Rightarrow> bool) \<Rightarrow> 'a list \<Rightarrow> 'x \<Rightarrow> 'r list \<Rightarrow> 'x \<Rightarrow> bool" where
  "spec_calls spec [] x rs y \<longleftrightarrow> rs = [] \<and> y = x"
| "spec_calls spec (a # as) x rs y \<longleftrightarrow> (\<exists>r rs' z. rs = r # rs' \<and> spec a x r z \<and> spec_calls spec as z rs' y)"

locale api_refinement =
  fixes run :: "'a \<Rightarrow> 's \<Rightarrow> ('r \<times> 's) outcome"
    and legal :: "'s \<Rightarrow> 'a \<Rightarrow> bool"
    and inv :: "'s \<Rightarrow> bool"
    and abs :: "'s \<Rightarrow> 'x"
    and spec :: "'a \<Rightarrow> 'x \<Rightarrow> 'r \<Rightarrow> 'x \<Rightarrow> bool"
  assumes call_refines: "inv s \<Longrightarrow> legal s a \<Longrightarrow> \<exists>r s'. run a s = Inr (r, s') \<and> inv s' \<and> spec a (abs s) r (abs s')"
begin

lemma calls_refine:
  "inv s \<Longrightarrow> legal_calls run legal as s \<Longrightarrow>
   \<exists>rs s'. run_calls run as s = Inr (rs, s') \<and> inv s' \<and> spec_calls spec as (abs s) rs (abs s')"
proof (induction as arbitrary: s)
  case (Cons a as)
  obtain r s' where s': "run a s = Inr (r, s')" "inv s'" "spec a (abs s) r (abs s')" using call_refines [of s a] Cons.prems by auto
  then obtain rs s'' where "run_calls run as s' = Inr (rs, s'')" "inv s''" "spec_calls spec as (abs s') rs (abs s'')"
    using Cons.IH [of s'] Cons.prems(2) by auto
  then show ?case using s' by auto
qed simp

end

sublocale api_refinement \<subseteq> safe_api run legal inv
  using call_refines by unfold_locales blast

end
