(* ===== verification/Neb_Random.thy ===== *)
theory Neb_Random
  imports Neb_Prelude
begin

text \<open>
  Model of \<^verbatim>\<open>src/src/random.c\<close>: buckets of ten node slices kept in
  ascending order of their sizes, the random pool and the random ring built on them. A slice
  pointer of \<open>slices\<close> is the index of the slice in the bucket's own array
  \<open>_slices\<close>; a node is a heap object with an address and a value. The answers of
  \<^verbatim>\<open>arc4random_uniform\<close> and of the allocator are arguments. Integer
  counters keep their C width.
\<close>

section \<open>Buckets\<close>

record neb_random_node =
  rn_addr :: nat
  rn_value :: "64 word"

record neb_random_slice =
  nlist :: "neb_random_node list"
  slice_count :: u32

record neb_random_bucket =
  bk_slices_mem :: "neb_random_slice list"
  bk_slices :: "nat list"
  bk_count :: u32

definition SLICE_TOTAL_NUMBER :: nat where "SLICE_TOTAL_NUMBER = 10"
definition SLICE_RANDOM_NUMBER :: nat where "SLICE_RANDOM_NUMBER = 8"

definition neb_random_bucket_create :: "bool \<Rightarrow> neb_random_bucket option" where
  "neb_random_bucket_create calloc_ok =
     (if \<not> calloc_ok then None
      else Some \<lparr>bk_slices_mem = replicate SLICE_TOTAL_NUMBER \<lparr>nlist = [], slice_count = 0\<rparr>,
                 bk_slices = [0..<SLICE_TOTAL_NUMBER], bk_count = 0\<rparr>)"

text \<open>\<open>*b->slices[i]\<close>, read and written.\<close>

definition slice_at :: "neb_random_bucket \<Rightarrow> nat \<Rightarrow> neb_random_slice" where
  "slice_at b i = bk_slices_mem b ! (bk_slices b ! i)"

definition set_slice_at :: "nat \<Rightarrow> neb_random_slice \<Rightarrow> neb_random_bucket \<Rightarrow> neb_random_bucket" where
  "set_slice_at i s b = b\<lparr>bk_slices_mem := (bk_slices_mem b)[bk_slices b ! i := s]\<rparr>"

text \<open>The exchange of \<open>b->slices[i-1]\<close> and \<open>b->slices[i]\<close>.\<close>

definition swap_slices :: "nat \<Rightarrow> neb_random_bucket \<Rightarrow> neb_random_bucket" where
  "swap_slices i b = b\<lparr>bk_slices := swap_at (i - 1) i (bk_slices b)\<rparr>"

fun slice_reverse_loop :: "neb_random_node list \<Rightarrow> neb_random_node list \<Rightarrow> neb_random_node list" where
  "slice_reverse_loop [] acc = acc"
| "slice_reverse_loop (n # ns) acc = slice_reverse_loop ns (n # acc)"

definition neb_random_slice_reverse :: "neb_random_slice \<Rightarrow> neb_random_slice" where
  "neb_random_slice_reverse s = s\<lparr>nlist := slice_reverse_loop (nlist s) []\<rparr>"

text \<open>The loop of \<^verbatim>\<open>neb_random_bucket_confuse\<close> from iteration \<open>i\<close> on;
  \<open>draw i\<close> is the value drawn below \<open>TOTAL - i - 1\<close> in iteration \<open>i\<close>.\<close>

function bucket_confuse_loop ::
  "(nat \<Rightarrow> nat) \<Rightarrow> nat \<Rightarrow> nat list \<Rightarrow> neb_random_bucket \<Rightarrow> neb_random_bucket" where
  "bucket_confuse_loop draw i indexes b =
     (if i < SLICE_TOTAL_NUMBER div 2 then
        let j = draw i + i + 1;
            si = indexes ! j
        in bucket_confuse_loop draw (i + 1) (indexes[j := indexes ! i, i := si])
             (set_slice_at si (neb_random_slice_reverse (slice_at b si)) b)
      else b)"
  by pat_completeness auto
termination
  by (relation "measure (\<lambda>(draw, i, indexes, b). SLICE_TOTAL_NUMBER div 2 - i)") auto

definition neb_random_bucket_confuse :: "(nat \<Rightarrow> nat) \<Rightarrow> neb_random_bucket \<Rightarrow> neb_random_bucket" where
  "neb_random_bucket_confuse draw b = bucket_confuse_loop draw 0 [0..<SLICE_TOTAL_NUMBER] b"

function bucket_put_reorder :: "nat \<Rightarrow> neb_random_bucket \<Rightarrow> neb_random_bucket" where
  "bucket_put_reorder i b =
     (if i < SLICE_RANDOM_NUMBER \<and> slice_count (slice_at b i) < slice_count (slice_at b (i - 1))
      then bucket_put_reorder (i + 1) (swap_slices i b) else b)"
  by pat_completeness auto
termination
  by (relation "measure (\<lambda>(i, b). SLICE_RANDOM_NUMBER - i)") auto

text \<open>\<open>draw\<close> is the answer of \<open>arc4random_uniform(RANDOM_NUMBER)\<close>.\<close>

definition neb_random_bucket_put ::
  "nat \<Rightarrow> neb_random_bucket \<Rightarrow> neb_random_node \<Rightarrow> neb_random_bucket" where
  "neb_random_bucket_put draw b n =
     (let rn = (if slice_count (slice_at b 0) < drop_bit 3 (bk_count b) then 0 else draw);
          s = slice_at b rn;
          b1 = set_slice_at rn (s\<lparr>nlist := nlist s @ [n], slice_count := slice_count s + 1\<rparr>) b;
          b2 = b1\<lparr>bk_count := bk_count b1 + 1\<rparr>
      in bucket_put_reorder (rn + 1) b2)"

function bucket_pick_scan ::
  "nat \<Rightarrow> neb_random_bucket \<Rightarrow> nat \<times> neb_random_node option \<times> neb_random_bucket" where
  "bucket_pick_scan rn b =
     (if rn < SLICE_TOTAL_NUMBER then
        (case nlist (slice_at b rn) of
           [] \<Rightarrow> bucket_pick_scan (rn + 1) b
         | n # ns \<Rightarrow>
             (let s = slice_at b rn;
                  b1 = set_slice_at rn (s\<lparr>nlist := ns, slice_count := slice_count s - 1\<rparr>) b
              in (rn, Some n, b1\<lparr>bk_count := bk_count b1 - 1\<rparr>)))
      else (rn, None, b))"
  by pat_completeness auto
termination
  by (relation "measure (\<lambda>(rn, b). SLICE_TOTAL_NUMBER - rn)") auto

text \<open>The reorder loop reads \<open>b->slices[i]\<close> before it compares: index
  \<open>TOTAL\<close> is outside the array.\<close>

fun bucket_pick_reorder :: "nat \<Rightarrow> neb_random_bucket \<Rightarrow> neb_random_bucket outcome" where
  "bucket_pick_reorder 0 b = Inr b"
| "bucket_pick_reorder (Suc i) b =
     obind (array_get (bk_slices b) (Suc i)) (\<lambda>p.
       if slice_count (slice_at b i) > slice_count (bk_slices_mem b ! p)
       then bucket_pick_reorder i (swap_slices (Suc i) b) else Inr b)"

definition neb_random_bucket_pick ::
  "nat \<Rightarrow> neb_random_bucket \<Rightarrow> (neb_random_node option \<times> neb_random_bucket) outcome" where
  "neb_random_bucket_pick draw b =
     (if bk_count b = 0 then Inr (None, b)
      else
        let rn = (if slice_count (slice_at b (SLICE_TOTAL_NUMBER - 1)) > drop_bit 1 (bk_count b)
                  then SLICE_TOTAL_NUMBER - 1
                  else draw + (SLICE_TOTAL_NUMBER - SLICE_RANDOM_NUMBER));
            (rn', n, b1) = bucket_pick_scan rn b
        in obind (bucket_pick_reorder rn' b1) (\<lambda>b2. Inr (n, b2)))"

section \<open>Pools and rings\<close>

text \<open>The obstack's allocator is an argument: \<open>Some a\<close> is the address of a fresh
  node, \<open>None\<close> its failure. A pointer to a node is the node itself, whose value never
  changes after it was added. \<^verbatim>\<open>TAILQ_REMOVE\<close> of a node that is not on
  the list it is removed from is a fault.\<close>

record neb_random_pool =
  pool_bucket :: neb_random_bucket
  pool_in_use :: "neb_random_node list"

record neb_random_ring =
  pick_bucket :: neb_random_bucket
  put_bucket :: neb_random_bucket
  ring_in_use :: "neb_random_node list"

definition tailq_remove :: "neb_random_node \<Rightarrow> neb_random_node list \<Rightarrow> neb_random_node list outcome" where
  "tailq_remove n ns = (if n \<in> set ns then Inr (remove1 n ns) else Inl NotLinked)"

definition neb_random_pool_create :: "bool \<Rightarrow> bool \<Rightarrow> neb_random_pool option" where
  "neb_random_pool_create calloc_ok bucket_ok =
     (if \<not> calloc_ok then None
      else case neb_random_bucket_create bucket_ok of
             None \<Rightarrow> None
           | Some b \<Rightarrow> Some \<lparr>pool_bucket = b, pool_in_use = []\<rparr>)"

definition neb_random_pool_add ::
  "nat option \<Rightarrow> nat \<Rightarrow> neb_random_pool \<Rightarrow> 64 word \<Rightarrow> int \<times> neb_random_pool" where
  "neb_random_pool_add alloc draw p value =
     (case alloc of
        None \<Rightarrow> (-1, p)
      | Some a \<Rightarrow> (0, p\<lparr>pool_bucket :=
            neb_random_bucket_put draw (pool_bucket p) \<lparr>rn_addr = a, rn_value = value\<rparr>\<rparr>))"

text \<open>\<open>env i\<close> holds the allocator's and the generator's answers while \<open>i\<close> is
  added; the loop variable is a C \<open>int\<close>, so \<open>i += step\<close> past
  \<^verbatim>\<open>INT_MAX\<close> is a fault.\<close>

function pool_add_range_loop ::
  "(int \<Rightarrow> nat option \<times> nat) \<Rightarrow> int \<Rightarrow> int \<Rightarrow> int \<Rightarrow> neb_random_pool \<Rightarrow> (int \<times> neb_random_pool) outcome" where
  "pool_add_range_loop env i maxv step p =
     (if i \<le> maxv \<and> 0 < step then
        let (ret, p1) = neb_random_pool_add (fst (env i)) (snd (env i)) p (word_of_int i) in
        if ret \<noteq> 0 then Inr (-1, p1)
        else if int_max < i + step then Inl SignedOverflow
        else pool_add_range_loop env (i + step) maxv step p1
      else Inr (0, p))"
  by pat_completeness auto
termination
  by (relation "measure (\<lambda>(env, i, maxv, step, p). nat (maxv + 1 - i))") auto

definition neb_random_pool_add_range ::
  "(int \<Rightarrow> nat option \<times> nat) \<Rightarrow> neb_random_pool \<Rightarrow> int \<Rightarrow> int \<Rightarrow> int \<Rightarrow> (int \<times> neb_random_pool) outcome" where
  "neb_random_pool_add_range env p minv maxv step =
     pool_add_range_loop env minv maxv (if step \<le> 0 then 1 else step) p"

definition neb_random_pool_confuse :: "(nat \<Rightarrow> nat) \<Rightarrow> neb_random_pool \<Rightarrow> neb_random_pool" where
  "neb_random_pool_confuse draw p = p\<lparr>pool_bucket := neb_random_bucket_confuse draw (pool_bucket p)\<rparr>"

definition neb_random_pool_pick ::
  "nat \<Rightarrow> neb_random_pool \<Rightarrow> (neb_random_node option \<times> neb_random_pool) outcome" where
  "neb_random_pool_pick draw p =
     obind (neb_random_bucket_pick draw (pool_bucket p)) (\<lambda>(n, b).
       let p1 = p\<lparr>pool_bucket := b\<rparr> in
       Inr (n, case n of None \<Rightarrow> p1 | Some nd \<Rightarrow> p1\<lparr>pool_in_use := nd # pool_in_use p1\<rparr>))"

definition neb_random_pool_put ::
  "nat \<Rightarrow> neb_random_pool \<Rightarrow> neb_random_node \<Rightarrow> neb_random_pool outcome" where
  "neb_random_pool_put draw p n =
     obind (tailq_remove n (pool_in_use p)) (\<lambda>l.
       Inr (p\<lparr>pool_in_use := l, pool_bucket := neb_random_bucket_put draw (pool_bucket p) n\<rparr>))"

definition neb_random_ring_create :: "bool \<Rightarrow> bool \<Rightarrow> bool \<Rightarrow> neb_random_ring option" where
  "neb_random_ring_create calloc_ok pick_ok put_ok =
     (if \<not> calloc_ok then None
      else case neb_random_bucket_create pick_ok of
             None \<Rightarrow> None
           | Some b \<Rightarrow>
               (case neb_random_bucket_create put_ok of
                  None \<Rightarrow> None
                | Some b' \<Rightarrow> Some \<lparr>pick_bucket = b, put_bucket = b', ring_in_use = []\<rparr>))"

definition neb_random_ring_add ::
  "nat option \<Rightarrow> nat \<Rightarrow> neb_random_ring \<Rightarrow> 64 word \<Rightarrow> int \<times> neb_random_ring" where
  "neb_random_ring_add alloc draw r value =
     (case alloc of
        None \<Rightarrow> (-1, r)
      | Some a \<Rightarrow> (0, r\<lparr>pick_bucket :=
            neb_random_bucket_put draw (pick_bucket r) \<lparr>rn_addr = a, rn_value = value\<rparr>\<rparr>))"

function ring_add_range_loop ::
  "(int \<Rightarrow> nat option \<times> nat) \<Rightarrow> int \<Rightarrow> int \<Rightarrow> int \<Rightarrow> neb_random_ring \<Rightarrow> (int \<times> neb_random_ring) outcome" where
  "ring_add_range_loop env i maxv step r =
     (if i \<le> maxv \<and> 0 < step then
        let (ret, r1) = neb_random_ring_add (fst (env i)) (snd (env i)) r (word_of_int i) in
        if ret \<noteq> 0 then Inr (-1, r1)
        else if int_max < i + step then Inl SignedOverflow
        else ring_add_range_loop env (i + step) maxv step r1
      else Inr (0, r))"
  by pat_completeness auto
termination
  by (relation "measure (\<lambda>(env, i, maxv, step, r). nat (maxv + 1 - i))") auto

definition neb_random_ring_add_range ::
  "(int \<Rightarrow> nat option \<times> nat) \<Rightarrow> neb_random_ring \<Rightarrow> int \<Rightarrow> int \<Rightarrow> int \<Rightarrow> (int \<times> neb_random_ring) outcome" where
  "neb_random_ring_add_range env r minv maxv step =
     ring_add_range_loop env minv maxv (if step \<le> 0 then 1 else step) r"

definition neb_random_ring_confuse ::
  "(nat \<Rightarrow> nat) \<Rightarrow> (nat \<Rightarrow> nat) \<Rightarrow> neb_random_ring \<Rightarrow> neb_random_ring" where
  "neb_random_ring_confuse draw1 draw2 r =
     r\<lparr>pick_bucket := neb_random_bucket_confuse draw1 (pick_bucket r),
       put_bucket := neb_random_bucket_confuse draw2 (put_bucket r)\<rparr>"

definition neb_random_ring_pick ::
  "nat \<Rightarrow> neb_random_ring \<Rightarrow> (neb_random_node option \<times> neb_random_ring) outcome" where
  "neb_random_ring_pick draw r =
     (if bk_count (pick_bucket r) = 0 \<and> bk_count (put_bucket r) = 0 then Inr (None, r)
      else
        let r1 = (if bk_count (pick_bucket r) = 0
                  then r\<lparr>put_bucket := pick_bucket r, pick_bucket := put_bucket r\<rparr> else r)
        in obind (neb_random_bucket_pick draw (pick_bucket r1)) (\<lambda>(n, b).
             let r2 = r1\<lparr>pick_bucket := b\<rparr> in
             Inr (n, case n of None \<Rightarrow> r2 | Some nd \<Rightarrow> r2\<lparr>ring_in_use := nd # ring_in_use r2\<rparr>)))"

definition neb_random_ring_put ::
  "nat \<Rightarrow> neb_random_ring \<Rightarrow> neb_random_node \<Rightarrow> neb_random_ring outcome" where
  "neb_random_ring_put draw r n =
     obind (tailq_remove n (ring_in_use r)) (\<lambda>l.
       Inr (r\<lparr>ring_in_use := l, put_bucket := neb_random_bucket_put draw (put_bucket r) n\<rparr>))"

declare bucket_confuse_loop.simps [simp del] bucket_put_reorder.simps [simp del]
  bucket_pick_scan.simps [simp del] pool_add_range_loop.simps [simp del]
  ring_add_range_loop.simps [simp del]

section \<open>The invariant of a bucket\<close>

definition slice_ok :: "neb_random_slice \<Rightarrow> bool" where
  "slice_ok s \<longleftrightarrow> length (nlist s) < 2 ^ 32 \<and> slice_count s = of_nat (length (nlist s))"

definition slice_len :: "neb_random_bucket \<Rightarrow> nat \<Rightarrow> nat" where
  "slice_len b i = length (nlist (slice_at b i))"

definition bucket_nodes :: "neb_random_bucket \<Rightarrow> neb_random_node multiset" where
  "bucket_nodes b = sum_list (map (\<lambda>s. mset (nlist s)) (bk_slices_mem b))"

text \<open>Shape: the pointers are a permutation of the slices, and every counter is exact.\<close>

definition bucket_wf :: "neb_random_bucket \<Rightarrow> bool" where
  "bucket_wf b \<longleftrightarrow>
     length (bk_slices_mem b) = 10 \<and> length (bk_slices b) = 10 \<and> distinct (bk_slices b) \<and>
     (\<forall>p \<in> set (bk_slices b). p < 10) \<and> (\<forall>s \<in> set (bk_slices_mem b). slice_ok s) \<and>
     size (bucket_nodes b) < 2 ^ 32 \<and> bk_count b = of_nat (size (bucket_nodes b))"

text \<open>Order: the eight random slices ascend by size; the two last slices stay empty.\<close>

definition bucket_sorted :: "neb_random_bucket \<Rightarrow> bool" where
  "bucket_sorted b \<longleftrightarrow> (\<forall>k l. k < l \<and> l < 8 \<longrightarrow> slice_len b k \<le> slice_len b l)"

definition bucket_inv :: "neb_random_bucket \<Rightarrow> bool" where
  "bucket_inv b \<longleftrightarrow> bucket_wf b \<and> bucket_sorted b \<and> slice_len b 8 = 0 \<and> slice_len b 9 = 0"

section \<open>Slices and counters\<close>

named_theorems bucket_simps \<open>effect of the elementary bucket updates\<close>

lemma slice_reverse_loop_rev: "slice_reverse_loop ns acc = rev ns @ acc"
  by (induction ns acc rule: slice_reverse_loop.induct) auto

lemma nlist_reverse [simp]: "nlist (neb_random_slice_reverse s) = rev (nlist s)"
  and count_reverse [simp]: "slice_count (neb_random_slice_reverse s) = slice_count s"
  by (simp_all add: neb_random_slice_reverse_def slice_reverse_loop_rev)

lemma slice_ok_less_iff:
  "slice_ok s \<Longrightarrow> slice_ok t \<Longrightarrow> slice_count s < slice_count t \<longleftrightarrow> length (nlist s) < length (nlist t)"
  by (simp add: slice_ok_def of_nat_less_word_iff)

lemma slice_ok_push: "slice_ok s \<Longrightarrow> length (nlist s) + 1 < 2 ^ 32 \<Longrightarrow>
    slice_ok (s\<lparr>nlist := nlist s @ [n], slice_count := slice_count s + 1\<rparr>)"
  by (simp add: slice_ok_def)

lemma slice_ok_pop: "slice_ok s \<Longrightarrow> nlist s = n # ns \<Longrightarrow>
    slice_ok (s\<lparr>nlist := ns, slice_count := slice_count s - 1\<rparr>)"
  by (simp add: slice_ok_def)

lemma bucket_wfD:
  assumes "bucket_wf b"
  shows "length (bk_slices_mem b) = 10" "length (bk_slices b) = 10" "distinct (bk_slices b)"
    "size (bucket_nodes b) < 2 ^ 32" "bk_count b = of_nat (size (bucket_nodes b))"
    "i < 10 \<Longrightarrow> bk_slices b ! i < 10" "i < 10 \<Longrightarrow> slice_ok (slice_at b i)"
proof -
  show i: "i < 10 \<Longrightarrow> bk_slices b ! i < 10" using assms by (simp add: bucket_wf_def)
  show "i < 10 \<Longrightarrow> slice_ok (slice_at b i)"
    using assms i by (auto simp: bucket_wf_def slice_at_def)
qed (use assms in \<open>auto simp: bucket_wf_def\<close>)

lemma bucket_size: "bucket_wf b \<Longrightarrow> size (bucket_nodes b) < 4294967296"
  by (simp add: bucket_wf_def)

lemma slice_mset_subset:
  assumes "bucket_wf b" "i < 10"
  shows "mset (nlist (slice_at b i)) \<subseteq># bucket_nodes b"
proof -
  have "bk_slices b ! i < length (bk_slices_mem b)"
    using assms by (simp add: bucket_wfD)
  then have "slice_at b i \<in> set (bk_slices_mem b)" by (simp add: slice_at_def)
  then show ?thesis
    unfolding bucket_nodes_def by (rule mset_le_sum_list)
qed

lemma slice_len_le_size: "bucket_wf b \<Longrightarrow> i < 10 \<Longrightarrow> slice_len b i \<le> size (bucket_nodes b)"
  using size_mset_mono [OF slice_mset_subset] by (simp add: slice_len_def)

subsection \<open>Exchanging slice pointers\<close>

lemma swap_slices_mem [bucket_simps]:
  "bk_slices_mem (swap_slices i b) = bk_slices_mem b" "bk_count (swap_slices i b) = bk_count b"
  "bucket_nodes (swap_slices i b) = bucket_nodes b"
  by (simp_all add: swap_slices_def bucket_nodes_def)

lemma slice_at_swap:
  "bucket_wf b \<Longrightarrow> 0 < i \<Longrightarrow> i < 10 \<Longrightarrow> k < 10 \<Longrightarrow>
   slice_at (swap_slices i b) k = slice_at b (if k = i then i - 1 else if k = i - 1 then i else k)"
  by (simp add: swap_slices_def slice_at_def nth_swap_at bucket_wfD)

lemma slice_len_swap:
  "bucket_wf b \<Longrightarrow> 0 < i \<Longrightarrow> i < 10 \<Longrightarrow> k < 10 \<Longrightarrow>
   slice_len (swap_slices i b) k = slice_len b (if k = i then i - 1 else if k = i - 1 then i else k)"
  by (simp add: slice_len_def slice_at_swap)

lemma bucket_wf_swap: "bucket_wf b \<Longrightarrow> 0 < i \<Longrightarrow> i < 10 \<Longrightarrow> bucket_wf (swap_slices i b)"
  by (auto simp: bucket_wf_def swap_slices_def bucket_nodes_def)

subsection \<open>Replacing one slice\<close>

lemma bucket_nodes_set_slice_at:
  assumes "bucket_wf b" "i < 10"
  shows "bucket_nodes (set_slice_at i s b) + mset (nlist (slice_at b i)) = bucket_nodes b + mset (nlist s)"
  using assms sum_list_map_update [of "bk_slices b ! i" "bk_slices_mem b" "\<lambda>s. mset (nlist s)" s]
  by (simp add: bucket_nodes_def set_slice_at_def slice_at_def bucket_wfD)

lemma slice_at_set_slice_at:
  "bucket_wf b \<Longrightarrow> i < 10 \<Longrightarrow> k < 10 \<Longrightarrow>
   slice_at (set_slice_at i s b) k = (if k = i then s else slice_at b k)"
  by (auto simp: set_slice_at_def slice_at_def nth_list_update bucket_wfD nth_eq_iff_index_eq)

lemma bucket_wf_set_slice_at:
  assumes wf: "bucket_wf b" and i: "i < 10" and s: "slice_ok s"
    and sz: "size (bucket_nodes (set_slice_at i s b)) < 2 ^ 32"
    and c: "c = of_nat (size (bucket_nodes (set_slice_at i s b)))"
  shows "bucket_wf ((set_slice_at i s b)\<lparr>bk_count := c\<rparr>)"
proof -
  have "set ((bk_slices_mem b)[bk_slices b ! i := s]) \<subseteq> insert s (set (bk_slices_mem b))"
    by (rule set_update_subset_insert)
  with assms show ?thesis
    by (auto simp: bucket_wf_def set_slice_at_def bucket_nodes_def)
qed

lemma slice_at_count_upd [bucket_simps]:
  "slice_at (b\<lparr>bk_count := c\<rparr>) i = slice_at b i" "slice_len (b\<lparr>bk_count := c\<rparr>) i = slice_len b i"
  "bucket_nodes (b\<lparr>bk_count := c\<rparr>) = bucket_nodes b"
  by (simp_all add: slice_at_def slice_len_def bucket_nodes_def)

section \<open>Reordering\<close>

text \<open>What both reorder loops guarantee: the same slices, sorted, the last two in place.\<close>

definition reordered :: "neb_random_bucket \<Rightarrow> neb_random_bucket \<Rightarrow> bool" where
  "reordered b b' \<longleftrightarrow> bucket_wf b' \<and> bucket_sorted b' \<and> bucket_nodes b' = bucket_nodes b \<and>
     slice_len b' 8 = slice_len b 8 \<and> slice_len b' 9 = slice_len b 9"

lemma reordered_swap:
  "bucket_wf b \<Longrightarrow> 0 < i \<Longrightarrow> i < 8 \<Longrightarrow> reordered (swap_slices i b) b' \<Longrightarrow> reordered b b'"
  by (auto simp: reordered_def slice_len_swap bucket_simps split: if_splits)

lemma put_reorder_reordered:
  assumes "bucket_wf b" "0 < i" "i \<le> 8"
    and "\<forall>k l. k < l \<and> l < 8 \<and> k \<noteq> i - 1 \<longrightarrow> slice_len b k \<le> slice_len b l"
  shows "reordered b (bucket_put_reorder i b)"
  using assms
proof (induction i b rule: bucket_put_reorder.induct)
  case (1 i b)
  show ?case
  proof (cases "i < 8 \<and> slice_count (slice_at b i) < slice_count (slice_at b (i - 1))")
    case True
    then have lt: "slice_len b i < slice_len b (i - 1)"
      using "1.prems" by (simp add: slice_len_def slice_ok_less_iff bucket_wfD)
    have "\<forall>k l. k < l \<and> l < 8 \<and> k \<noteq> i \<longrightarrow>
        slice_len (swap_slices i b) k \<le> slice_len (swap_slices i b) l"
      using "1.prems" True lt by (cases i) (auto simp: slice_len_swap less_imp_le less_Suc_eq)
    then have "reordered (swap_slices i b) (bucket_put_reorder (i + 1) (swap_slices i b))"
      using "1.IH" True "1.prems" by (simp add: SLICE_RANDOM_NUMBER_def bucket_wf_swap)
    with True "1.prems" show ?thesis
      by (simp add: bucket_put_reorder.simps [of i b] SLICE_RANDOM_NUMBER_def reordered_swap)
  next
    case False
    then have "Suc (i - 1) < 8 \<longrightarrow> slice_len b (i - 1) \<le> slice_len b (Suc (i - 1))"
      using "1.prems" by (auto simp: slice_len_def slice_ok_less_iff bucket_wfD)
    then have "bucket_sorted b"
      using "1.prems"(4) unfolding bucket_sorted_def by (blast intro: ascending_but_source)
    with False "1.prems" show ?thesis
      by (auto simp: bucket_put_reorder.simps [of i b] SLICE_RANDOM_NUMBER_def reordered_def)
  qed
qed

lemma pick_reorder_reordered:
  assumes "bucket_wf b" "i < 8"
    and "\<forall>k l. k < l \<and> l < 8 \<and> l \<noteq> i \<longrightarrow> slice_len b k \<le> slice_len b l"
  shows "\<exists>b'. bucket_pick_reorder i b = Inr b' \<and> reordered b b'"
  using assms
proof (induction i b rule: bucket_pick_reorder.induct)
  case (1 b)
  then show ?case by (auto simp: reordered_def bucket_sorted_def)
next
  case (2 i b)
  let ?c = "slice_count (slice_at b i) > slice_count (slice_at b (Suc i))"
  have read: "array_get (bk_slices b) (Suc i) = Inr (bk_slices b ! Suc i)"
    using "2.prems" by (simp add: bucket_wfD)
  show ?case
  proof (cases ?c)
    case True
    then have lt: "slice_len b (Suc i) < slice_len b i"
      using "2.prems" by (simp add: slice_len_def slice_ok_less_iff bucket_wfD)
    have "\<forall>k l. k < l \<and> l < 8 \<and> l \<noteq> i \<longrightarrow>
        slice_len (swap_slices (Suc i) b) k \<le> slice_len (swap_slices (Suc i) b) l"
      using "2.prems" lt by (auto simp: slice_len_swap less_imp_le)
    then have "\<exists>b'. bucket_pick_reorder i (swap_slices (Suc i) b) = Inr b' \<and>
        reordered (swap_slices (Suc i) b) b'"
      using "2.IH" [of "bk_slices b ! Suc i"] True "2.prems" by (simp add: bucket_wf_swap slice_at_def)
    with True read "2.prems" show ?thesis
      by (auto simp: slice_at_def intro!: reordered_swap [of b "Suc i"])
  next
    case False
    then have "slice_len b i \<le> slice_len b (Suc i)"
      using "2.prems" by (simp add: slice_len_def slice_ok_less_iff bucket_wfD not_less)
    then have "bucket_sorted b"
      using "2.prems"(3) unfolding bucket_sorted_def by (blast intro: ascending_but_target)
    with False read "2.prems" show ?thesis
      by (auto simp: reordered_def slice_at_def)
  qed
qed

section \<open>Put, pick and confuse on a bucket\<close>

lemma bucket_create_inv: "neb_random_bucket_create True = Some b \<Longrightarrow> bucket_inv b \<and> bucket_nodes b = {#}"
  by (auto simp: neb_random_bucket_create_def bucket_inv_def bucket_wf_def bucket_sorted_def slice_len_def
      slice_at_def bucket_nodes_def slice_ok_def SLICE_TOTAL_NUMBER_def)

lemma slices_surj: "bucket_wf b \<Longrightarrow> p < 10 \<Longrightarrow> \<exists>i < 10. bk_slices b ! i = p"
proof -
  assume wf: "bucket_wf b" and p: "p < 10"
  have "set (bk_slices b) = {..<10}"
    using wf by (intro card_subset_eq) (auto simp: bucket_wf_def distinct_card)
  with p wf show ?thesis by (metis in_set_conv_nth lessThan_iff bucket_wfD(2))
qed

lemma bucket_inv_nonempty:
  assumes inv: "bucket_inv b" and ne: "bucket_nodes b \<noteq> {#}"
  shows "slice_len b 7 \<noteq> 0"
proof
  assume z: "slice_len b 7 = 0"
  have "slice_len b i = 0" if i: "i < 10" for i
  proof -
    consider "i < 7" | "i = 7" | "i = 8" | "i = 9" using i by linarith
    then show ?thesis
    proof cases
      case 1
      then have "slice_len b i \<le> slice_len b 7" using inv by (simp add: bucket_inv_def bucket_sorted_def)
      with z show ?thesis by simp
    qed (use inv z in \<open>auto simp: bucket_inv_def\<close>)
  qed
  then have "nlist (bk_slices_mem b ! p) = []" if "p < 10" for p
    using slices_surj [of b p] that inv by (auto simp: bucket_inv_def slice_len_def slice_at_def)
  then have "\<forall>s \<in> set (bk_slices_mem b). nlist s = []"
    using inv by (auto simp: bucket_inv_def bucket_wf_def in_set_conv_nth)
  then have "bucket_nodes b = {#}"
    unfolding bucket_nodes_def by (intro sum_list_all_0) simp
  with ne show False by simp
qed

lemma bucket_put_correct:
  assumes inv: "bucket_inv b" and d: "draw < 8" and sz: "size (bucket_nodes b) + 1 < 2 ^ 32"
  shows "bucket_inv (neb_random_bucket_put draw b n)"
    and "bucket_nodes (neb_random_bucket_put draw b n) = add_mset n (bucket_nodes b)"
proof -
  have wf: "bucket_wf b" using inv by (simp add: bucket_inv_def)
  define rn where "rn = (if slice_count (slice_at b 0) < drop_bit 3 (bk_count b) then 0 else draw)"
  define s where "s = slice_at b rn"
  define s' where "s' = s\<lparr>nlist := nlist s @ [n], slice_count := slice_count s + 1\<rparr>"
  define b2 where "b2 = (set_slice_at rn s' b)\<lparr>bk_count := bk_count b + 1\<rparr>"
  have rn: "rn < 8" using d by (simp add: rn_def)
  have put: "neb_random_bucket_put draw b n = bucket_put_reorder (rn + 1) b2"
    by (simp add: neb_random_bucket_put_def Let_def b2_def s'_def s_def rn_def set_slice_at_def)
  have nodes: "bucket_nodes b2 = add_mset n (bucket_nodes b)"
    using bucket_nodes_set_slice_at [of b rn s'] wf rn by (simp add: b2_def s'_def s_def bucket_simps)
  have "slice_ok s'"
    using slice_len_le_size [OF wf, of rn] wf rn sz
    by (simp add: s'_def s_def slice_len_def slice_ok_push bucket_wfD)
  then have wf2: "bucket_wf b2"
    unfolding b2_def using wf rn sz nodes
    by (intro bucket_wf_set_slice_at) (simp_all add: b2_def bucket_simps bucket_wfD)
  have len: "slice_len b2 k = slice_len b k + (if k = rn then 1 else 0)" if "k < 10" for k
    using that wf rn by (simp add: b2_def slice_len_def bucket_simps slice_at_set_slice_at s'_def s_def)
  have "\<forall>k l. k < l \<and> l < 8 \<and> k \<noteq> rn + 1 - 1 \<longrightarrow> slice_len b2 k \<le> slice_len b2 l"
    using inv by (simp add: len bucket_inv_def bucket_sorted_def trans_le_add1)
  then have re: "reordered b2 (neb_random_bucket_put draw b n)"
    unfolding put using wf2 rn by (intro put_reorder_reordered) auto
  then show "bucket_nodes (neb_random_bucket_put draw b n) = add_mset n (bucket_nodes b)"
    by (simp add: reordered_def nodes)
  show "bucket_inv (neb_random_bucket_put draw b n)"
    using re inv rn len [of 8] len [of 9] by (simp add: bucket_inv_def reordered_def)
qed

lemma pick_scan_empty:
  "\<forall>k. rn \<le> k \<and> k < 10 \<longrightarrow> slice_len b k = 0 \<Longrightarrow> rn \<le> 10 \<Longrightarrow> bucket_pick_scan rn b = (10, None, b)"
proof (induction rn b rule: bucket_pick_scan.induct)
  case (1 rn b)
  then show ?case
    by (cases "rn < 10") (auto simp: bucket_pick_scan.simps [of rn b] bucket_pick_scan.simps [of 10 b]
        SLICE_TOTAL_NUMBER_def slice_len_def)
qed

definition pick_from :: "nat \<Rightarrow> neb_random_node list \<Rightarrow> neb_random_bucket \<Rightarrow> neb_random_bucket" where
  "pick_from rn ns b =
     (let s = slice_at b rn in
      (set_slice_at rn (s\<lparr>nlist := ns, slice_count := slice_count s - 1\<rparr>) b)\<lparr>bk_count := bk_count b - 1\<rparr>)"

lemma pick_scan_found:
  "rn \<le> k \<Longrightarrow> k < 10 \<Longrightarrow> slice_len b k \<noteq> 0 \<Longrightarrow>
   \<exists>rn' n ns. rn' \<le> k \<and> nlist (slice_at b rn') = n # ns \<and>
     bucket_pick_scan rn b = (rn', Some n, pick_from rn' ns b)"
proof (induction rn b rule: bucket_pick_scan.induct)
  case (1 rn b)
  show ?case
  proof (cases "nlist (slice_at b rn)")
    case Nil
    with "1.prems" have "rn \<noteq> k" by (auto simp: slice_len_def)
    with "1.IH" "1.prems" Nil show ?thesis
      by (simp add: bucket_pick_scan.simps [of rn b] SLICE_TOTAL_NUMBER_def)
  next
    case (Cons n ns)
    with "1.prems" show ?thesis
      by (intro exI [of _ rn])
        (simp add: bucket_pick_scan.simps [of rn b] SLICE_TOTAL_NUMBER_def pick_from_def Let_def set_slice_at_def)
  qed
qed

lemma bucket_pick_found:
  assumes inv: "bucket_inv b" and rn: "rn < 8" and s: "nlist (slice_at b rn) = n # ns"
  shows "\<exists>b'. bucket_pick_reorder rn (pick_from rn ns b) = Inr b' \<and> bucket_inv b' \<and>
           bucket_nodes b = add_mset n (bucket_nodes b')"
proof -
  have wf: "bucket_wf b" using inv by (simp add: bucket_inv_def)
  let ?b = "pick_from rn ns b"
  have nodes: "bucket_nodes b = add_mset n (bucket_nodes ?b)"
    using bucket_nodes_set_slice_at [of b rn "(slice_at b rn)\<lparr>nlist := ns, slice_count := slice_count (slice_at b rn) - 1\<rparr>"]
      wf rn s by (simp add: pick_from_def Let_def bucket_simps)
  have wf2: "bucket_wf ?b"
    unfolding pick_from_def Let_def
  proof (intro bucket_wf_set_slice_at)
    show "slice_ok ((slice_at b rn)\<lparr>nlist := ns, slice_count := slice_count (slice_at b rn) - 1\<rparr>)"
      using wf rn s by (intro slice_ok_pop) (auto simp: bucket_wfD)
  qed (use wf rn nodes bucket_wfD(4,5) [OF wf] in \<open>simp_all add: pick_from_def Let_def bucket_simps\<close>)
  have len: "slice_len ?b k = slice_len b k - (if k = rn then 1 else 0)" if "k < 10" for k
    using that wf rn s by (simp add: pick_from_def Let_def slice_len_def bucket_simps slice_at_set_slice_at)
  have "\<forall>k l. k < l \<and> l < 8 \<and> l \<noteq> rn \<longrightarrow> slice_len ?b k \<le> slice_len ?b l"
    using inv by (auto simp: len bucket_inv_def bucket_sorted_def le_diff_conv trans_le_add1)
  then obtain b' where "bucket_pick_reorder rn ?b = Inr b'" "reordered ?b b'"
    using pick_reorder_reordered [OF wf2 rn] by blast
  then show ?thesis
    using inv rn nodes len [of 8] len [of 9] by (auto simp: bucket_inv_def reordered_def)
qed

text \<open>The start index of a pick: the last slice is empty, so the draw decides.\<close>

lemma bucket_pick_unfold:
  assumes "bucket_inv b" "bucket_nodes b \<noteq> {#}"
  shows "neb_random_bucket_pick draw b =
    (case bucket_pick_scan (draw + 2) b of
       (rn', n, b1) \<Rightarrow> obind (bucket_pick_reorder rn' b1) (\<lambda>b2. Inr (n, b2)))"
proof -
  have wf: "bucket_wf b" using assms by (simp add: bucket_inv_def)
  have "slice_ok (slice_at b 9)" using wf by (simp add: bucket_wfD)
  then have "slice_count (slice_at b 9) = 0"
    using assms(1) by (simp add: bucket_inv_def slice_len_def slice_ok_def)
  moreover have "bk_count b \<noteq> 0"
    using assms(2) wf by (simp add: bucket_wfD bucket_size of_nat_word_eq_0_iff)
  ultimately show ?thesis
    by (simp add: neb_random_bucket_pick_def SLICE_TOTAL_NUMBER_def SLICE_RANDOM_NUMBER_def
        word_not_simps not_less split: prod.split)
qed

lemma bucket_pick_low:
  assumes inv: "bucket_inv b" and ne: "bucket_nodes b \<noteq> {#}" and d: "draw < 6"
  shows "\<exists>n b'. neb_random_bucket_pick draw b = Inr (Some n, b') \<and> bucket_inv b' \<and>
           bucket_nodes b = add_mset n (bucket_nodes b')"
proof -
  obtain rn n ns where "rn \<le> 7" "nlist (slice_at b rn) = n # ns"
    "bucket_pick_scan (draw + 2) b = (rn, Some n, pick_from rn ns b)"
    using pick_scan_found [of "draw + 2" 7 b] d bucket_inv_nonempty [OF inv ne] by auto
  moreover obtain b' where "bucket_pick_reorder rn (pick_from rn ns b) = Inr b'" "bucket_inv b'"
    "bucket_nodes b = add_mset n (bucket_nodes b')"
    using bucket_pick_found [OF inv, of rn n ns] calculation by auto
  ultimately show ?thesis by (simp add: bucket_pick_unfold [OF inv ne])
qed

lemma bucket_pick_high:
  assumes inv: "bucket_inv b" and ne: "bucket_nodes b \<noteq> {#}" and d: "6 \<le> draw" "draw < 8"
  shows "neb_random_bucket_pick draw b = Inl OutOfBounds"
proof -
  have "slice_len b k = 0" if "draw + 2 \<le> k" "k < 10" for k
  proof -
    from that d have "k = 8 \<or> k = 9" by linarith
    with inv show ?thesis by (auto simp: bucket_inv_def)
  qed
  then have "bucket_pick_scan (draw + 2) b = (10, None, b)"
    using d by (intro pick_scan_empty) auto
  moreover have "bucket_pick_reorder 10 b = Inl OutOfBounds"
    using inv bucket_pick_reorder.simps(2) [of 9 b] by (simp add: bucket_inv_def bucket_wfD)
  ultimately show ?thesis by (simp add: bucket_pick_unfold [OF inv ne])
qed

lemma bucket_pick_empty: "bucket_inv b \<Longrightarrow> bucket_nodes b = {#} \<Longrightarrow> neb_random_bucket_pick draw b = Inr (None, b)"
  by (simp add: neb_random_bucket_pick_def bucket_inv_def bucket_wfD)

subsection \<open>Confusing a bucket\<close>

lemma bucket_reverse_slice:
  assumes inv: "bucket_inv b" and si: "si < 10"
  shows "bucket_inv (set_slice_at si (neb_random_slice_reverse (slice_at b si)) b)"
    and "bucket_nodes (set_slice_at si (neb_random_slice_reverse (slice_at b si)) b) = bucket_nodes b"
proof -
  let ?s = "neb_random_slice_reverse (slice_at b si)"
  have wf: "bucket_wf b" using inv by (simp add: bucket_inv_def)
  show nodes: "bucket_nodes (set_slice_at si ?s b) = bucket_nodes b"
    using bucket_nodes_set_slice_at [OF wf si, of ?s] by simp
  have "slice_ok ?s" using bucket_wfD(7) [OF wf si] by (simp add: slice_ok_def)
  then have wf2: "bucket_wf ((set_slice_at si ?s b)\<lparr>bk_count := bk_count b\<rparr>)"
    using wf si nodes by (intro bucket_wf_set_slice_at) (auto simp: bucket_wfD bucket_size)
  have "slice_len (set_slice_at si ?s b) k = slice_len b k" if "k < 10" for k
    using that wf si by (simp add: slice_len_def slice_at_set_slice_at)
  with inv wf2 show "bucket_inv (set_slice_at si ?s b)"
    by (simp add: bucket_inv_def bucket_sorted_def set_slice_at_def)
qed

lemma bucket_confuse_loop_correct:
  assumes "bucket_inv b" "length indexes = 10" "\<forall>x \<in> set indexes. x < 10" "\<forall>i < 5. draw i < 10 - i - 1"
  shows "bucket_inv (bucket_confuse_loop draw i indexes b) \<and>
         bucket_nodes (bucket_confuse_loop draw i indexes b) = bucket_nodes b"
  using assms
proof (induction draw i indexes b rule: bucket_confuse_loop.induct)
  case (1 draw i indexes b)
  show ?case
  proof (cases "i < 5")
    case True
    let ?j = "draw i + i + 1"
    let ?si = "indexes ! ?j"
    have j: "?j < 10" using "1.prems"(4) True by (metis add.commute add.left_commute less_diff_conv plus_1_eq_Suc)
    then have si: "?si < 10" using "1.prems" by simp
    let ?ix = "indexes[?j := indexes ! i, i := ?si]"
    have "set ?ix \<subseteq> {..<10}"
      using "1.prems" True si by (intro set_update_subsetI) auto
    then have "\<forall>x \<in> set ?ix. x < 10" by blast
    then have "bucket_inv (bucket_confuse_loop draw (i + 1) ?ix (set_slice_at ?si (neb_random_slice_reverse (slice_at b ?si)) b)) \<and>
        bucket_nodes (bucket_confuse_loop draw (i + 1) ?ix (set_slice_at ?si (neb_random_slice_reverse (slice_at b ?si)) b)) =
        bucket_nodes (set_slice_at ?si (neb_random_slice_reverse (slice_at b ?si)) b)"
      using "1.prems" True si by (intro "1.IH") (auto simp: SLICE_TOTAL_NUMBER_def bucket_reverse_slice)
    then show ?thesis
      using True bucket_reverse_slice(2) [OF "1.prems"(1) si]
      by (simp only: bucket_confuse_loop.simps [of draw i] SLICE_TOTAL_NUMBER_def Let_def) simp
  next
    case False
    with "1.prems" show ?thesis by (simp add: bucket_confuse_loop.simps [of draw i] SLICE_TOTAL_NUMBER_def)
  qed
qed

lemma bucket_confuse_correct:
  assumes "bucket_inv b" "\<forall>i < 5. draw i < 10 - i - 1"
  shows "bucket_inv (neb_random_bucket_confuse draw b)"
    and "bucket_nodes (neb_random_bucket_confuse draw b) = bucket_nodes b"
  using bucket_confuse_loop_correct [OF assms(1), of "[0..<10]" draw 0] assms(2)
  by (auto simp: neb_random_bucket_confuse_def SLICE_TOTAL_NUMBER_def)

section \<open>The bag interface\<close>

text \<open>What pools and rings rely on: a bag of nodes from which every pick with a good draw takes
  one node out, and into which a put adds one.\<close>

locale node_bag =
  fixes bag_ok :: "'b \<Rightarrow> bool" and contents :: "'b \<Rightarrow> 'n multiset"
    and bput :: "nat \<Rightarrow> 'b \<Rightarrow> 'n \<Rightarrow> 'b" and bpick :: "nat \<Rightarrow> 'b \<Rightarrow> ('n option \<times> 'b) outcome"
    and put_draws pick_draws capacity :: nat
  assumes put_law: "bag_ok b \<Longrightarrow> d < put_draws \<Longrightarrow> size (contents b) + 1 < capacity \<Longrightarrow>
      bag_ok (bput d b n) \<and> contents (bput d b n) = add_mset n (contents b)"
    and pick_law: "bag_ok b \<Longrightarrow> contents b \<noteq> {#} \<Longrightarrow> d < pick_draws \<Longrightarrow>
      \<exists>n b'. bpick d b = Inr (Some n, b') \<and> bag_ok b' \<and> contents b = add_mset n (contents b')"
    and pick_none: "bag_ok b \<Longrightarrow> contents b = {#} \<Longrightarrow> bpick d b = Inr (None, b)"

fun drain :: "(nat \<Rightarrow> 'b \<Rightarrow> ('n option \<times> 'b) outcome) \<Rightarrow> nat list \<Rightarrow> 'b \<Rightarrow> ('n list \<times> 'b) outcome" where
  "drain pick [] b = Inr ([], b)"
| "drain pick (d # ds) b =
     obind (pick d b) (\<lambda>(n, b1). obind (drain pick ds b1) (\<lambda>(ns, b2).
       Inr (case n of None \<Rightarrow> ns | Some x \<Rightarrow> x # ns, b2)))"

fun fill :: "(nat \<Rightarrow> 'b \<Rightarrow> 'n \<Rightarrow> 'b) \<Rightarrow> (nat \<times> 'n) list \<Rightarrow> 'b \<Rightarrow> 'b" where
  "fill put [] b = b"
| "fill put ((d, n) # xs) b = fill put xs (put d b n)"

context node_bag
begin

lemma fill_contents:
  assumes "bag_ok b" "\<forall>(d, n) \<in> set xs. d < put_draws" "size (contents b) + length xs < capacity"
  shows "bag_ok (fill bput xs b) \<and> contents (fill bput xs b) = contents b + mset (map snd xs)"
  using assms
proof (induction xs arbitrary: b)
  case (Cons x xs)
  then show ?case using put_law [of b "fst x" "snd x"] by (cases x) simp
qed simp

lemma drain_contents:
  assumes "bag_ok b" "\<forall>d \<in> set ds. d < pick_draws" "length ds = size (contents b)"
  shows "\<exists>ns b'. drain bpick ds b = Inr (ns, b') \<and> bag_ok b' \<and> mset ns = contents b \<and> contents b' = {#}"
  using assms
proof (induction ds arbitrary: b)
  case (Cons d ds)
  then have "contents b \<noteq> {#}" by auto
  with Cons.prems obtain n b1 where n: "bpick d b = Inr (Some n, b1)" "bag_ok b1"
    "contents b = add_mset n (contents b1)" using pick_law [of b d] by auto
  then show ?case using Cons.IH [of b1] Cons.prems by auto
qed simp

end

interpretation bucket: node_bag bucket_inv bucket_nodes neb_random_bucket_put neb_random_bucket_pick 8 6 "2 ^ 32"
  by unfold_locales (auto simp: bucket_put_correct bucket_pick_empty intro: bucket_pick_low)

section \<open>Adding ranges\<close>

text \<open>The values \<open>min, min + step, \<dots>\<close> up to \<open>max\<close>.\<close>

function range_values :: "int \<Rightarrow> int \<Rightarrow> int \<Rightarrow> int list" where
  "range_values i maxv step =
     (if i \<le> maxv \<and> 0 < step then i # range_values (i + step) maxv step else [])"
  by pat_completeness auto
termination
  by (relation "measure (\<lambda>(i, maxv, step). nat (maxv + 1 - i))") auto

declare range_values.simps [simp del]

text \<open>Both range loops add to a container through its own add operation.\<close>

locale range_adder =
  fixes add1 :: "nat option \<Rightarrow> nat \<Rightarrow> 's \<Rightarrow> 64 word \<Rightarrow> int \<times> 's"
    and loop :: "(int \<Rightarrow> nat option \<times> nat) \<Rightarrow> int \<Rightarrow> int \<Rightarrow> int \<Rightarrow> 's \<Rightarrow> (int \<times> 's) outcome"
    and ok :: "'s \<Rightarrow> bool" and nodes :: "'s \<Rightarrow> neb_random_node multiset"
  assumes loop_eq: "loop env i maxv step p =
     (if i \<le> maxv \<and> 0 < step then
        let (ret, p1) = add1 (fst (env i)) (snd (env i)) p (word_of_int i) in
        if ret \<noteq> 0 then Inr (-1, p1)
        else if int_max < i + step then Inl SignedOverflow
        else loop env (i + step) maxv step p1
      else Inr (0, p))"
    and add_none: "add1 None d p v = (-1, p)"
    and add_some: "ok p \<Longrightarrow> d < 8 \<Longrightarrow> size (nodes p) + 1 < 2 ^ 32 \<Longrightarrow>
      \<exists>p'. add1 (Some a) d p v = (0, p') \<and> ok p' \<and>
        nodes p' = add_mset \<lparr>rn_addr = a, rn_value = v\<rparr> (nodes p)"
begin

lemma range_loop_adds:
  assumes "ok p" "0 < step" "maxv + step \<le> int_max"
    and "\<forall>i \<in> set (range_values i maxv step). snd (env i) < 8 \<and> fst (env i) = Some (addr i)"
    and "size (nodes p) + length (range_values i maxv step) < 2 ^ 32"
  shows "\<exists>p'. loop env i maxv step p = Inr (0, p') \<and> ok p' \<and>
    nodes p' = nodes p + mset (map (\<lambda>i. \<lparr>rn_addr = addr i, rn_value = word_of_int i\<rparr>) (range_values i maxv step))"
  using assms
proof (induction i maxv step arbitrary: p rule: range_values.induct)
  case (1 i maxv step)
  show ?case
  proof (cases "i \<le> maxv")
    case True
    then have vals: "range_values i maxv step = i # range_values (i + step) maxv step"
      using 1 by (simp add: range_values.simps [of i])
    then obtain p1 where p1: "add1 (fst (env i)) (snd (env i)) p (word_of_int i) = (0, p1)" "ok p1"
      "nodes p1 = add_mset \<lparr>rn_addr = addr i, rn_value = word_of_int i\<rparr> (nodes p)"
      using add_some [of p "snd (env i)" "addr i" "word_of_int i"] "1.prems" by auto
    with 1 True vals have "\<exists>p'. loop env (i + step) maxv step p1 = Inr (0, p') \<and> ok p' \<and>
        nodes p' = nodes p1 + mset (map (\<lambda>i. \<lparr>rn_addr = addr i, rn_value = word_of_int i\<rparr>)
          (range_values (i + step) maxv step))" by (intro "1.IH") auto
    then show ?thesis using True p1 vals "1.prems" by (auto simp: loop_eq [of env i])
  next
    case False
    then show ?thesis using 1 by (simp add: loop_eq [of env i] range_values.simps [of i])
  qed
qed

text \<open>With \<^verbatim>\<open>max\<close> so close to the largest \<open>int\<close> that the increment
  after the last value passes it, the loop never ends well.\<close>

lemma range_loop_overflow:
  assumes "ok p" "0 < step" "i \<le> maxv"
    and "\<forall>i \<in> set (range_values i maxv step). snd (env i) < 8 \<and> fst (env i) = Some (addr i)"
    and "size (nodes p) + length (range_values i maxv step) < 2 ^ 32"
    and "last (range_values i maxv step) + step > int_max"
  shows "loop env i maxv step p = Inl SignedOverflow"
  using assms
proof (induction i maxv step arbitrary: p rule: range_values.induct)
  case (1 i maxv step)
  have vals: "range_values i maxv step = i # range_values (i + step) maxv step"
    using 1 by (simp add: range_values.simps [of i])
  then obtain p1 where p1: "add1 (fst (env i)) (snd (env i)) p (word_of_int i) = (0, p1)" "ok p1"
    "nodes p1 = add_mset \<lparr>rn_addr = addr i, rn_value = word_of_int i\<rparr> (nodes p)"
    using add_some [of p "snd (env i)" "addr i" "word_of_int i"] "1.prems" by auto
  show ?case
  proof (cases "int_max < i + step")
    case True
    then show ?thesis using p1 "1.prems" by (simp add: loop_eq [of env i])
  next
    case False
    have more: "i + step \<le> maxv"
    proof (rule ccontr)
      assume "\<not> i + step \<le> maxv"
      then have "range_values (i + step) maxv step = []" by (simp add: range_values.simps [of "i + step"])
      with vals "1.prems"(6) False show False by simp
    qed
    then have "range_values (i + step) maxv step \<noteq> []"
      using "1.prems" by (subst range_values.simps) simp
    then have "loop env (i + step) maxv step p1 = Inl SignedOverflow"
      using 1 vals p1 more by auto
    then show ?thesis using p1 False "1.prems" by (simp add: loop_eq [of env i])
  qed
qed

end

section \<open>Pools\<close>

definition pool_nodes :: "neb_random_pool \<Rightarrow> neb_random_node multiset" where
  "pool_nodes p = bucket_nodes (pool_bucket p) + mset (pool_in_use p)"

definition pool_inv :: "neb_random_pool \<Rightarrow> bool" where
  "pool_inv p \<longleftrightarrow> bucket_inv (pool_bucket p) \<and> size (pool_nodes p) < 2 ^ 32"

lemma pool_add_some:
  assumes "pool_inv p" "d < 8" "size (pool_nodes p) + 1 < 2 ^ 32"
  shows "\<exists>p'. neb_random_pool_add (Some a) d p v = (0, p') \<and> pool_inv p' \<and>
    pool_nodes p' = add_mset \<lparr>rn_addr = a, rn_value = v\<rparr> (pool_nodes p)"
  using assms bucket.put_law [of "pool_bucket p" d]
  by (simp add: neb_random_pool_add_def pool_inv_def pool_nodes_def)

interpretation pool_range: range_adder neb_random_pool_add pool_add_range_loop pool_inv pool_nodes
proof
  show "pool_add_range_loop env i maxv step p =
     (if i \<le> maxv \<and> 0 < step then
        let (ret, p1) = neb_random_pool_add (fst (env i)) (snd (env i)) p (word_of_int i) in
        if ret \<noteq> 0 then Inr (-1, p1)
        else if int_max < i + step then Inl SignedOverflow
        else pool_add_range_loop env (i + step) maxv step p1
      else Inr (0, p))" for env i maxv step p
    by (rule pool_add_range_loop.simps)
  show "neb_random_pool_add None d p v = (-1, p)" for d p v
    by (simp add: neb_random_pool_add_def)
qed (rule pool_add_some)

lemma tailq_remove_cases:
  "n \<in> set ns \<Longrightarrow> tailq_remove n ns = Inr (remove1 n ns)"
  "n \<notin> set ns \<Longrightarrow> tailq_remove n ns = Inl NotLinked"
  by (simp_all add: tailq_remove_def)

lemma pool_pick_some:
  assumes inv: "pool_inv p" and ne: "bucket_nodes (pool_bucket p) \<noteq> {#}" and d: "draw < 6"
  shows "\<exists>n p'. neb_random_pool_pick draw p = Inr (Some n, p') \<and> pool_inv p' \<and>
     pool_nodes p' = pool_nodes p \<and> n \<in># bucket_nodes (pool_bucket p) \<and>
     pool_in_use p' = n # pool_in_use p"
proof -
  obtain n b where "neb_random_bucket_pick draw (pool_bucket p) = Inr (Some n, b)" "bucket_inv b"
    "bucket_nodes (pool_bucket p) = add_mset n (bucket_nodes b)"
    using bucket.pick_law [of "pool_bucket p" draw] inv ne d by (auto simp: pool_inv_def)
  with inv show ?thesis by (simp add: neb_random_pool_pick_def pool_inv_def pool_nodes_def)
qed

lemma pool_put_some:
  assumes inv: "pool_inv p" and n: "n \<in> set (pool_in_use p)" and d: "draw < 8"
  shows "\<exists>p'. neb_random_pool_put draw p n = Inr p' \<and> pool_inv p' \<and> pool_nodes p' = pool_nodes p \<and>
     bucket_nodes (pool_bucket p') = add_mset n (bucket_nodes (pool_bucket p))"
proof -
  have size: "length (pool_in_use p) = Suc (length (remove1 n (pool_in_use p)))"
    using n by (rule length_remove1_mem)
  then have "size (bucket_nodes (pool_bucket p)) + 1 < 2 ^ 32"
    using inv by (simp add: pool_inv_def pool_nodes_def)
  with inv d bucket.put_law [of "pool_bucket p" draw n]
  show ?thesis using n size
    by (simp add: neb_random_pool_put_def tailq_remove_cases pool_inv_def pool_nodes_def)
qed

section \<open>Rings\<close>

definition ring_nodes :: "neb_random_ring \<Rightarrow> neb_random_node multiset" where
  "ring_nodes r = bucket_nodes (pick_bucket r) + bucket_nodes (put_bucket r) + mset (ring_in_use r)"

definition ring_inv :: "neb_random_ring \<Rightarrow> bool" where
  "ring_inv r \<longleftrightarrow> bucket_inv (pick_bucket r) \<and> bucket_inv (put_bucket r) \<and> size (ring_nodes r) < 2 ^ 32"

lemma bucket_count_eq_0: "bucket_inv b \<Longrightarrow> bk_count b = 0 \<longleftrightarrow> bucket_nodes b = {#}"
  by (simp add: bucket_inv_def bucket_wfD of_nat_word_eq_0_iff bucket_size)

lemma ring_add_some:
  assumes "ring_inv r" "d < 8" "size (ring_nodes r) + 1 < 2 ^ 32"
  shows "\<exists>r'. neb_random_ring_add (Some a) d r v = (0, r') \<and> ring_inv r' \<and>
    ring_nodes r' = add_mset \<lparr>rn_addr = a, rn_value = v\<rparr> (ring_nodes r)"
  using assms bucket.put_law [of "pick_bucket r" d]
  by (simp add: neb_random_ring_add_def ring_inv_def ring_nodes_def)

interpretation ring_range: range_adder neb_random_ring_add ring_add_range_loop ring_inv ring_nodes
proof
  show "ring_add_range_loop env i maxv step p =
     (if i \<le> maxv \<and> 0 < step then
        let (ret, p1) = neb_random_ring_add (fst (env i)) (snd (env i)) p (word_of_int i) in
        if ret \<noteq> 0 then Inr (-1, p1)
        else if int_max < i + step then Inl SignedOverflow
        else ring_add_range_loop env (i + step) maxv step p1
      else Inr (0, p))" for env i maxv step p
    by (rule ring_add_range_loop.simps)
  show "neb_random_ring_add None d p v = (-1, p)" for d p v
    by (simp add: neb_random_ring_add_def)
qed (rule ring_add_some)

text \<open>A pick takes from the pick bucket; when that one is empty the buckets change roles first.\<close>

lemma ring_pick_some:
  assumes inv: "ring_inv r" and ne: "bucket_nodes (pick_bucket r) \<noteq> {#}" and d: "draw < 6"
  shows "\<exists>n r'. neb_random_ring_pick draw r = Inr (Some n, r') \<and> ring_inv r' \<and> ring_nodes r' = ring_nodes r \<and>
     bucket_nodes (pick_bucket r) = add_mset n (bucket_nodes (pick_bucket r')) \<and>
     put_bucket r' = put_bucket r \<and> ring_in_use r' = n # ring_in_use r"
proof -
  obtain n b where "neb_random_bucket_pick draw (pick_bucket r) = Inr (Some n, b)" "bucket_inv b"
    "bucket_nodes (pick_bucket r) = add_mset n (bucket_nodes b)"
    using bucket.pick_law [of "pick_bucket r" draw] inv ne d by (auto simp: ring_inv_def)
  with inv ne show ?thesis
    by (simp add: neb_random_ring_pick_def ring_inv_def ring_nodes_def bucket_count_eq_0)
qed

lemma ring_pick_turn:
  assumes inv: "ring_inv r" and e: "bucket_nodes (pick_bucket r) = {#}" "bucket_nodes (put_bucket r) \<noteq> {#}"
  shows "neb_random_ring_pick draw r =
    neb_random_ring_pick draw (r\<lparr>put_bucket := pick_bucket r, pick_bucket := put_bucket r\<rparr>)"
  using inv e by (simp add: neb_random_ring_pick_def ring_inv_def bucket_count_eq_0)

lemma ring_put_some:
  assumes inv: "ring_inv r" and n: "n \<in> set (ring_in_use r)" and d: "draw < 8"
  shows "\<exists>r'. neb_random_ring_put draw r n = Inr r' \<and> ring_inv r' \<and> ring_nodes r' = ring_nodes r \<and>
     pick_bucket r' = pick_bucket r \<and> bucket_nodes (put_bucket r') = add_mset n (bucket_nodes (put_bucket r))"
proof -
  have size: "length (ring_in_use r) = Suc (length (remove1 n (ring_in_use r)))"
    using n by (rule length_remove1_mem)
  then have "size (bucket_nodes (put_bucket r)) + 1 < 2 ^ 32"
    using inv by (simp add: ring_inv_def ring_nodes_def)
  with inv d bucket.put_law [of "put_bucket r" draw n]
  show ?thesis using n size
    by (simp add: neb_random_ring_put_def tailq_remove_cases ring_inv_def ring_nodes_def)
qed

subsection \<open>Runs of a ring\<close>

text \<open>A client interleaves picks and puts; the run collects the picked nodes in order.\<close>

datatype ring_op = RPick nat | RPut nat neb_random_node

fun ring_run :: "ring_op list \<Rightarrow> neb_random_ring \<Rightarrow> (neb_random_node option list \<times> neb_random_ring) outcome" where
  "ring_run [] r = Inr ([], r)"
| "ring_run (RPick d # ops) r =
     obind (neb_random_ring_pick d r) (\<lambda>(n, r1). obind (ring_run ops r1) (\<lambda>(ns, r2). Inr (n # ns, r2)))"
| "ring_run (RPut d n # ops) r = obind (neb_random_ring_put d r n) (ring_run ops)"

fun is_pick :: "ring_op \<Rightarrow> bool" where
  "is_pick (RPick d) = True"
| "is_pick (RPut d n) = False"

fun good_draw :: "ring_op \<Rightarrow> bool" where
  "good_draw (RPick d) \<longleftrightarrow> d < 6"
| "good_draw (RPut d n) \<longleftrightarrow> d < 8"

lemma ring_run_epoch:
  assumes "ring_inv r" "\<forall>opn \<in> set ops. good_draw opn"
    "length (filter is_pick ops) \<le> size (bucket_nodes (pick_bucket r))"
  shows "ring_run ops r = Inl NotLinked \<or>
    (\<exists>ns r'. ring_run ops r = Inr (map Some ns, r') \<and> length ns = length (filter is_pick ops) \<and>
       ring_inv r' \<and> ring_nodes r' = ring_nodes r \<and>
       bucket_nodes (pick_bucket r) = mset ns + bucket_nodes (pick_bucket r'))"
  using assms
proof (induction ops r rule: ring_run.induct)
  case (2 d ops r)
  then have "bucket_nodes (pick_bucket r) \<noteq> {#}" by auto
  with "2.prems" obtain n r1 where r1: "neb_random_ring_pick d r = Inr (Some n, r1)" "ring_inv r1"
    "ring_nodes r1 = ring_nodes r" "bucket_nodes (pick_bucket r) = add_mset n (bucket_nodes (pick_bucket r1))"
    using ring_pick_some [of r d] by auto
  with "2.prems" have "ring_run ops r1 = Inl NotLinked \<or>
    (\<exists>ns r'. ring_run ops r1 = Inr (map Some ns, r') \<and> length ns = length (filter is_pick ops) \<and>
       ring_inv r' \<and> ring_nodes r' = ring_nodes r1 \<and>
       bucket_nodes (pick_bucket r1) = mset ns + bucket_nodes (pick_bucket r'))"
    by (intro "2.IH") auto
  then show ?case
  proof
    assume "\<exists>ns r'. ring_run ops r1 = Inr (map Some ns, r') \<and> length ns = length (filter is_pick ops) \<and>
       ring_inv r' \<and> ring_nodes r' = ring_nodes r1 \<and>
       bucket_nodes (pick_bucket r1) = mset ns + bucket_nodes (pick_bucket r')"
    then obtain ns r' where "ring_run ops r1 = Inr (map Some ns, r')" "length ns = length (filter is_pick ops)"
      "ring_inv r'" "ring_nodes r' = ring_nodes r1"
      "bucket_nodes (pick_bucket r1) = mset ns + bucket_nodes (pick_bucket r')" by blast
    with r1 have "ring_run (RPick d # ops) r = Inr (map Some (n # ns), r')" by simp
    with r1 \<open>ring_inv r'\<close> \<open>ring_nodes r' = _\<close> \<open>length ns = _\<close> \<open>bucket_nodes (pick_bucket r1) = _\<close>
    show ?thesis by (intro disjI2 exI [of _ "n # ns"] exI [of _ r']) simp
  qed (simp add: r1)
next
  case (3 d n ops r)
  show ?case
  proof (cases "n \<in> set (ring_in_use r)")
    case True
    with "3.prems" obtain r1 where "neb_random_ring_put d r n = Inr r1" "ring_inv r1"
      "ring_nodes r1 = ring_nodes r" "pick_bucket r1 = pick_bucket r"
      using ring_put_some [of r n d] by auto
    then show ?thesis using "3.IH" [of r1] "3.prems" by simp
  qed (simp add: neb_random_ring_put_def tailq_remove_cases)
qed simp

section \<open>Properties of pools and rings\<close>

text \<open>A small ring and a small pool on which the properties are evaluated.\<close>

definition sample_node :: "nat \<Rightarrow> neb_random_node" where
  "sample_node a = \<lparr>rn_addr = a, rn_value = of_nat a\<rparr>"

definition sample_ring :: neb_random_ring where
  "sample_ring = snd (neb_random_ring_add (Some 2) 1
     (snd (neb_random_ring_add (Some 1) 3 (the (neb_random_ring_create True True True)) 1)) 2)"

definition sample_pool :: neb_random_pool where
  "sample_pool = snd (neb_random_pool_add (Some 1) 3 (the (neb_random_pool_create True True)) 1)"

lemma new_bucket: "\<exists>b. neb_random_bucket_create True = Some b \<and> bucket_inv b \<and> bucket_nodes b = {#}"
  using bucket_create_inv by (auto simp: neb_random_bucket_create_def)

lemma new_ring: "ring_inv (the (neb_random_ring_create True True True)) \<and>
    bucket_nodes (pick_bucket (the (neb_random_ring_create True True True))) = {#} \<and>
    bucket_nodes (put_bucket (the (neb_random_ring_create True True True))) = {#} \<and>
    ring_in_use (the (neb_random_ring_create True True True)) = []"
  using new_bucket by (auto simp: neb_random_ring_create_def ring_inv_def ring_nodes_def)

lemma sample_ring_inv: "ring_inv sample_ring"
  and sample_ring_pick: "bucket_nodes (pick_bucket sample_ring) = {#sample_node 1, sample_node 2#}"
proof -
  let ?r0 = "the (neb_random_ring_create True True True)"
  let ?r1 = "snd (neb_random_ring_add (Some 1) 3 ?r0 1)"
  have r1: "ring_inv ?r1" "bucket_nodes (pick_bucket ?r1) = {#sample_node 1#}" "ring_nodes ?r1 = {#sample_node 1#}"
    using new_ring bucket.put_law [of "pick_bucket ?r0" 3]
    by (simp_all add: neb_random_ring_add_def ring_inv_def ring_nodes_def sample_node_def)
  then show "ring_inv sample_ring" "bucket_nodes (pick_bucket sample_ring) = {#sample_node 1, sample_node 2#}"
    unfolding sample_ring_def using bucket.put_law [of "pick_bucket ?r1" 1]
    by (simp_all add: neb_random_ring_add_def ring_inv_def ring_nodes_def sample_node_def)
qed

lemma sample_pool_inv: "pool_inv sample_pool"
  and sample_pool_bucket: "bucket_nodes (pool_bucket sample_pool) = {#sample_node 1#}"
  and sample_pool_nodes: "pool_nodes sample_pool = {#sample_node 1#}"
proof -
  let ?p0 = "the (neb_random_pool_create True True)"
  have p0: "bucket_inv (pool_bucket ?p0)" "bucket_nodes (pool_bucket ?p0) = {#}" "pool_in_use ?p0 = []"
    using new_bucket by (auto simp: neb_random_pool_create_def)
  then show "pool_inv sample_pool" "bucket_nodes (pool_bucket sample_pool) = {#sample_node 1#}"
    "pool_nodes sample_pool = {#sample_node 1#}"
    unfolding sample_pool_def using bucket.put_law [of "pool_bucket ?p0" 3]
    by (simp_all add: neb_random_pool_add_def pool_inv_def pool_nodes_def sample_node_def)
qed



text \<open>C22. Picking from a pool with a draw below six always returns a node of its bucket, moves that
  node to the in-use list, keeps the pool's invariant (exact counters, slices in ascending order,
  pointer permutation) and loses no node; putting it back undoes the move.\<close>

theorem pool_pick_put:
  assumes "pool_inv p" "bucket_nodes (pool_bucket p) \<noteq> {#}" "draw < 6" "draw2 < 8"
  shows "\<exists>n p' p''. neb_random_pool_pick draw p = Inr (Some n, p') \<and> pool_inv p' \<and>
     n \<in># bucket_nodes (pool_bucket p) \<and> pool_nodes p' = pool_nodes p \<and> pool_in_use p' = n # pool_in_use p \<and>
     neb_random_pool_put draw2 p' n = Inr p'' \<and> pool_inv p'' \<and> pool_nodes p'' = pool_nodes p \<and>
     n \<in># bucket_nodes (pool_bucket p'')"
proof -
  obtain n p' where p': "neb_random_pool_pick draw p = Inr (Some n, p')" "pool_inv p'" "pool_nodes p' = pool_nodes p"
    "n \<in># bucket_nodes (pool_bucket p)" "pool_in_use p' = n # pool_in_use p"
    using pool_pick_some assms by blast
  moreover obtain p'' where "neb_random_pool_put draw2 p' n = Inr p''" "pool_inv p''" "pool_nodes p'' = pool_nodes p'"
    "bucket_nodes (pool_bucket p'') = add_mset n (bucket_nodes (pool_bucket p'))"
    using pool_put_some [of p' n draw2] p' assms by auto
  ultimately show ?thesis by (intro exI [of _ n] exI [of _ p'] exI [of _ p'']) simp
qed

theorem pool_pick_put_witness:
  "\<exists>n p' p''. neb_random_pool_pick 4 sample_pool = Inr (Some n, p') \<and> pool_inv p' \<and>
     n \<in># bucket_nodes (pool_bucket sample_pool) \<and> pool_nodes p' = pool_nodes sample_pool \<and>
     pool_in_use p' = n # pool_in_use sample_pool \<and>
     neb_random_pool_put 7 p' n = Inr p'' \<and> pool_inv p'' \<and> pool_nodes p'' = pool_nodes sample_pool \<and>
     n \<in># bucket_nodes (pool_bucket p'')"
  by (rule pool_pick_put) (simp_all add: sample_pool_inv sample_pool_bucket)

text \<open>Adding a range: with a working allocator, enough counter capacity and no \<open>int\<close>
  overflow, the loop adds exactly one node for every value \<open>min, min + step, \<dots>\<close> up to
  \<open>max\<close> (a non-positive step counts as one) and returns 0.\<close>

theorem pool_add_range_values:
  assumes "pool_inv p" "st = (if step \<le> 0 then 1 else step)" "maxv + st \<le> int_max"
    and "\<forall>i \<in> set (range_values minv maxv st). snd (env i) < 8 \<and> fst (env i) = Some (addr i)"
    and "size (pool_nodes p) + length (range_values minv maxv st) < 2 ^ 32"
  shows "\<exists>p'. neb_random_pool_add_range env p minv maxv step = Inr (0, p') \<and> pool_inv p' \<and>
    pool_nodes p' = pool_nodes p +
      mset (map (\<lambda>i. \<lparr>rn_addr = addr i, rn_value = word_of_int i\<rparr>) (range_values minv maxv st))"
  using pool_range.range_loop_adds [of p st maxv minv env addr] assms
  by (simp add: neb_random_pool_add_range_def split: if_splits)

theorem pool_add_range_values_witness:
  "\<exists>p'. neb_random_pool_add_range (\<lambda>i. (Some (nat i), 3)) sample_pool 5 6 0 = Inr (0, p') \<and> pool_inv p' \<and>
    pool_nodes p' = pool_nodes sample_pool +
      mset (map (\<lambda>i. \<lparr>rn_addr = nat i, rn_value = word_of_int i\<rparr>) (range_values 5 6 1))"
proof -
  have "length (range_values 5 6 1) = 2" by (simp add: range_values.simps)
  then show ?thesis
    using pool_add_range_values [of sample_pool 1 0 6 5 "\<lambda>i. (Some (nat i), 3)" nat]
    by (simp add: sample_pool_inv sample_pool_nodes)
qed

text \<open>The ring's range loop overflows its \<open>int\<close> loop variable when the increment after
  the last value passes the largest \<open>int\<close>, e.g. for \<open>max\<close> equal to it: the loop
  condition \<open>i <= max\<close> cannot end it.\<close>

theorem ring_add_range_overflow:
  assumes "ring_inv r" "0 < step" "minv \<le> maxv" "last (range_values minv maxv step) + step > int_max"
    and "\<forall>i \<in> set (range_values minv maxv step). snd (env i) < 8 \<and> fst (env i) = Some (addr i)"
    and "size (ring_nodes r) + length (range_values minv maxv step) < 2 ^ 32"
  shows "neb_random_ring_add_range env r minv maxv step = Inl SignedOverflow"
  using ring_range.range_loop_overflow [of r step minv maxv env addr] assms
  by (simp add: neb_random_ring_add_range_def)

theorem ring_add_range_overflow_witness:
  "neb_random_ring_add_range (\<lambda>i. (Some (nat i), 0)) (the (neb_random_ring_create True True True))
     2147483646 2147483647 1 = Inl SignedOverflow"
  by (rule ring_add_range_overflow [where addr = nat])
    (use new_ring in \<open>auto simp: range_values.simps ring_nodes_def\<close>)

text \<open>C23. In every reachable non-empty bucket a pick that draws six or seven scans only the two
  slices that are always empty and then reads the slice pointer array behind its end.\<close>

theorem bucket_pick_out_of_bounds:
  assumes "bucket_inv b" "bucket_nodes b \<noteq> {#}" "6 \<le> draw" "draw < 8"
  shows "neb_random_bucket_pick draw b = Inl OutOfBounds"
  using assms by (rule bucket_pick_high)

theorem bucket_pick_out_of_bounds_witness:
  "neb_random_bucket_pick 6 (pool_bucket sample_pool) = Inl OutOfBounds"
  by (rule bucket_pick_out_of_bounds) (use sample_pool_inv in \<open>simp_all add: sample_pool_bucket pool_inv_def\<close>)

text \<open>Confusing a ring reverses slices only: the invariant and the nodes of both buckets stay.\<close>

theorem ring_confuse_keeps_nodes:
  assumes "ring_inv r" "\<forall>i < 5. draw1 i < 10 - i - 1" "\<forall>i < 5. draw2 i < 10 - i - 1"
  shows "ring_inv (neb_random_ring_confuse draw1 draw2 r) \<and>
    bucket_nodes (pick_bucket (neb_random_ring_confuse draw1 draw2 r)) = bucket_nodes (pick_bucket r) \<and>
    bucket_nodes (put_bucket (neb_random_ring_confuse draw1 draw2 r)) = bucket_nodes (put_bucket r)"
  using assms by (simp add: neb_random_ring_confuse_def ring_inv_def ring_nodes_def bucket_confuse_correct)

theorem ring_confuse_keeps_nodes_witness:
  "ring_inv (neb_random_ring_confuse (\<lambda>i. 0) (\<lambda>i. 1) sample_ring) \<and>
    bucket_nodes (pick_bucket (neb_random_ring_confuse (\<lambda>i. 0) (\<lambda>i. 1) sample_ring)) = bucket_nodes (pick_bucket sample_ring) \<and>
    bucket_nodes (put_bucket (neb_random_ring_confuse (\<lambda>i. 0) (\<lambda>i. 1) sample_ring)) = bucket_nodes (put_bucket sample_ring)"
  by (rule ring_confuse_keeps_nodes) (auto simp: sample_ring_inv)

end
