(* ===== verification/Neb_Csum.thy ===== *)
theory Neb_Csum
  imports Neb_Prelude
begin

text \<open>
  Model of \<^verbatim>\<open>src/src/sock/csum.c\<close>: the Internet checksum over memory and the
  functions that fill the checksum fields of TCP, ICMP and IPv4 headers. Memory maps addresses to
  bytes; \<open>le\<close> is the byte order of the build. The specification is the one's complement
  sum of RFC 1071 over the sixteen bit words of a buffer, and a filled packet is one whose sum over
  pseudo header and segment is the all-ones word.
\<close>

section \<open>Memory\<close>

type_synonym memory = "nat \<Rightarrow> u8"

definition word16_val :: "bool \<Rightarrow> u8 \<Rightarrow> u8 \<Rightarrow> nat" where
  "word16_val le a b = (if le then unat a + 256 * unat b else 256 * unat a + unat b)"

text \<open>A native sixteen bit load, promoted to \<open>unsigned int\<close>, and a thirty-two bit one.\<close>

definition load16 :: "bool \<Rightarrow> memory \<Rightarrow> nat \<Rightarrow> u32" where
  "load16 le mem a = of_nat (word16_val le (mem a) (mem (a + 1)))"

definition load32 :: "bool \<Rightarrow> memory \<Rightarrow> nat \<Rightarrow> u32" where
  "load32 le mem a =
     (let h0 = word16_val le (mem a) (mem (a + 1)); h1 = word16_val le (mem (a + 2)) (mem (a + 3))
      in of_nat (if le then h0 + 65536 * h1 else 65536 * h0 + h1))"

definition store16 :: "bool \<Rightarrow> memory \<Rightarrow> nat \<Rightarrow> u16 \<Rightarrow> memory" where
  "store16 le mem a v =
     (let lo = ucast v; hi = ucast (drop_bit 8 v)
      in if le then mem(a := lo, a + 1 := hi) else mem(a := hi, a + 1 := lo))"

definition htobe32 :: "bool \<Rightarrow> u32 \<Rightarrow> u32" where
  "htobe32 le x =
     (if le then push_bit 24 (x AND 0xff) OR push_bit 8 (x AND 0xff00) OR
                 drop_bit 8 (x AND 0xff0000) OR drop_bit 24 x
      else x)"

section \<open>The checksum routines\<close>

definition from32to16 :: "u32 \<Rightarrow> u16" where
  "from32to16 x0 =
     (let x1 = (x0 AND 0xffff) + drop_bit 16 x0; x2 = (x1 AND 0xffff) + drop_bit 16 x1 in ucast x2)"

text \<open>The \<open>do \<dots> while (buff < end)\<close> loop of \<^verbatim>\<open>do_csum\<close>.\<close>

function csum_word_loop ::
  "bool \<Rightarrow> memory \<Rightarrow> nat \<Rightarrow> nat \<Rightarrow> u32 \<Rightarrow> u32 \<Rightarrow> u32 \<times> u32 \<times> nat" where
  "csum_word_loop le mem buff bend result carry =
     (let w = load32 le mem buff;
          result2 = result + carry + w;
          carry2 = (if w > result2 then 1 else 0)
      in if buff + 4 < bend then csum_word_loop le mem (buff + 4) bend result2 carry2
         else (result2, carry2, buff + 4))"
  by pat_completeness auto
termination
  by (relation "measure (\<lambda>(le, mem, buff, bend, result, carry). bend - buff)") auto

declare csum_word_loop.simps [simp del]

text \<open>The part of \<^verbatim>\<open>do_csum\<close> under \<open>if (len >= 2)\<close>.\<close>

definition csum_words :: "bool \<Rightarrow> memory \<Rightarrow> nat \<Rightarrow> int \<Rightarrow> u32 \<Rightarrow> u32 \<times> int \<times> nat" where
  "csum_words le mem buff len result =
     (let (result1, len1, buff1) =
            (if bit buff 1 then (result + load16 le mem buff, len - 2, buff + 2) else (result, len, buff));
          (result2, buff2) =
            (if 4 \<le> len1 then
               let (r, c, b) = csum_word_loop le mem buff1 (buff1 + nat (len1 AND NOT 3)) result1 0;
                   r' = r + c
               in ((r' AND 0xffff) + drop_bit 16 r', b)
             else (result1, buff1))
      in if bit len1 1 then (result2 + load16 le mem buff2, len1, buff2 + 2) else (result2, len1, buff2))"

definition do_csum :: "bool \<Rightarrow> memory \<Rightarrow> nat \<Rightarrow> int \<Rightarrow> u32" where
  "do_csum le mem buff len =
     (if len \<le> 0 then 0
      else
        let odd = bit buff 0;
            (result0, len0, buff0) =
              (if odd then (if le then push_bit 8 (ucast (mem buff)) else ucast (mem buff), len - 1, buff + 1)
               else (0, len, buff));
            (result1, len1, buff1) =
              (if 2 \<le> len0 then csum_words le mem buff0 len0 result0 else (result0, len0, buff0));
            result2 =
              (if bit len1 0 then result1 + (if le then ucast (mem buff1) else push_bit 8 (ucast (mem buff1)))
               else result1);
            result3 = (ucast (from32to16 result2) :: u32)
        in if odd then (drop_bit 8 result3 AND 0xff) OR push_bit 8 (result3 AND 0xff) else result3)"

definition csum_partial :: "bool \<Rightarrow> memory \<Rightarrow> nat \<Rightarrow> int \<Rightarrow> u32 \<Rightarrow> u32" where
  "csum_partial le mem buff len wsum =
     (let result = do_csum le mem buff len + wsum
      in if wsum > result then result + 1 else result)"

definition from64to32 :: "u64 \<Rightarrow> u32" where
  "from64to32 x0 =
     (let x1 = (x0 AND 0xffffffff) + drop_bit 32 x0; x2 = (x1 AND 0xffffffff) + drop_bit 32 x1 in ucast x2)"

text \<open>\<open>proto + len\<close> is an \<open>int\<close> sum of two sixteen bit values, so neither it nor its
  shift overflows.\<close>

definition csum_tcpudp_nofold :: "bool \<Rightarrow> u32 \<Rightarrow> u32 \<Rightarrow> u16 \<Rightarrow> u16 \<Rightarrow> u32 \<Rightarrow> u32" where
  "csum_tcpudp_nofold le saddr daddr len proto wsum =
     (let s = ucast wsum + ucast saddr + ucast daddr +
              (if \<not> le then ucast proto + ucast len else push_bit 8 (ucast proto + ucast len))
      in from64to32 s)"

definition csum_fold :: "u32 \<Rightarrow> u16" where
  "csum_fold csum =
     (let s1 = (csum AND 0xffff) + drop_bit 16 csum; s2 = (s1 AND 0xffff) + drop_bit 16 s1
      in ucast (NOT s2))"

definition ip_fast_csum :: "bool \<Rightarrow> memory \<Rightarrow> nat \<Rightarrow> u32 \<Rightarrow> u16" where
  "ip_fast_csum le mem iph ihl = ucast (NOT (do_csum le mem iph (sint (push_bit 2 ihl))))"

definition csum_tcpudp_magic :: "bool \<Rightarrow> u32 \<Rightarrow> u32 \<Rightarrow> u16 \<Rightarrow> u16 \<Rightarrow> u32 \<Rightarrow> u16" where
  "csum_tcpudp_magic le saddr daddr len proto wsum =
     csum_fold (csum_tcpudp_nofold le saddr daddr len proto wsum)"

text \<open>One \<open>sum += x; carry = (sum < x); sum += carry\<close>.\<close>

definition add_carry :: "u32 \<Rightarrow> u32 \<Rightarrow> u32" where
  "add_carry s x = (let s1 = s + x; carry = (if s1 < x then 1 else 0) in s1 + carry)"

definition csum_ipv6_magic :: "bool \<Rightarrow> memory \<Rightarrow> nat \<Rightarrow> nat \<Rightarrow> u32 \<Rightarrow> u16 \<Rightarrow> u32 \<Rightarrow> u16" where
  "csum_ipv6_magic le mem saddr daddr len proto csum =
     (let s0 = csum;
          s1 = add_carry s0 (load32 le mem saddr);
          s2 = add_carry s1 (load32 le mem (saddr + 4));
          s3 = add_carry s2 (load32 le mem (saddr + 8));
          s4 = add_carry s3 (load32 le mem (saddr + 12));
          s5 = add_carry s4 (load32 le mem daddr);
          s6 = add_carry s5 (load32 le mem (daddr + 4));
          s7 = add_carry s6 (load32 le mem (daddr + 8));
          s8 = add_carry s7 (load32 le mem (daddr + 12));
          s9 = add_carry s8 (htobe32 le len);
          s10 = add_carry s9 (htobe32 le (ucast proto))
      in csum_fold s10)"

text \<open>Header layouts: \<open>ip_src\<close> and \<open>ip_dst\<close> at offsets 12 and 16,
  \<open>ip_sum\<close> at 10, \<open>ip_hl\<close> the low nibble of byte 0; \<open>ip6_src\<close> and
  \<open>ip6_dst\<close> at 8 and 24; \<open>th_sum\<close> at 16; \<open>icmp_cksum\<close> at 2.\<close>

definition neb_sock_csum_tcp4_fill :: "bool \<Rightarrow> memory \<Rightarrow> nat \<Rightarrow> nat \<Rightarrow> int \<Rightarrow> memory" where
  "neb_sock_csum_tcp4_fill le mem ipheader tcpheader l4len =
     (let m1 = store16 le mem (tcpheader + 16) 0
      in store16 le m1 (tcpheader + 16)
           (csum_tcpudp_magic le (load32 le m1 (ipheader + 12)) (load32 le m1 (ipheader + 16))
              (word_of_int l4len) 6 (csum_partial le m1 tcpheader l4len 0)))"

definition neb_sock_csum_tcp6_fill :: "bool \<Rightarrow> memory \<Rightarrow> nat \<Rightarrow> nat \<Rightarrow> int \<Rightarrow> memory" where
  "neb_sock_csum_tcp6_fill le mem ipheader tcpheader l4len =
     (let m1 = store16 le mem (tcpheader + 16) 0
      in store16 le m1 (tcpheader + 16)
           (csum_ipv6_magic le m1 (ipheader + 8) (ipheader + 24)
              (word_of_int l4len) 6 (csum_partial le m1 tcpheader l4len 0)))"

definition neb_sock_csum_icmp4_fill :: "bool \<Rightarrow> memory \<Rightarrow> nat \<Rightarrow> int \<Rightarrow> memory" where
  "neb_sock_csum_icmp4_fill le mem icmpheader l4len =
     (let m1 = store16 le mem (icmpheader + 2) 0
      in store16 le m1 (icmpheader + 2) (csum_fold (csum_partial le m1 icmpheader l4len 0)))"

definition neb_sock_csum_ip4_fill :: "bool \<Rightarrow> memory \<Rightarrow> nat \<Rightarrow> memory" where
  "neb_sock_csum_ip4_fill le mem ipheader =
     (let m1 = store16 le mem (ipheader + 10) 0
      in store16 le m1 (ipheader + 10) (ip_fast_csum le m1 ipheader (ucast (m1 ipheader AND 0xf))))"

section \<open>One's complement sums\<close>

text \<open>The sixteen bit words of a buffer in its native order, an odd last byte padded with zero,
  summed as natural numbers; \<open>oc_norm\<close> is the end-around-carry normal form.\<close>

fun rfc_sum :: "bool \<Rightarrow> u8 list \<Rightarrow> nat" where
  "rfc_sum le [] = 0"
| "rfc_sum le [a] = word16_val le a 0"
| "rfc_sum le (a # b # r) = word16_val le a b + rfc_sum le r"

definition oc_norm :: "nat \<Rightarrow> nat" where
  "oc_norm s = (if s = 0 then 0 else (s - 1) mod 65535 + 1)"

definition oceq :: "nat \<Rightarrow> nat \<Rightarrow> bool" where
  "oceq r s \<longleftrightarrow> r mod 65535 = s mod 65535 \<and> (r = 0 \<longleftrightarrow> s = 0)"

lemma oceq_refl [simp]: "oceq r r" by (simp add: oceq_def)

lemma oceq_sym: "oceq r s \<Longrightarrow> oceq s r" by (simp add: oceq_def)

lemma oceq_trans [trans]: "oceq r s \<Longrightarrow> oceq s t \<Longrightarrow> oceq r t" by (simp add: oceq_def)

lemma oceq_rhs: "oceq r s \<Longrightarrow> s = t \<Longrightarrow> oceq r t" by simp

lemma oceq_add: "oceq r s \<Longrightarrow> oceq r' s' \<Longrightarrow> oceq (r + r') (s + s')"
  unfolding oceq_def by (metis add_is_0 mod_add_cong)

lemma oceq_mult: "oceq r s \<Longrightarrow> 0 < k \<Longrightarrow> oceq (k * r) (k * s)"
  unfolding oceq_def by (metis mult_is_0 mod_mult_cong neq0_conv)

lemma oceq_norm: "oceq r s \<Longrightarrow> r \<le> 65535 \<Longrightarrow> r = oc_norm s"
proof (cases s)
  case (Suc s')
  assume r: "oceq r s" "r \<le> 65535"
  with Suc obtain r' where r': "r = Suc r'" "r' < 65535" by (cases r) (auto simp: oceq_def)
  with r Suc obtain q1 q2 where "Suc r' + 65535 * q1 = Suc s' + 65535 * q2"
    by (auto simp: oceq_def nat_mod_eq_iff)
  then have "r' mod 65535 = s' mod 65535" by (auto simp: nat_mod_eq_iff)
  with r' Suc show ?thesis by (simp add: oc_norm_def)
qed (simp add: oceq_def oc_norm_def)

lemma oc_norm_le: "oc_norm s \<le> 65535"
  by (simp add: oc_norm_def Suc_le_eq)

lemma oceq_oc_norm: "oceq (oc_norm s) s"
  by (cases s) (simp_all add: oc_norm_def oceq_def mod_Suc_eq)

lemma oceqI: "r = 65535 * k + s \<Longrightarrow> (r = 0 \<longleftrightarrow> s = 0) \<Longrightarrow> oceq r s"
  by (metis oceq_def mod_mult_self4)

text \<open>Folding a power of \<open>2 ^ 16\<close> back.\<close>

lemma oceq_shift16: "oceq (65536 * h + l) (h + l)"
  by (rule oceqI [of _ h]) auto

lemma oceq_shift32: "oceq (4294967296 * h + l) (h + l)"
  by (rule oceqI [of _ "65537 * h"]) auto

lemma oceq_swap: "oceq (256 * (256 * h + l)) (h + 256 * l)"
  by (rule oceqI [of _ h]) auto

lemma unat_fold32:
  "unat ((x AND 0xffff) + drop_bit 16 x :: u32) = unat x mod 65536 + unat x div 65536"
proof -
  have "unat x < 4294967296" using unsigned_less [of x] by simp
  then have "unat x div 65536 < 65536" by simp
  then show ?thesis
    by (subst unat_add_no_wrap) (simp_all add: and_low16 unat_take_bit_mod unat_drop_bit_div)
qed

lemma unat_fold64:
  "unat ((x AND 0xffffffff) + drop_bit 32 x :: u64) = unat x mod 4294967296 + unat x div 4294967296"
proof -
  have "unat x < 18446744073709551616" using unsigned_less [of x] by simp
  then have "unat x div 4294967296 < 4294967296" by simp
  moreover have "unat x mod 4294967296 < 4294967296" by simp
  ultimately have "unat x mod 4294967296 + unat x div 4294967296 < 18446744073709551616" by linarith
  then show ?thesis
    by (subst unat_add_no_wrap) (simp_all add: and_low32 unat_take_bit_mod unat_drop_bit_div)
qed

definition fold16 :: "nat \<Rightarrow> nat" where "fold16 x = x mod 65536 + x div 65536"

lemma oceq_fold16: "oceq (fold16 x) x"
  using oceq_shift16 [of "x div 65536" "x mod 65536"] oceq_sym
  by (simp add: fold16_def add.commute)

lemma fold16_twice: "x < 4294967296 \<Longrightarrow> fold16 (fold16 x) \<le> 65535"
proof -
  assume x: "x < 4294967296"
  have "fold16 x \<le> 65535 + 65535"
    unfolding fold16_def using x by (intro add_mono) auto
  show ?thesis
  proof (cases "fold16 x < 65536")
    case False
    then have "fold16 x mod 65536 = fold16 x - 65536" "fold16 x div 65536 = 1"
      using \<open>fold16 x \<le> _\<close> by (auto simp: le_mod_geq intro: div_nat_eqI)
    then show ?thesis unfolding fold16_def [of "fold16 x"] using \<open>fold16 x \<le> _\<close> by simp
  qed (simp add: fold16_def [of "fold16 x"])
qed

lemma from32to16_oc: "unat (from32to16 x) = oc_norm (unat x)"
proof (rule oceq_norm)
  have lt: "unat x < 4294967296" using unsigned_less [of x] by simp
  have "unat (from32to16 x) = fold16 (fold16 (unat x)) mod 65536"
    by (simp add: from32to16_def Let_def unat_fold32 fold16_def take_bit_eq_mod
      unsigned_ucast_eq)
  then have eq: "unat (from32to16 x) = fold16 (fold16 (unat x))"
    using fold16_twice [OF lt] by simp
  then show "unat (from32to16 x) \<le> 65535" using fold16_twice [OF lt] by simp
  show "oceq (unat (from32to16 x)) (unat x)"
    unfolding eq by (rule oceq_trans [OF oceq_fold16 oceq_fold16])
qed

lemma csum_fold_from32to16: "csum_fold x = NOT (from32to16 x)"
  by (rule bit_word_eqI) (simp add: csum_fold_def from32to16_def Let_def bit_unsigned_iff bit_not_iff)

lemma wrap_carry:
  fixes s x :: u32
  shows "unat (s + x) + (if s + x < x then 1 else 0) < 4294967296 \<and>
    oceq (unat (s + x) + (if s + x < x then 1 else 0)) (unat s + unat x)"
proof -
  have lt: "unat s < 4294967296" "unat x < 4294967296" using unsigned_less [of s] unsigned_less [of x] by auto
  show ?thesis
  proof (cases "unat s + unat x < 4294967296")
    case True
    then have "unat (s + x) = unat s + unat x" by (simp add: unat_add_no_wrap)
    with True show ?thesis by (simp add: word_less_nat_alt)
  next
    case False
    then have eq: "unat (s + x) = unat s + unat x - 4294967296"
      using lt by (simp add: unat_word_ariths le_mod_geq)
    then have "s + x < x" using lt False by (simp add: word_less_nat_alt)
    moreover have "oceq (unat s + unat x) (1 + (unat s + unat x - 4294967296))"
      using oceq_shift32 [of 1 "unat s + unat x - 4294967296"] False by simp
    ultimately show ?thesis using eq lt by (simp add: oceq_sym)
  qed
qed

lemma unat_add_bit: "unat (r :: u32) + (if c then 1 else 0) < 4294967296 \<Longrightarrow>
    unat (r + (if c then 1 else 0)) = unat r + (if c then 1 else 0)"
  using unat_add_no_wrap [of r 1] by (cases c) simp_all

lemma add_carry_oc: "oceq (unat (add_carry s x)) (unat s + unat x)"
  using wrap_carry [of s x] unat_add_bit [of "s + x" "s + x < x"] by (simp add: add_carry_def Let_def)

section \<open>Sums over memory\<close>

definition bytes :: "memory \<Rightarrow> nat \<Rightarrow> nat \<Rightarrow> u8 list" where
  "bytes mem a n = map mem [a..<a + n]"

lemma length_bytes [simp]: "length (bytes mem a n) = n" by (simp add: bytes_def)

lemma bytes_Suc: "bytes mem a (Suc n) = mem a # bytes mem (Suc a) n"
  by (simp add: bytes_def upt_conv_Cons del: upt_Suc)

lemma bytes_0 [simp]: "bytes mem a 0 = []" by (simp add: bytes_def)

lemma bytes_add: "bytes mem a (m + n) = bytes mem a m @ bytes mem (a + m) n"
  using upt_add_eq_append [of a "a + m" n] by (simp add: bytes_def add.assoc)

lemma unat_u8: "unat (x :: u8) < 256" using unsigned_less [of x] by simp

lemma word16_val_lt: "word16_val le a b < 65536"
  using unat_u8 [of a] unat_u8 [of b] by (simp add: word16_val_def)

lemma bytes_2: "bytes mem a 2 = [mem a, mem (a + 1)]"
  and bytes_4: "bytes mem a 4 = [mem a, mem (a + 1), mem (a + 2), mem (a + 3)]"
  by (simp_all add: bytes_def upt_rec numeral_3_eq_3)

lemma unat_load16: "unat (load16 le mem a) = rfc_sum le (bytes mem a 2)"
  using word16_val_lt [of le "mem a" "mem (Suc a)"]
  by (simp add: load16_def bytes_2 unat_of_nat)

lemma oceq_load32: "oceq (unat (load32 le mem a)) (rfc_sum le (bytes mem a 4))"
proof -
  define h0 h1 where "h0 = word16_val le (mem a) (mem (a + 1))" and "h1 = word16_val le (mem (a + 2)) (mem (a + 3))"
  have lt: "h0 < 65536" "h1 < 65536" by (simp_all add: h0_def h1_def word16_val_lt)
  have "rfc_sum le (bytes mem a 4) = h0 + h1"
    by (simp add: bytes_4 h0_def h1_def)
  moreover have "unat (load32 le mem a) = (if le then h0 + 65536 * h1 else 65536 * h0 + h1)"
    using lt unfolding load32_def Let_def h0_def [symmetric] h1_def [symmetric] by (simp add: unat_of_nat)
  ultimately show ?thesis
    using oceq_shift16 [of h1 h0] oceq_shift16 [of h0 h1] by (simp add: add.commute)
qed

lemma rfc_sum_append: "even (length xs) \<Longrightarrow> rfc_sum le (xs @ ys) = rfc_sum le xs + rfc_sum le ys"
  by (induction le xs rule: rfc_sum.induct) auto

lemma rfc_sum_Cons: "rfc_sum le (b # bs) = word16_val le b 0 + rfc_sum (\<not> le) bs"
proof (induction le bs arbitrary: b rule: rfc_sum.induct)
  case (2 le a)
  then show ?case by (simp add: word16_val_def)
next
  case (3 le a b' r)
  show ?case using "3" [of b'] by (cases r) (auto simp: word16_val_def)
qed simp

lemma rfc_sum_swapped: "oceq (256 * rfc_sum le bs) (rfc_sum (\<not> le) bs)"
proof (induction le bs rule: rfc_sum.induct)
  case (2 le a)
  then show ?case using oceq_swap [of "unat a" 0] by (simp add: word16_val_def)
next
  case (3 le a b r)
  have "oceq (256 * word16_val le a b) (word16_val (\<not> le) a b)"
    using oceq_swap [of "unat a" "unat b"] oceq_swap [of "unat b" "unat a"]
    by (simp add: word16_val_def add.commute)
  from oceq_add [OF this 3] show ?case by (simp add: algebra_simps)
qed simp

lemma word_loop_step:
  assumes "unat r + (if c then 1 else 0) < 4294967296"
    and r2_def: "r2 = r + (if c then 1 else 0) + load32 le mem buff"
  shows "unat r2 + (if r2 < load32 le mem buff then 1 else 0) < 4294967296 \<and>
    oceq (unat r2 + (if r2 < load32 le mem buff then 1 else 0))
      (unat r + (if c then 1 else 0) + rfc_sum le (bytes mem buff 4))"
proof -
  let ?r1 = "r + (if c then 1 else 0)"
  have r1: "unat ?r1 = unat r + (if c then 1 else 0)" using assms(1) by (rule unat_add_bit)
  have load: "oceq (unat ?r1 + unat (load32 le mem buff)) (unat ?r1 + rfc_sum le (bytes mem buff 4))"
    by (intro oceq_add oceq_load32) simp
  note wrap = wrap_carry [of ?r1 "load32 le mem buff", folded r2_def]
  have "oceq (unat r2 + (if r2 < load32 le mem buff then 1 else 0)) (unat ?r1 + rfc_sum le (bytes mem buff 4))"
    by (rule oceq_trans [OF conjunct2 [OF wrap] load])
  with wrap show ?thesis unfolding r1 by blast
qed

lemma word_loop_oc:
  assumes "unat r + (if c then 1 else 0) < 4294967296"
    "csum_word_loop le mem buff (buff + 4 * Suc k) r (if c then 1 else 0) = (r', c', b')"
  shows "b' = buff + 4 * Suc k \<and> unat (r' + c') = unat r' + unat c' \<and>
    oceq (unat (r' + c')) (unat r + (if c then 1 else 0) + rfc_sum le (bytes mem buff (4 * Suc k)))"
  using assms
proof (induction k arbitrary: buff r c)
  case 0
  note step = word_loop_step [OF "0.prems"(1) refl, of le mem buff]
  from "0.prems"(2) have "r' = r + (if c then 1 else 0) + load32 le mem buff"
    "c' = (if r' < load32 le mem buff then 1 else 0)" "b' = buff + 4"
    by (auto simp: csum_word_loop.simps Let_def)
  with step show ?case by (auto simp: unat_add_bit)
next
  case (Suc k)
  let ?r2 = "r + (if c then 1 else 0) + load32 le mem buff"
  let ?c2 = "?r2 < load32 le mem buff"
  note step = word_loop_step [OF "Suc.prems"(1) refl, of le mem buff]
  have "csum_word_loop le mem (buff + 4) (buff + 4 + 4 * Suc k) ?r2 (if ?c2 then 1 else 0) = (r', c', b')"
    using Suc.prems(2) by (subst (asm) csum_word_loop.simps) (simp add: Let_def add.assoc)
  note IH = Suc.IH [OF conjunct1 [OF step] this]
  have sum: "rfc_sum le (bytes mem buff (4 * Suc (Suc k))) =
      rfc_sum le (bytes mem buff 4) + rfc_sum le (bytes mem (buff + 4) (4 * Suc k))"
    using bytes_add [of mem buff 4 "4 * Suc k"] by (simp add: rfc_sum_append)
  have "oceq (unat (r' + c')) (unat ?r2 + (if ?c2 then 1 else 0) + rfc_sum le (bytes mem (buff + 4) (4 * Suc k)))"
    using IH by blast
  also have "oceq \<dots> (unat r + (if c then 1 else 0) + rfc_sum le (bytes mem buff 4) +
      rfc_sum le (bytes mem (buff + 4) (4 * Suc k)))"
    by (rule oceq_add [OF conjunct2 [OF step] oceq_refl])
  finally show ?case using IH unfolding sum by (simp add: add.assoc)
qed

lemma int_and_not_3: "(len :: int) AND NOT 3 = 4 * (len div 4)"
proof -
  have "len AND NOT (mask 2) = push_bit 2 (drop_bit 2 len)"
    by (rule bit_eqI) (auto simp: bit_simps not_less dest!: le_Suc_ex)
  then show ?thesis by (simp add: mask_eq_exp_minus_1 push_bit_eq_mult drop_bit_eq_div)
qed

lemma fold16_lt: "x < 4294967296 \<Longrightarrow> fold16 x < 131072"
proof -
  assume "x < 4294967296"
  then have "x div 65536 < 65536" by (simp add: less_mult_imp_div_less)
  moreover have "x mod 65536 < 65536" by simp
  ultimately show ?thesis unfolding fold16_def by linarith
qed

text \<open>The thirty-two bit part of \<^verbatim>\<open>do_csum\<close>.\<close>

lemma csum_quads_oc:
  assumes r: "unat r < 131072" and len: "0 \<le> len"
    and res: "(if 4 \<le> len then
        let (s, c, b) = csum_word_loop le mem buff (buff + nat (len AND NOT 3)) r 0; s' = s + c
        in ((s' AND 0xffff) + drop_bit 16 s', b)
      else (r, buff)) = (r', buff')"
  shows "unat r' < 131072 \<and> buff' = buff + 4 * nat (len div 4) \<and>
    oceq (unat r') (unat r + rfc_sum le (bytes mem buff (4 * nat (len div 4))))"
proof (cases "4 \<le> len")
  case True
  define k where "k = nat (len div 4) - 1"
  have "0 < len div 4" using True by (simp add: pos_imp_zdiv_pos_iff)
  then have k: "nat (len div 4) = Suc k" by (simp add: k_def)
  have bend: "nat (len AND NOT 3) = 4 * Suc k"
    using k True unfolding int_and_not_3 by (simp add: nat_mult_distrib)
  obtain s c b where loop: "csum_word_loop le mem buff (buff + 4 * Suc k) r 0 = (s, c, b)"
    by (cases "csum_word_loop le mem buff (buff + 4 * Suc k) r 0") auto
  then have oc: "b = buff + 4 * Suc k" "oceq (unat (s + c)) (unat r + rfc_sum le (bytes mem buff (4 * Suc k)))"
    using word_loop_oc [of r False le mem buff k s c b] r by auto
  from res loop bend True have r': "r' = ((s + c) AND 0xffff) + drop_bit 16 (s + c)" "buff' = b"
    by (simp_all add: Let_def)
  then have "unat r' = fold16 (unat (s + c))" by (simp add: unat_fold32 fold16_def)
  moreover have "fold16 (unat (s + c)) < 131072"
    by (rule fold16_lt) (use unsigned_less [of "s + c", where 'a = nat] in simp)
  ultimately show ?thesis
    using oc r' k oceq_trans [OF oceq_fold16 oc(2)] by simp
next
  case False
  then show ?thesis using assms by (simp add: div_pos_pos_trivial)
qed

lemma csum_words_oc:
  assumes r: "unat r < 65536" and len: "2 \<le> len"
    and res: "csum_words le mem buff len r = (r', len', buff')"
  shows "bit len' 0 = bit len 0 \<and> buff' = buff + 2 * nat (len div 2) \<and> unat r' < 196608 \<and>
    oceq (unat r') (unat r + rfc_sum le (bytes mem buff (2 * nat (len div 2))))"
proof -
  define p :: nat where "p = (if bit buff 1 then 2 else 0)"
  define r1 where "r1 = (if bit buff 1 then r + load16 le mem buff else r)"
  have lt16: "rfc_sum le (bytes mem a 2) < 65536" for a by (simp add: bytes_2 word16_val_lt)
  have r1: "unat r1 = unat r + rfc_sum le (bytes mem buff p)" "unat r1 < 131072"
    using r lt16 [of buff] by (auto simp: r1_def p_def unat_load16 unat_add_no_wrap)
  define len1 where "len1 = len - int p"
  obtain r2 b2 where r2: "(if 4 \<le> len1 then
        let (s, c, b) = csum_word_loop le mem (buff + p) (buff + p + nat (len1 AND NOT 3)) r1 0; s' = s + c
        in ((s' AND 0xffff) + drop_bit 16 s', b)
      else (r1, buff + p)) = (r2, b2)"
    by (rule prod.exhaust)
  have oc2: "unat r2 < 131072" "b2 = buff + p + 4 * nat (len1 div 4)"
    "oceq (unat r2) (unat r1 + rfc_sum le (bytes mem (buff + p) (4 * nat (len1 div 4))))"
    using csum_quads_oc [OF r1(2) _ r2] len by (auto simp: len1_def p_def)
  define q :: nat where "q = (if bit len1 1 then 2 else 0)"
  have split: "2 * nat (len div 2) = p + 4 * nat (len1 div 4) + q"
  proof -
    have l: "0 \<le> len1" "len div 2 = int p div 2 + len1 div 2"
      using len by (auto simp: len1_def p_def)
    have "bit len1 1 = odd (len1 div 2)" by (simp add: bit_iff_odd)
    moreover have "len1 div 4 = len1 div 2 div 2" by (simp add: zdiv_zmult2_eq [symmetric])
    ultimately have "2 * (len1 div 2) = 4 * (len1 div 4) + int q" by (auto simp: q_def elim!: evenE oddE)
    then have "2 * (len div 2) = int p + 4 * (len1 div 4) + int q" using l by (simp add: p_def)
    then have "int (2 * nat (len div 2)) = int (p + 4 * nat (len1 div 4) + q)" using l(1) len by simp
    then show ?thesis by (rule of_nat_eq_iff [THEN iffD1])
  qed
  have words: "csum_words le mem buff len r =
      (if bit len1 1 then (r2 + load16 le mem b2, len1, b2 + 2) else (r2, len1, b2))"
    using r2 by (auto simp: csum_words_def p_def r1_def len1_def split: if_splits)
  have "unat r' = unat r2 + rfc_sum le (bytes mem b2 q)" "unat r' < 196608" "buff' = b2 + q" "len' = len1"
    using res words oc2(1) lt16 [of b2] by (auto simp: q_def unat_load16 unat_add_no_wrap split: if_splits)
  moreover have "rfc_sum le (bytes mem buff (2 * nat (len div 2))) = rfc_sum le (bytes mem buff p) +
      rfc_sum le (bytes mem (buff + p) (4 * nat (len1 div 4))) + rfc_sum le (bytes mem b2 q)"
    unfolding split oc2(2) by (simp add: bytes_add rfc_sum_append p_def)
  moreover have "bit len1 0 = bit len 0" by (simp add: len1_def p_def bit_0)
  ultimately show ?thesis
    using oceq_add [OF oc2(3) oceq_refl [of "rfc_sum le (bytes mem b2 q)"]] oc2(2) split r1(1)
    by (simp add: add.assoc)
qed

text \<open>The common part: all bytes but a first odd one.\<close>

lemma csum_tail_oc:
  assumes r: "unat r < 65536" and len: "0 \<le> len"
    and res: "(if 2 \<le> len then csum_words le mem buff len r else (r, len, buff)) = (r1, len1, buff1)"
    and res2: "r2 = (if bit len1 0 then r1 + (if le then ucast (mem buff1) else push_bit 8 (ucast (mem buff1))) else r1)"
  shows "oceq (unat r2) (unat r + rfc_sum le (bytes mem buff (nat len)))"
proof -
  have w: "bit len1 0 = bit len 0" "buff1 = buff + 2 * nat (len div 2)" "unat r1 < 196608"
    "oceq (unat r1) (unat r + rfc_sum le (bytes mem buff (2 * nat (len div 2))))"
    using csum_words_oc [OF r, of len le mem buff r1 len1 buff1] res len r
    by (auto split: if_splits simp: div_pos_pos_trivial)
  define t :: nat where "t = (if bit len 0 then 1 else 0)"
  have t: "nat len = 2 * nat (len div 2) + t"
    using len by (auto simp: t_def bit_0 elim!: evenE oddE)
  have byte: "unat (ucast (mem buff1) :: u32) = unat (mem buff1)"
      "unat (push_bit 8 (ucast (mem buff1)) :: u32) = 256 * unat (mem buff1)"
    using unat_u8 [of "mem buff1"]
    by (simp_all add: unsigned_ucast_eq unat_push_bit_mult take_bit_eq_mod)
  have "unat r2 = unat r1 + rfc_sum le (bytes mem buff1 t)"
    using w(1,3) byte unat_u8 [of "mem buff1"]
    by (auto simp: res2 t_def bytes_Suc word16_val_def unat_add_no_wrap)
  moreover have "rfc_sum le (bytes mem buff (nat len)) =
      rfc_sum le (bytes mem buff (2 * nat (len div 2))) + rfc_sum le (bytes mem buff1 t)"
    unfolding t w(2) by (simp add: bytes_add rfc_sum_append)
  ultimately show ?thesis
    using oceq_add [OF w(4) oceq_refl [of "rfc_sum le (bytes mem buff1 t)"]] by (simp add: add.assoc)
qed

lemma swap_bytes_oc:
  assumes "unat (x :: u32) \<le> 65535"
  shows "unat ((drop_bit 8 x AND 0xff) OR push_bit 8 (x AND 0xff)) = unat x div 256 + 256 * (unat x mod 256)"
proof -
  have lt: "unat x div 256 < 256" using assms by simp
  have "(drop_bit 8 x AND 0xff) OR push_bit 8 (x AND 0xff) = (drop_bit 8 x AND 0xff) + push_bit 8 (x AND 0xff)"
    unfolding and_low8 by (rule disjunctive_add [symmetric]) (auto simp: bit_simps)
  moreover have "unat (drop_bit 8 x AND 0xff) = unat x div 256"
    using lt by (simp add: and_low8 unat_take_bit_mod unat_drop_bit_div)
  moreover have "unat (push_bit 8 (x AND 0xff)) = 256 * (unat x mod 256)"
    using pos_mod_bound [of 256 "int (unat x)"] by (simp add: and_low8 unat_take_bit_mod unat_push_bit_mult)
  moreover have "256 * (unat x mod 256) \<le> 256 * 255" by simp
  ultimately show ?thesis using lt by (simp add: unat_add_no_wrap)
qed

lemma do_csum_oc: "unat (do_csum le mem buff len) = oc_norm (rfc_sum le (bytes mem buff (nat len)))"
proof (cases "len \<le> 0")
  case False
  define h :: nat where "h = (if bit buff 0 then 1 else 0)"
  define r0 :: u32 where "r0 = (if bit buff 0 then if le then push_bit 8 (ucast (mem buff)) else ucast (mem buff) else 0)"
  obtain r1 len1 buff1 where w: "(if 2 \<le> len - int h then csum_words le mem (buff + h) (len - int h) r0
      else (r0, len - int h, buff + h)) = (r1, len1, buff1)"
    by (rule prod_cases3)
  define r2 where "r2 = (if bit len1 0 then r1 + (if le then ucast (mem buff1) else push_bit 8 (ucast (mem buff1))) else r1)"
  define r3 :: u32 where "r3 = ucast (from32to16 r2)"
  have res: "do_csum le mem buff len =
      (if bit buff 0 then (drop_bit 8 r3 AND 0xff) OR push_bit 8 (r3 AND 0xff) else r3)"
  proof -
    have "do_csum le mem buff len =
      (let (result1, len1, buff1) =
              (if 2 \<le> len - int h then csum_words le mem (buff + h) (len - int h) r0
               else (r0, len - int h, buff + h));
            result2 =
              (if bit len1 0 then result1 + (if le then ucast (mem buff1) else push_bit 8 (ucast (mem buff1)))
               else result1);
            result3 = (ucast (from32to16 result2) :: u32)
        in if bit buff 0 then (drop_bit 8 result3 AND 0xff) OR push_bit 8 (result3 AND 0xff) else result3)"
      using False by (cases "bit buff 0") (simp_all add: do_csum_def h_def r0_def)
    then show ?thesis unfolding w by (simp only: Let_def prod.case r3_def r2_def)
  qed
  have "unat r0 = rfc_sum (\<not> le) (bytes mem buff h)" "unat r0 < 65536"
    using unat_u8 [of "mem buff"]
    by (auto simp: r0_def h_def bytes_Suc word16_val_def unat_push_bit_mult unsigned_ucast_eq take_bit_eq_mod)
  note r0 = this
  have oc2: "oceq (unat r2) (unat r0 + rfc_sum le (bytes mem (buff + h) (nat (len - int h))))"
    using csum_tail_oc [OF r0(2) _ w r2_def] False by (auto simp: h_def)
  have r3: "unat r3 = oc_norm (unat r2)"
    using unsigned_less [of "from32to16 r2", where 'a = nat]
    by (simp add: r3_def unsigned_ucast_eq take_bit_eq_mod from32to16_oc [symmetric])
  have r3_le: "unat r3 \<le> 65535" and oc3: "oceq (unat r3) (unat r2)"
    unfolding r3 by (simp_all add: oc_norm_le oceq_oc_norm)
  show ?thesis
  proof (cases "bit buff 0")
    case True
    then have len: "nat len = Suc (nat (len - int h))" "h = 1" using False by (auto simp: h_def)
    let ?tail = "bytes mem (Suc buff) (nat (len - 1))"
    have sw: "unat (do_csum le mem buff len) = unat r3 div 256 + 256 * (unat r3 mod 256)"
      using res True swap_bytes_oc [OF r3_le] by simp
    have le: "unat (do_csum le mem buff len) \<le> 65535" unfolding sw using r3_le by auto
    have "oceq (unat (do_csum le mem buff len)) (256 * unat r3)"
      unfolding sw using oceq_swap [of "unat r3 div 256" "unat r3 mod 256"] by (simp add: oceq_sym)
    also have "oceq \<dots> (256 * (unat r0 + rfc_sum le ?tail))"
      using oceq_trans [OF oc3 oc2] len(2) by (intro oceq_mult) auto
    also have "oceq \<dots> (rfc_sum le (bytes mem buff (nat len)))"
      using oceq_add [OF rfc_sum_swapped [of "\<not> le" "[mem buff]"] rfc_sum_swapped [of le ?tail]]
        r0(1) len
      by (simp add: bytes_Suc rfc_sum_Cons [of le "mem buff"] algebra_simps)
    finally show ?thesis using le by (rule oceq_norm)
  next
    case False
    then have "oceq (unat r3) (rfc_sum le (bytes mem buff (nat len)))"
      using oceq_trans [OF oc3 oc2] by (simp add: h_def r0_def)
    then show ?thesis using False res r3_le by (simp add: oceq_norm)
  qed
qed (simp add: do_csum_def oc_norm_def)

lemma csum_partial_oc:
  "oceq (unat (csum_partial le mem buff len wsum)) (rfc_sum le (bytes mem buff (nat len)) + unat wsum)"
proof -
  have "csum_partial le mem buff len wsum = add_carry (do_csum le mem buff len) wsum"
    by (simp add: csum_partial_def add_carry_def Let_def)
  moreover have "oceq (unat (do_csum le mem buff len) + unat wsum) (rfc_sum le (bytes mem buff (nat len)) + unat wsum)"
    unfolding do_csum_oc by (intro oceq_add oceq_oc_norm oceq_refl)
  ultimately show ?thesis by (simp add: oceq_trans [OF add_carry_oc])
qed

lemma unat_not16: "unat (NOT (w :: u16)) = 65535 - unat w"
proof -
  have "NOT w = -1 - w" by (simp add: not_eq_complement)
  moreover have "unat (-1 - w) = unat (-1 :: u16) - unat w" by (rule unat_sub) (rule word_order.extremum)
  ultimately show ?thesis by (simp add: unsigned_minus_1_eq_mask mask_eq_exp_minus_1)
qed

lemma csum_fold_oc: "unat (csum_fold x) = 65535 - oc_norm (unat x)"
  by (simp add: csum_fold_from32to16 unat_not16 from32to16_oc)

lemma ip_fast_csum_oc:
  "unat (ip_fast_csum le mem iph ihl) = 65535 - oc_norm (rfc_sum le (bytes mem iph (nat (sint (push_bit 2 ihl)))))"
proof -
  let ?d = "do_csum le mem iph (sint (push_bit 2 ihl))"
  have "ip_fast_csum le mem iph ihl = NOT (ucast ?d)"
    by (rule bit_word_eqI) (simp add: ip_fast_csum_def bit_simps)
  moreover have "unat (ucast ?d :: u16) = unat ?d"
    using oc_norm_le [of "rfc_sum le (bytes mem iph (nat (sint (push_bit 2 ihl))))"]
    by (simp add: unsigned_ucast_eq take_bit_eq_mod do_csum_oc)
  ultimately show ?thesis by (simp add: unat_not16 do_csum_oc)
qed

lemma fold32_lt:
  assumes "y < 4294967300"
  shows "y mod 4294967296 + y div 4294967296 < (4294967296 :: nat)"
proof (cases "y < 4294967296")
  case False
  then have "y div 4294967296 = 1" "y mod 4294967296 = y - 4294967296"
    using assms by (auto simp: le_mod_geq intro: div_nat_eqI)
  then show ?thesis using assms by simp
qed simp

lemma from64to32_oc:
  assumes "unat x < 17179869184"
  shows "oceq (unat (from64to32 x)) (unat x)"
proof -
  let ?f = "\<lambda>n::nat. n mod 4294967296 + n div 4294967296"
  have f: "oceq (?f n) n" for n
    using oceq_shift32 [of "n div 4294967296" "n mod 4294967296"] by (simp add: oceq_sym add.commute)
  have "unat x div 4294967296 < 4" using assms by (simp add: less_mult_imp_div_less)
  moreover have "unat x mod 4294967296 < 4294967296" by simp
  ultimately have b1: "?f (unat x) < 4294967300" by linarith
  have "?f (?f (unat x)) < 4294967296" using b1 by (rule fold32_lt)
  moreover have "unat (from64to32 x) = ?f (?f (unat x)) mod 4294967296"
    by (simp add: from64to32_def Let_def unsigned_ucast_eq unat_fold64 take_bit_eq_mod)
  ultimately have "unat (from64to32 x) = ?f (?f (unat x))" by simp
  then show ?thesis using oceq_trans [OF f f] by simp
qed

definition be16 :: "nat \<Rightarrow> u8 list" where
  "be16 n = [of_nat (n div 256), of_nat n]"

lemma rfc_be16_proto:
  assumes "p < 256" "n < 65536"
  shows "oceq (if le then 256 * (p + n) else p + n) (rfc_sum le (0 # of_nat p # be16 n))"
proof -
  have "unat (of_nat (n div 256) :: u8) = n div 256" "unat (of_nat n :: u8) = n mod 256" "unat (of_nat p :: u8) = p"
    using assms by (simp_all add: unat_of_nat less_mult_imp_div_less)
  then have "rfc_sum le (0 # of_nat p # be16 n) = (if le then 256 * p + (n div 256 + 256 * (n mod 256)) else p + (256 * (n div 256) + n mod 256))"
    by (simp add: be16_def word16_val_def)
  moreover have "oceq (256 * (p + n)) (256 * p + (n div 256 + 256 * (n mod 256)))"
    using oceq_add [OF oceq_refl [of "256 * p"] oceq_swap [of "n div 256" "n mod 256"]] by (simp add: algebra_simps)
  ultimately show ?thesis by simp
qed

lemma csum_tcpudp_nofold_oc:
  assumes "unat proto < 256"
  shows "oceq (unat (csum_tcpudp_nofold le saddr daddr len proto wsum))
    (unat saddr + unat daddr + rfc_sum le (0 # of_nat (unat proto) # be16 (unat len)) + unat wsum)"
proof -
  have b: "unat saddr < 4294967296" "unat daddr < 4294967296" "unat wsum < 4294967296" "unat len < 65536"
    using unsigned_less [of saddr, where 'a = nat] unsigned_less [of daddr, where 'a = nat]
      unsigned_less [of wsum, where 'a = nat] unsigned_less [of len, where 'a = nat] by simp_all
  define pl where "pl = (if le then 256 * (unat proto + unat len) else unat proto + unat len)"
  define s :: u64 where "s = ucast wsum + ucast saddr + ucast daddr +
              (if \<not> le then ucast proto + ucast len else push_bit 8 (ucast proto + ucast len))"
  have plw: "unat (if \<not> le then ucast proto + ucast len else push_bit 8 (ucast proto + ucast len) :: u64) = pl"
    using assms b by (simp add: pl_def unat_push_bit_mult unat_add_no_wrap unsigned_ucast_eq take_bit_eq_mod)
  have s: "unat s = unat wsum + unat saddr + unat daddr + pl" "pl < 4294967296"
    using assms b plw unfolding s_def pl_def
    by (simp_all add: unat_add_no_wrap unsigned_ucast_eq take_bit_eq_mod)
  then have "oceq (unat (from64to32 s)) (unat s)" using b by (intro from64to32_oc) simp
  also have "oceq (unat s) (unat wsum + unat saddr + unat daddr + rfc_sum le (0 # of_nat (unat proto) # be16 (unat len)))"
    unfolding s(1) pl_def using assms b by (intro oceq_add rfc_be16_proto oceq_refl) simp_all
  finally show ?thesis by (simp add: csum_tcpudp_nofold_def s_def Let_def algebra_simps)
qed

definition be32 :: "nat \<Rightarrow> u8 list" where
  "be32 n = [of_nat (n div 16777216), of_nat (n div 65536), of_nat (n div 256), of_nat n]"


lemma htobe32_le:
  "htobe32 True x = push_bit 24 (take_bit 8 x) + (push_bit 16 (take_bit 8 (drop_bit 8 x)) +
     (push_bit 8 (take_bit 8 (drop_bit 16 x)) + drop_bit 24 x))"
proof -
  have masks: "(0xff :: u32) = mask 8" "(0xff00 :: u32) = push_bit 8 (mask 8)" "(0xff0000 :: u32) = push_bit 16 (mask 8)"
    by (simp_all add: mask_eq_exp_minus_1)
  have "push_bit 8 (take_bit 8 (drop_bit 16 x)) + drop_bit 24 x =
      push_bit 8 (take_bit 8 (drop_bit 16 x)) OR drop_bit 24 x"
    by (rule disjunctive_add) (auto simp: bit_simps dest: bit_imp_le_length)
  moreover have "push_bit 16 (take_bit 8 (drop_bit 8 x)) + (push_bit 8 (take_bit 8 (drop_bit 16 x)) OR drop_bit 24 x) =
      push_bit 16 (take_bit 8 (drop_bit 8 x)) OR (push_bit 8 (take_bit 8 (drop_bit 16 x)) OR drop_bit 24 x)"
    by (rule disjunctive_add) (auto simp: bit_simps dest: bit_imp_le_length)
  moreover have "push_bit 24 (take_bit 8 x) + (push_bit 16 (take_bit 8 (drop_bit 8 x)) OR
        (push_bit 8 (take_bit 8 (drop_bit 16 x)) OR drop_bit 24 x)) =
      push_bit 24 (take_bit 8 x) OR (push_bit 16 (take_bit 8 (drop_bit 8 x)) OR
        (push_bit 8 (take_bit 8 (drop_bit 16 x)) OR drop_bit 24 x))"
    by (rule disjunctive_add) (auto simp: bit_simps dest: bit_imp_le_length)
  moreover have "htobe32 True x = push_bit 24 (take_bit 8 x) OR (push_bit 16 (take_bit 8 (drop_bit 8 x)) OR
        (push_bit 8 (take_bit 8 (drop_bit 16 x)) OR drop_bit 24 x))"
    unfolding htobe32_def masks by (rule bit_word_eqI) (auto simp: bit_simps)
  ultimately show ?thesis by simp
qed

lemma rfc_be32: "oceq (unat (htobe32 le x)) (rfc_sum le (be32 (unat x)))"
proof -
  let ?n = "unat x"
  define b0 b1 b2 b3 where "b0 = ?n div 16777216" and "b1 = ?n div 65536 mod 256"
    and "b2 = ?n div 256 mod 256" and "b3 = ?n mod 256"
  have n: "?n < 4294967296" using unsigned_less [of x, where 'a = nat] by simp
  have lt: "b0 < 256" "b1 < 256" "b2 < 256" "b3 < 256"
    using n by (simp_all add: b0_def b1_def b2_def b3_def less_mult_imp_div_less)
  have sum: "rfc_sum le (be32 ?n) = (if le then b0 + 256 * b1 + (b2 + 256 * b3) else 256 * b0 + b1 + (256 * b2 + b3))"
    using lt(1) by (simp add: be32_def word16_val_def unat_of_nat unsigned_ucast_eq take_bit_eq_mod b0_def b1_def b2_def b3_def)
  show ?thesis
  proof (cases le)
    case True
    have "unat (htobe32 True x) = 16777216 * b3 + (65536 * b2 + (256 * b1 + b0))"
      using lt unfolding htobe32_le
      by (simp add: unat_add_no_wrap unat_push_bit_mult unat_take_bit_mod unat_drop_bit_div b0_def b1_def b2_def b3_def)
    then show ?thesis
      using True sum oceq_shift16 [of "256 * b3 + b2" "256 * b1 + b0"] by (simp add: algebra_simps)
  next
    case False
    have d: "?n div 256 div 256 = ?n div 65536" "?n div 65536 div 256 = ?n div 16777216"
      by (simp_all add: div_mult2_eq [symmetric])
    have digits: "256 * a + d3 = n \<Longrightarrow> 256 * c + d2 = a \<Longrightarrow> 256 * d0 + d1 = c \<Longrightarrow>
        n = 65536 * (256 * d0 + d1) + (256 * d2 + d3)" for a c n d0 d1 d2 d3 :: nat by simp
    have "?n = 65536 * (256 * b0 + b1) + (256 * b2 + b3)"
      unfolding b0_def b1_def b2_def b3_def
      by (rule digits [OF mult_div_mod_eq [of 256 ?n] mult_div_mod_eq [of 256 "?n div 256", unfolded d]
            mult_div_mod_eq [of 256 "?n div 65536", unfolded d]])
    then show ?thesis
      using False sum oceq_shift16 [of "256 * b0 + b1" "256 * b2 + b3"] by (simp add: htobe32_def)
  qed
qed

section \<open>Filled headers\<close>

lemma store16_other: "x \<noteq> a \<Longrightarrow> x \<noteq> a + 1 \<Longrightarrow> store16 le mem a v x = mem x"
  by (simp add: store16_def Let_def)

lemma store16_store16 [simp]: "store16 le (store16 le mem a u) a v = store16 le mem a v"
  by (auto simp: store16_def Let_def fun_eq_iff)

lemma bytes_store16_other:
  "n \<le> a - p \<or> a + 2 \<le> p \<Longrightarrow> bytes (store16 le mem a v) p n = bytes mem p n"
  unfolding bytes_def by (intro map_cong refl store16_other) auto

lemma rfc_store16_field: "rfc_sum le (bytes (store16 le mem a v) a 2) = unat v"
proof -
  have "unat (ucast v :: u8) = unat v mod 256" "unat (ucast (drop_bit 8 v) :: u8) = unat v div 256"
    using unsigned_less [of v, where 'a = nat]
    by (simp_all add: unsigned_ucast_eq take_bit_eq_mod unat_drop_bit_div less_mult_imp_div_less)
  then show ?thesis by (simp add: bytes_2 store16_def Let_def word16_val_def)
qed

lemma rfc_store16:
  assumes "even f" "f + 2 \<le> n"
  shows "rfc_sum le (bytes (store16 le mem (a + f) v) a n) =
    rfc_sum le (bytes (store16 le mem (a + f) 0) a n) + unat v"
proof -
  have "n = f + (2 + (n - f - 2))" using assms by simp
  then have n: "bytes m a n = bytes m a f @ bytes m (a + f) 2 @ bytes m (a + f + 2) (n - f - 2)" for m
    by (metis bytes_add)
  have "rfc_sum le (bytes (store16 le mem (a + f) w) a n) = rfc_sum le (bytes mem a f) + unat w +
      rfc_sum le (bytes mem (a + f + 2) (n - f - 2))" for w
    using assms unfolding n by (simp add: rfc_sum_append rfc_store16_field bytes_store16_other)
  then show ?thesis by simp
qed

text \<open>A checksum that complements the normalised rest of the sum makes the whole sum all ones.\<close>

lemma oc_complement: "oceq r s \<Longrightarrow> oc_norm (s + (65535 - oc_norm r)) = 65535"
proof -
  assume "oceq r s"
  then have "oceq s (oc_norm r)" using oceq_trans [OF oceq_oc_norm] oceq_sym by blast
  then have "oceq (s + (65535 - oc_norm r)) 65535"
    using oceq_add [OF _ oceq_refl [of "65535 - oc_norm r"]] oc_norm_le [of r] by fastforce
  then show ?thesis using oceq_norm oceq_sym by (metis order_refl)
qed

definition pseudo_header4 :: "memory \<Rightarrow> nat \<Rightarrow> nat \<Rightarrow> u8 list" where
  "pseudo_header4 mem iph l4len = bytes mem (iph + 12) 4 @ bytes mem (iph + 16) 4 @ [0, 6] @ be16 l4len"

definition pseudo_header6 :: "memory \<Rightarrow> nat \<Rightarrow> nat \<Rightarrow> u8 list" where
  "pseudo_header6 mem iph l4len = bytes mem (iph + 8) 16 @ bytes mem (iph + 24) 16 @ be32 l4len @ [0, 0, 0, 6]"

lemma tcp4_sum_oc:
  assumes "0 \<le> l4len" "l4len < 65536"
  shows "oceq (unat (csum_tcpudp_nofold le (load32 le mem (iph + 12)) (load32 le mem (iph + 16))
      (word_of_int l4len) 6 (csum_partial le mem th l4len 0)))
    (rfc_sum le (pseudo_header4 mem iph (nat l4len) @ bytes mem th (nat l4len)))"
proof -
  have len: "unat (word_of_int l4len :: u16) = nat l4len"
    using assms by (simp add: unsigned_of_int take_bit_eq_mod)
  have eq: "rfc_sum le (pseudo_header4 mem iph (nat l4len) @ bytes mem th (nat l4len)) =
      rfc_sum le (bytes mem (iph + 12) 4) + rfc_sum le (bytes mem (iph + 16) 4) + rfc_sum le (0 # 6 # be16 (nat l4len)) +
      (rfc_sum le (bytes mem th (nat l4len)) + 0)"
    by (simp add: pseudo_header4_def rfc_sum_append be16_def)
  show ?thesis
    unfolding eq
    by (rule oceq_trans [OF csum_tcpudp_nofold_oc])
      (use len oceq_load32 csum_partial_oc [of le mem th l4len 0] in \<open>auto intro!: oceq_add\<close>)
qed

lemma csum_ipv6_magic_oc:
  "\<exists>x. csum_ipv6_magic le mem saddr daddr len proto csum = csum_fold x \<and>
     oceq (unat x) (rfc_sum le (bytes mem saddr 16) + rfc_sum le (bytes mem daddr 16) +
       rfc_sum le (be32 (unat len)) + rfc_sum le (be32 (unat proto)) + unat csum)"
proof -
  have step: "oceq (unat s) t \<Longrightarrow> oceq (unat x) y \<Longrightarrow> oceq (unat (add_carry s x)) (t + y)" for s x t y
    by (rule oceq_trans [OF add_carry_oc oceq_add])
  have b16: "rfc_sum le (bytes mem a 16) = rfc_sum le (bytes mem a 4) + rfc_sum le (bytes mem (a + 4) 4) +
      rfc_sum le (bytes mem (a + 8) 4) + rfc_sum le (bytes mem (a + 12) 4)" for a
    using bytes_add [of mem a 4 12] bytes_add [of mem "a + 4" 4 8] bytes_add [of mem "a + 8" 4 4]
    by (simp add: rfc_sum_append add.commute)
  have up: "unat (ucast proto :: u32) = unat proto"
    using unsigned_less [of proto, where 'a = nat] by (simp add: unsigned_ucast_eq take_bit_eq_mod)
  show ?thesis
    unfolding csum_ipv6_magic_def Let_def b16
    by (rule exI, rule conjI, rule refl, rule oceq_rhs, (rule step oceq_load32 rfc_be32 oceq_refl)+)
      (simp add: up algebra_simps)
qed

lemma tcp6_sum_oc:
  assumes "0 \<le> l4len" "l4len \<le> int_max"
  shows "\<exists>x. csum_ipv6_magic le mem (iph + 8) (iph + 24) (word_of_int l4len) 6 (csum_partial le mem th l4len 0) =
      csum_fold x \<and>
    oceq (unat x) (rfc_sum le (pseudo_header6 mem iph (nat l4len) @ bytes mem th (nat l4len)))"
proof -
  obtain x where x: "csum_ipv6_magic le mem (iph + 8) (iph + 24) (word_of_int l4len) 6 (csum_partial le mem th l4len 0) =
      csum_fold x"
    "oceq (unat x) (rfc_sum le (bytes mem (iph + 8) 16) + rfc_sum le (bytes mem (iph + 24) 16) +
       rfc_sum le (be32 (unat (word_of_int l4len :: u32))) + rfc_sum le (be32 (unat (6 :: u16))) +
       unat (csum_partial le mem th l4len 0))"
    using csum_ipv6_magic_oc by metis
  have len: "unat (word_of_int l4len :: u32) = nat l4len"
    using assms by (simp add: unsigned_of_int take_bit_eq_mod)
  have "rfc_sum le (pseudo_header6 mem iph (nat l4len) @ bytes mem th (nat l4len)) =
      rfc_sum le (bytes mem (iph + 8) 16) + rfc_sum le (bytes mem (iph + 24) 16) +
       rfc_sum le (be32 (nat l4len)) + rfc_sum le (be32 6) + (rfc_sum le (bytes mem th (nat l4len)) + unat (0 :: u32))"
    by (simp add: pseudo_header6_def rfc_sum_append be32_def)
  moreover have "oceq (rfc_sum le (bytes mem (iph + 8) 16) + rfc_sum le (bytes mem (iph + 24) 16) +
       rfc_sum le (be32 (nat l4len)) + rfc_sum le (be32 6) + unat (csum_partial le mem th l4len 0)) \<dots>"
    by (rule oceq_add [OF oceq_refl csum_partial_oc])
  ultimately show ?thesis using x oceq_trans [OF x(2)] len by auto
qed

section \<open>Properties of the checksums\<close>

text \<open>C2. The optimised routine computes the RFC 1071 sum: for every byte order, buffer address
  (odd, even or word aligned) and length, \<open>do_csum\<close> is the end-around-carry normal form of
  the sum of the buffer's sixteen bit words.\<close>

theorem do_csum_is_rfc1071:
  "unat (do_csum le mem buff len) = oc_norm (rfc_sum le (bytes mem buff (nat len)))"
  by (rule do_csum_oc)

text \<open>Partial sums compose: summing an even first part and feeding the result into the sum of
  the rest gives, folded, the checksum of the whole buffer.\<close>

theorem csum_partial_composes:
  assumes "0 \<le> m" "even m" "0 \<le> n"
  shows "unat (csum_fold (csum_partial le mem (buff + nat m) n (csum_partial le mem buff m 0))) =
    65535 - oc_norm (rfc_sum le (bytes mem buff (nat (m + n))))"
proof -
  have even: "even (nat m)" using assms by (simp add: even_nat_iff)
  have "oceq (unat (csum_partial le mem (buff + nat m) n (csum_partial le mem buff m 0)))
      (rfc_sum le (bytes mem (buff + nat m) (nat n)) + (rfc_sum le (bytes mem buff (nat m)) + unat (0 :: u32)))"
    by (rule oceq_trans [OF csum_partial_oc oceq_add [OF oceq_refl csum_partial_oc]])
  then have "oceq (oc_norm (unat (csum_partial le mem (buff + nat m) n (csum_partial le mem buff m 0))))
      (rfc_sum le (bytes mem buff (nat (m + n))))"
    using oceq_trans [OF oceq_oc_norm] assms even
    by (simp add: nat_add_distrib bytes_add rfc_sum_append add.commute)
  from oceq_norm [OF this oc_norm_le] show ?thesis by (simp add: csum_fold_oc)
qed

theorem csum_partial_composes_witness:
  "unat (csum_fold (csum_partial True (\<lambda>a. of_nat a) (0 + nat 2) 3 (csum_partial True (\<lambda>a. of_nat a) 0 2 0))) =
    65535 - oc_norm (rfc_sum True (bytes (\<lambda>a. of_nat a) 0 (nat (2 + 3))))"
  by (rule csum_partial_composes) simp_all

text \<open>C3. After \<open>neb_sock_csum_tcp4_fill\<close> the sum over the RFC 793 pseudo header and the
  segment is all ones, so a receiver accepts it; only the two bytes of the checksum field change.\<close>

theorem tcp4_fill_verifies:
  assumes "18 \<le> l4len" "l4len < 65536" "iph + 20 \<le> th"
  shows "oc_norm (rfc_sum le (pseudo_header4 (neb_sock_csum_tcp4_fill le mem iph th l4len) iph (nat l4len) @
      bytes (neb_sock_csum_tcp4_fill le mem iph th l4len) th (nat l4len))) = 65535 \<and>
    (\<forall>a. a \<noteq> th + 16 \<and> a \<noteq> th + 17 \<longrightarrow> neb_sock_csum_tcp4_fill le mem iph th l4len a = mem a)"
proof -
  define m1 where "m1 = store16 le mem (th + 16) 0"
  define x where "x = csum_tcpudp_nofold le (load32 le m1 (iph + 12)) (load32 le m1 (iph + 16))
      (word_of_int l4len) 6 (csum_partial le m1 th l4len 0)"
  have m2: "neb_sock_csum_tcp4_fill le mem iph th l4len = store16 le mem (th + 16) (csum_fold x)"
    by (simp add: neb_sock_csum_tcp4_fill_def Let_def m1_def x_def csum_tcpudp_magic_def)
  have x: "oceq (unat x) (rfc_sum le (pseudo_header4 m1 iph (nat l4len) @ bytes m1 th (nat l4len)))"
    unfolding x_def using assms by (intro tcp4_sum_oc) auto
  have pseudo: "pseudo_header4 (store16 le mem (th + 16) v) iph (nat l4len) = pseudo_header4 mem iph (nat l4len)" for v
    using assms by (simp add: pseudo_header4_def bytes_store16_other)
  have "rfc_sum le (pseudo_header4 mem iph (nat l4len) @ bytes (store16 le mem (th + 16) (csum_fold x)) th (nat l4len)) =
      rfc_sum le (pseudo_header4 m1 iph (nat l4len) @ bytes m1 th (nat l4len)) + (65535 - oc_norm (unat x))"
    using assms rfc_store16 [of 16 "nat l4len" le mem th "csum_fold x"] pseudo [of 0]
    by (simp add: rfc_sum_append m1_def csum_fold_oc pseudo_header4_def be16_def nat_le_iff le_nat_iff)
  then show ?thesis
    unfolding m2 pseudo using oc_complement [OF x] by (simp add: store16_other)
qed

theorem tcp4_fill_verifies_witness:
  "oc_norm (rfc_sum True (pseudo_header4 (neb_sock_csum_tcp4_fill True (\<lambda>a. of_nat a) 0 20 20) 0 (nat 20) @
      bytes (neb_sock_csum_tcp4_fill True (\<lambda>a. of_nat a) 0 20 20) 20 (nat 20))) = 65535 \<and>
    neb_sock_csum_tcp4_fill True (\<lambda>a. of_nat a) 0 20 20 38 = 38"
  using tcp4_fill_verifies [of 20 0 20 True "\<lambda>a. of_nat a"] by simp

text \<open>C15. The same for TCP over IPv6 with the RFC 8200 pseudo header.\<close>

theorem tcp6_fill_verifies:
  assumes "18 \<le> l4len" "l4len \<le> int_max" "iph + 40 \<le> th"
  shows "oc_norm (rfc_sum le (pseudo_header6 (neb_sock_csum_tcp6_fill le mem iph th l4len) iph (nat l4len) @
      bytes (neb_sock_csum_tcp6_fill le mem iph th l4len) th (nat l4len))) = 65535 \<and>
    (\<forall>a. a \<noteq> th + 16 \<and> a \<noteq> th + 17 \<longrightarrow> neb_sock_csum_tcp6_fill le mem iph th l4len a = mem a)"
proof -
  define m1 where "m1 = store16 le mem (th + 16) 0"
  obtain x where magic: "csum_ipv6_magic le m1 (iph + 8) (iph + 24) (word_of_int l4len) 6 (csum_partial le m1 th l4len 0) =
      csum_fold x"
    and x: "oceq (unat x) (rfc_sum le (pseudo_header6 m1 iph (nat l4len) @ bytes m1 th (nat l4len)))"
    using tcp6_sum_oc [of l4len le m1 iph th] assms by auto
  have m2: "neb_sock_csum_tcp6_fill le mem iph th l4len = store16 le mem (th + 16) (csum_fold x)"
    unfolding neb_sock_csum_tcp6_fill_def Let_def m1_def [symmetric] magic by (simp add: m1_def)
  have pseudo: "pseudo_header6 (store16 le mem (th + 16) v) iph (nat l4len) = pseudo_header6 mem iph (nat l4len)" for v
    using assms by (simp add: pseudo_header6_def bytes_store16_other)
  have "rfc_sum le (pseudo_header6 mem iph (nat l4len) @ bytes (store16 le mem (th + 16) (csum_fold x)) th (nat l4len)) =
      rfc_sum le (pseudo_header6 m1 iph (nat l4len) @ bytes m1 th (nat l4len)) + (65535 - oc_norm (unat x))"
    using assms rfc_store16 [of 16 "nat l4len" le mem th "csum_fold x"] pseudo [of 0]
    by (simp add: rfc_sum_append m1_def csum_fold_oc pseudo_header6_def be32_def nat_le_iff le_nat_iff)
  then show ?thesis
    unfolding m2 pseudo using oc_complement [OF x] by (simp add: store16_other)
qed

theorem tcp6_fill_verifies_witness:
  "oc_norm (rfc_sum False (pseudo_header6 (neb_sock_csum_tcp6_fill False (\<lambda>a. of_nat a) 0 40 20) 0 (nat 20) @
      bytes (neb_sock_csum_tcp6_fill False (\<lambda>a. of_nat a) 0 40 20) 40 (nat 20))) = 65535 \<and>
    neb_sock_csum_tcp6_fill False (\<lambda>a. of_nat a) 0 40 20 58 = 58"
  using tcp6_fill_verifies [of 20 0 40 False "\<lambda>a. of_nat a"] by simp

text \<open>A filled ICMP message and a filled IPv4 header (of at least the three words that hold
  the field) sum to all ones.\<close>

theorem icmp4_ip4_fill_verify:
  assumes "4 \<le> l4len" "3 \<le> unat (mem iph AND 0xf)"
  shows "oc_norm (rfc_sum le (bytes (neb_sock_csum_icmp4_fill le mem ic l4len) ic (nat l4len))) = 65535 \<and>
    oc_norm (rfc_sum le (bytes (neb_sock_csum_ip4_fill le mem iph) iph (4 * unat (mem iph AND 0xf)))) = 65535"
proof
  define m1 where "m1 = store16 le mem (ic + 2) 0"
  have "neb_sock_csum_icmp4_fill le mem ic l4len = store16 le mem (ic + 2) (csum_fold (csum_partial le m1 ic l4len 0))"
    by (simp add: neb_sock_csum_icmp4_fill_def Let_def m1_def)
  then show "oc_norm (rfc_sum le (bytes (neb_sock_csum_icmp4_fill le mem ic l4len) ic (nat l4len))) = 65535"
    using rfc_store16 [of 2 "nat l4len" le mem ic "csum_fold (csum_partial le m1 ic l4len 0)"] assms oc_complement [OF csum_partial_oc [of le m1 ic l4len 0]]
    by (simp add: csum_fold_oc m1_def nat_le_iff le_nat_iff)
next
  define m1 where "m1 = store16 le mem (iph + 10) 0"
  define hl where "hl = unat (mem iph AND 0xf)"
  have hl: "3 \<le> hl" "hl < 16"
    using assms unat_take_bit_mod [of 4 "mem iph"] by (simp_all add: hl_def and_low4)
  have "m1 iph = mem iph" by (simp add: m1_def store16_other)
  then have ihl: "unat (ucast (m1 iph AND 0xf) :: u32) = hl"
    unfolding hl_def by (simp only: unsigned_ucast_eq take_bit_nat_def) (use hl in \<open>simp add: hl_def\<close>)
  then have "uint (push_bit 2 (ucast (m1 iph AND 0xf)) :: u32) = 4 * int hl"
    using hl by (simp add: uint_nat unat_push_bit_mult del: of_nat_unat)
  then have "nat (sint (push_bit 2 (ucast (m1 iph AND 0xf)) :: u32)) = 4 * hl"
    using hl by (simp add: sint_uint signed_take_bit_eq_if_positive bit_iff_odd take_bit_eq_mod)
  then have "unat (ip_fast_csum le m1 iph (ucast (m1 iph AND 0xf))) = 65535 - oc_norm (rfc_sum le (bytes m1 iph (4 * hl)))"
    by (simp add: ip_fast_csum_oc)
  moreover have "neb_sock_csum_ip4_fill le mem iph = store16 le mem (iph + 10) (ip_fast_csum le m1 iph (ucast (m1 iph AND 0xf)))"
    by (simp add: neb_sock_csum_ip4_fill_def Let_def m1_def)
  ultimately show "oc_norm (rfc_sum le (bytes (neb_sock_csum_ip4_fill le mem iph) iph (4 * unat (mem iph AND 0xf)))) = 65535"
    using rfc_store16 [of 10 "4 * hl" le mem iph "ip_fast_csum le m1 iph (ucast (m1 iph AND 0xf))"] hl oc_complement [OF oceq_refl [of "rfc_sum le (bytes m1 iph (4 * hl))"]]
    by (simp add: hl_def [symmetric] m1_def)
qed

theorem icmp4_ip4_fill_verify_witness:
  "oc_norm (rfc_sum True (bytes (neb_sock_csum_icmp4_fill True (\<lambda>a. 0x45) 7 11) 7 (nat 11))) = 65535 \<and>
    oc_norm (rfc_sum True (bytes (neb_sock_csum_ip4_fill True (\<lambda>a. 0x45) 3) 3 (4 * unat ((0x45 :: u8) AND 0xf)))) = 65535"
  by (rule icmp4_ip4_fill_verify [where mem = "\<lambda>a. 0x45" and iph = 3]) simp_all

end
