(* ===== verification/Neb_Bm.thy ===== *)
theory Neb_Bm
  imports Neb_Prelude
begin

text \<open>
  Model of \<^verbatim>\<open>src/src/str/bm.c\<close>, the Boyer-Moore string search: the bad
  character table, the suffix lengths, the good suffix table and the search loop, for both the one
  shot function and the prepared context. The main result is that the search returns the first
  occurrence of the pattern in the text, and terminates.

  The window border \<open>g\<close> of \<^verbatim>\<open>suffixes\<close>, which runs down to -1, is
  kept as the natural number \<open>g1 = g + 1\<close>, and a loop that counts \<open>i\<close> down
  to 0 has \<open>i + 1\<close> as its argument. Every other index is the one of the source. The
  contents of the uninitialised array \<open>suff\<close> are an argument.
\<close>

section \<open>Preprocessing\<close>

definition ASIZE :: nat where "ASIZE = 256"

definition preBmBc :: "u8 list \<Rightarrow> nat list" where
  "preBmBc x =
     (let m = length x in
      foldl (\<lambda>bmBc i. bmBc[unat (x ! i) := m - i - 1]) (replicate ASIZE m) [0..<m - 1])"

text \<open>\<open>while (g >= 0 && x[g] == x[g + d]) --g\<close>, on \<open>g + 1\<close>.\<close>

fun suffix_scan :: "u8 list \<Rightarrow> nat \<Rightarrow> nat \<Rightarrow> nat" where
  "suffix_scan x d 0 = 0"
| "suffix_scan x d (Suc g) = (if x ! g = x ! (g + d) then suffix_scan x d g else Suc g)"

fun suffixes_loop :: "u8 list \<Rightarrow> nat \<Rightarrow> nat \<Rightarrow> nat \<Rightarrow> nat list \<Rightarrow> nat list" where
  "suffixes_loop x 0 f g1 suff = suff"
| "suffixes_loop x (Suc i) f g1 suff =
     (let m = length x in
      if g1 \<le> i \<and> suff ! (i + m - 1 - f) < i + 1 - g1
      then suffixes_loop x i f g1 (suff[i := suff ! (i + m - 1 - f)])
      else
        let g1' = suffix_scan x (m - 1 - i) (if i + 1 < g1 then i + 1 else g1)
        in suffixes_loop x i i g1' (suff[i := i + 1 - g1']))"

definition suffixes :: "u8 list \<Rightarrow> nat list \<Rightarrow> nat list" where
  "suffixes x suff0 = (let m = length x in suffixes_loop x (m - 1) 0 m (suff0[m - 1 := m]))"

text \<open>The second loop of \<^verbatim>\<open>preBmGs\<close>: the inner loop runs \<open>j\<close> up to
  \<open>m - 1 - i\<close>.\<close>

fun gs_prefix_loop :: "nat \<Rightarrow> nat list \<Rightarrow> nat \<Rightarrow> nat \<Rightarrow> nat list \<Rightarrow> nat list" where
  "gs_prefix_loop m suff 0 j bmGs = bmGs"
| "gs_prefix_loop m suff (Suc i) j bmGs =
     (if suff ! i = i + 1
      then gs_prefix_loop m suff i (max j (m - 1 - i))
             (foldl (\<lambda>b j. if b ! j = m then b[j := m - 1 - i] else b) bmGs [j..<m - 1 - i])
      else gs_prefix_loop m suff i j bmGs)"

definition preBmGs :: "u8 list \<Rightarrow> nat list \<Rightarrow> nat list" where
  "preBmGs x suff0 =
     (let m = length x; suff = suffixes x suff0;
          bmGs = gs_prefix_loop m suff m 0 (replicate m m)
      in foldl (\<lambda>b i. b[m - 1 - suff ! i := m - 1 - i]) bmGs [0..<m - 1])"

section \<open>Searching\<close>

text \<open>The comparison loop, on \<open>i + 1\<close>: the result 0 stands for \<open>i < 0\<close>.\<close>

fun bm_compare :: "u8 list \<Rightarrow> u8 list \<Rightarrow> nat \<Rightarrow> nat \<Rightarrow> nat" where
  "bm_compare p t j 0 = 0"
| "bm_compare p t j (Suc i) = (if p ! i = t ! (i + j) then bm_compare p t j i else Suc i)"

definition bm_shift :: "nat \<Rightarrow> nat list \<Rightarrow> nat list \<Rightarrow> nat \<Rightarrow> u8 \<Rightarrow> int" where
  "bm_shift pl bmGs bmBc i c =
     (let a = int (bmGs ! i); b = int (bmBc ! unat c) - int pl + 1 + int i in if a > b then a else b)"

text \<open>The search loop; \<open>None\<close> means it does not end, \<open>Some None\<close> is the null
  pointer and \<open>Some (Some j)\<close> the pointer \<open>t + j\<close>.\<close>

partial_function (option) bm_search_loop ::
  "u8 list \<Rightarrow> nat list \<Rightarrow> nat list \<Rightarrow> u8 list \<Rightarrow> int \<Rightarrow> nat option option" where
  "bm_search_loop p bmGs bmBc t j =
     (if j \<le> int (length t) - int (length p) then
        (case bm_compare p t (nat j) (length p) of
           0 \<Rightarrow> Some (Some (nat j))
         | Suc i \<Rightarrow> bm_search_loop p bmGs bmBc t (j + bm_shift (length p) bmGs bmBc i (t ! (i + nat j))))
      else Some None)"

definition neb_str_bm_search :: "nat list \<Rightarrow> u8 list \<Rightarrow> u8 list \<Rightarrow> nat option option" where
  "neb_str_bm_search suff0 p t =
     (if length p > length t then Some None
      else bm_search_loop p (preBmGs p suff0) (preBmBc p) t 0)"

record neb_str_bm_ctx =
  ctx_pattern :: "u8 list"
  ctx_pattern_len :: nat
  ctx_bmBc :: "nat list"
  ctx_bmGs :: "nat list"

definition neb_str_bm_ctx_create :: "bool \<Rightarrow> nat list \<Rightarrow> u8 list \<Rightarrow> neb_str_bm_ctx option" where
  "neb_str_bm_ctx_create malloc_ok suff0 p =
     (if \<not> malloc_ok then None
      else Some \<lparr>ctx_pattern = p, ctx_pattern_len = length p, ctx_bmBc = preBmBc p, ctx_bmGs = preBmGs p suff0\<rparr>)"

definition neb_str_bm_ctx_search :: "neb_str_bm_ctx \<Rightarrow> u8 list \<Rightarrow> nat option option" where
  "neb_str_bm_ctx_search c t =
     (if ctx_pattern_len c > length t then Some None
      else bm_search_loop (ctx_pattern c) (ctx_bmGs c) (ctx_bmBc c) t 0)"

section \<open>Suffix lengths\<close>

text \<open>\<open>k\<close> is the length of the longest common suffix of \<open>x[0..i]\<close> and
  \<open>x\<close>.\<close>

definition is_suff :: "u8 list \<Rightarrow> nat \<Rightarrow> nat \<Rightarrow> bool" where
  "is_suff x i k \<longleftrightarrow> k \<le> i + 1 \<and> (\<forall>s<k. x ! (i - s) = x ! (length x - 1 - s)) \<and>
     (k = i + 1 \<or> x ! (i - k) \<noteq> x ! (length x - 1 - k))"

lemma is_suff_not_less: "is_suff x i k \<Longrightarrow> is_suff x i l \<Longrightarrow> \<not> k < l"
proof
  assume k: "is_suff x i k" and l: "is_suff x i l" and "k < l"
  then have "k \<noteq> i + 1" "x ! (i - k) = x ! (length x - 1 - k)" unfolding is_suff_def by auto
  with k show False unfolding is_suff_def by blast
qed

lemma is_suff_unique: "is_suff x i k \<Longrightarrow> is_suff x i l \<Longrightarrow> k = l"
  using is_suff_not_less [of x i k l] is_suff_not_less [of x i l k] by linarith

lemma suffix_scan_le: "suffix_scan x d g \<le> g"
  by (induction g) auto

lemma suffix_scan_stop: "suffix_scan x d g = Suc k \<Longrightarrow> x ! k \<noteq> x ! (k + d)"
  by (induction g) (auto split: if_splits)

lemma suffix_scan_match: "suffix_scan x d g \<le> p \<Longrightarrow> p < g \<Longrightarrow> x ! p = x ! (p + d)"
proof (induction g)
  case (Suc g)
  then show ?case by (cases "x ! g = x ! (g + d)"; cases "p = g") simp_all
qed simp

text \<open>The window: between \<open>g1\<close> and \<open>f\<close> the pattern matches its own suffix.\<close>

definition window :: "u8 list \<Rightarrow> nat \<Rightarrow> nat \<Rightarrow> nat \<Rightarrow> bool" where
  "window x i f g1 \<longleftrightarrow> (g1 \<le> i \<longrightarrow> i < f \<and> f < length x - 1 \<and>
     (\<forall>p. g1 \<le> p \<and> p \<le> f \<longrightarrow> x ! p = x ! (p + (length x - 1 - f))))"

lemma suffix_copy:
  assumes w: "window x i f g1" and g: "g1 \<le> i" and s: "is_suff x (i + length x - 1 - f) s" "s < i + 1 - g1"
  shows "is_suff x i s"
proof -
  let ?m = "length x" and ?i = "i + length x - 1 - f"
  have b: "i < f" "f < ?m - 1" "i < ?i" using w g by (auto simp: window_def)
  have eq: "x ! (i - t) = x ! (?i - t)" if "t \<le> s" for t
  proof -
    have "i - t + (?m - 1 - f) = ?i - t" using that b s(2) g by simp
    moreover have "g1 \<le> i - t" "i - t \<le> f" using that b s(2) by simp_all
    ultimately show ?thesis using w g unfolding window_def by metis
  qed
  then have "\<forall>t < s. x ! (i - t) = x ! (?m - 1 - t)" using s(1) by (simp add: is_suff_def)
  moreover have "x ! (i - s) \<noteq> x ! (?m - 1 - s)"
    using eq [of s] s b by (auto simp: is_suff_def)
  ultimately show ?thesis using s(2) by (simp add: is_suff_def)
qed

lemma suffix_extend:
  assumes i: "i < length x - 1" and w: "window x i f g1"
    and s: "g1 \<le> i \<longrightarrow> is_suff x (i + length x - 1 - f) s \<and> i + 1 - g1 \<le> s"
    and g: "g1' = suffix_scan x (length x - 1 - i) (if i + 1 < g1 then i + 1 else g1)"
  shows "g1' \<le> i + 1 \<and> is_suff x i (i + 1 - g1') \<and> (\<forall>p. g1' \<le> p \<and> p \<le> i \<longrightarrow> x ! p = x ! (p + (length x - 1 - i)))"
proof -
  let ?m = "length x" and ?d = "length x - 1 - i"
  define h where "h = (if i + 1 < g1 then i + 1 else g1)"
  have h: "x ! p = x ! (p + ?d)" if "h \<le> p" "p \<le> i" for p
  proof -
    from that have "g1 \<le> i" "h = g1" by (auto simp: h_def split: if_splits)
    then have b: "i < f" "f < ?m - 1" using w by (auto simp: window_def)
    have "x ! p = x ! (p + (?m - 1 - f))"
      using w \<open>g1 \<le> i\<close> that b \<open>h = g1\<close> unfolding window_def by (metis le_trans less_imp_le)
    also have "p + (?m - 1 - f) = (i + ?m - 1 - f) - (i - p)" using that b by simp
    also have "x ! \<dots> = x ! (?m - 1 - (i - p))"
    proof -
      have "i - p < s" using s \<open>g1 \<le> i\<close> that \<open>h = g1\<close> by linarith
      then show ?thesis using s \<open>g1 \<le> i\<close> unfolding is_suff_def by blast
    qed
    also have "?m - 1 - (i - p) = p + ?d" using that i by simp
    finally show ?thesis .
  qed
  have g1': "g1' = suffix_scan x ?d h" by (simp only: g h_def)
  have le: "g1' \<le> h" "h \<le> i + 1" by (simp_all add: g1' suffix_scan_le h_def)
  have eq: "x ! p = x ! (p + ?d)" if "g1' \<le> p" "p \<le> i" for p
    using suffix_scan_match [of x ?d h p] h [of p] that unfolding g1' by (cases "p < h") simp_all
  have match: "x ! (i - t) = x ! (?m - 1 - t)" if t: "t < i + 1 - g1'" for t
  proof -
    have "g1' \<le> i - t" "i - t + ?d = ?m - 1 - t" using t i by simp_all
    then show ?thesis using eq [of "i - t"] by simp
  qed
  have stop: "i + 1 - g1' = i + 1 \<or> x ! (i - (i + 1 - g1')) \<noteq> x ! (?m - 1 - (i + 1 - g1'))"
  proof (cases g1')
    case (Suc k)
    then have k: "k \<le> i" "x ! k \<noteq> x ! (k + ?d)" using le suffix_scan_stop [of x ?d h k] g1' by simp_all
    moreover have "i - (i + 1 - g1') = k" "?m - 1 - (i + 1 - g1') = k + ?d" using Suc k(1) i by simp_all
    ultimately show ?thesis by simp
  qed simp
  have "is_suff x i (i + 1 - g1')"
    unfolding is_suff_def by (intro conjI allI impI diff_le_self match stop)
  moreover have "g1' \<le> i + 1" using le by simp
  ultimately show ?thesis using eq by blast
qed

lemma suffixes_loop_correct:
  assumes "n \<le> length x - 1" "length suff = length x" "\<forall>k. n \<le> k \<and> k < length x \<longrightarrow> is_suff x k (suff ! k)"
    and "n = 0 \<or> window x (n - 1) f g1"
  shows "length (suffixes_loop x n f g1 suff) = length x \<and>
    (\<forall>k < length x. is_suff x k (suffixes_loop x n f g1 suff ! k))"
  using assms
proof (induction x n f g1 suff rule: suffixes_loop.induct)
  case (2 x i f g1 suff)
  let ?m = "length x" and ?s = "suff ! (i + length x - 1 - f)"
  have w: "window x i f g1" and i: "i < ?m - 1" using "2.prems" by auto
  have s: "is_suff x (i + ?m - 1 - f) ?s" if "g1 \<le> i"
  proof -
    have "Suc i \<le> i + ?m - 1 - f" "i + ?m - 1 - f < ?m" using w that by (auto simp: window_def)
    then show ?thesis using "2.prems"(3) by blast
  qed
  have others: "\<forall>k. i \<le> k \<and> k < ?m \<longrightarrow> is_suff x k (suff[i := v] ! k)" if "is_suff x i v" for v
    using that "2.prems"(2,3) i by (auto simp: nth_list_update)
  show ?case
  proof (cases "g1 \<le> i \<and> ?s < i + 1 - g1")
    case True
    then have copy: "is_suff x i ?s" using suffix_copy w s by blast
    have "i = 0 \<or> window x (i - 1) f g1" using w by (auto simp: window_def)
    moreover have "suffixes_loop x (Suc i) f g1 suff = suffixes_loop x i f g1 (suff[i := ?s])"
      unfolding suffixes_loop.simps Let_def using True by (rule if_P)
    ultimately show ?thesis
      using "2.IH"(1) [OF refl True] "2.prems"(2) others [OF copy] i by simp
  next
    case False
    define g1' where "g1' = suffix_scan x (?m - 1 - i) (if i + 1 < g1 then i + 1 else g1)"
    have ext: "g1' \<le> i + 1 \<and> is_suff x i (i + 1 - g1') \<and>
        (\<forall>p. g1' \<le> p \<and> p \<le> i \<longrightarrow> x ! p = x ! (p + (?m - 1 - i)))"
      by (rule suffix_extend [OF i w _ g1'_def, of ?s]) (use s False in auto)
    then have "i = 0 \<or> window x (i - 1) i g1'" using i by (auto simp: window_def)
    moreover have "suffixes_loop x (Suc i) f g1 suff = suffixes_loop x i i g1' (suff[i := i + 1 - g1'])"
      unfolding suffixes_loop.simps Let_def g1'_def using False by (rule if_not_P)
    ultimately show ?thesis
      using "2.IH"(2) [OF refl False g1'_def] "2.prems"(2) others [of "i + 1 - g1'"] ext i by simp
  qed
qed simp

lemma suffixes_correct:
  assumes "x \<noteq> []" "length suff0 = length x"
  shows "length (suffixes x suff0) = length x" "i < length x \<Longrightarrow> is_suff x i (suffixes x suff0 ! i)"
proof -
  let ?m = "length x"
  have "\<forall>k. ?m - 1 \<le> k \<and> k < ?m \<longrightarrow> is_suff x k (suff0[?m - 1 := ?m] ! k)"
    using assms by (auto simp: is_suff_def nth_list_update)
  moreover have "?m - 1 = 0 \<or> window x (?m - 1 - 1) 0 ?m" by (auto simp: window_def)
  ultimately have "length (suffixes x suff0) = ?m \<and> (\<forall>k < ?m. is_suff x k (suffixes x suff0 ! k))"
    unfolding suffixes_def Let_def using assms by (intro suffixes_loop_correct) auto
  then show "length (suffixes x suff0) = ?m" "i < ?m \<Longrightarrow> is_suff x i (suffixes x suff0 ! i)" by auto
qed

section \<open>The good suffix table\<close>

lemma fold_fill:
  assumes "e \<le> length b"
  shows "length (foldl (\<lambda>b j. if b ! j = m then b[j := v] else b) b [j..<e]) = length b \<and>
    (\<forall>p < length b. foldl (\<lambda>b j. if b ! j = m then b[j := v] else b) b [j..<e] ! p =
       (if j \<le> p \<and> p < e \<and> b ! p = m then v else b ! p))"
  using assms
proof (induction e)
  case (Suc e)
  then show ?case by (cases "j \<le> e") (auto simp: nth_list_update less_Suc_eq)
qed simp

definition gs_inv :: "nat \<Rightarrow> nat list \<Rightarrow> nat \<Rightarrow> nat \<Rightarrow> nat list \<Rightarrow> bool" where
  "gs_inv m suff n j b \<longleftrightarrow> length b = m \<and> j \<le> m \<and>
     (\<forall>p < j. 0 < b ! p \<and> b ! p \<le> m - 1 - n) \<and> (\<forall>p. j \<le> p \<and> p < m \<longrightarrow> b ! p = m) \<and>
     (\<forall>i. n \<le> i \<and> i < m \<and> suff ! i = i + 1 \<longrightarrow> (\<forall>p < m - 1 - i. b ! p \<le> m - 1 - i))"

lemma gs_inv_skip: "gs_inv m suff (Suc i) j b \<Longrightarrow> suff ! i \<noteq> i + 1 \<Longrightarrow> gs_inv m suff i j b"
  unfolding gs_inv_def by (fastforce simp: le_eq_less_or_eq [of i])

lemma gs_inv_fill:
  assumes inv: "gs_inv m suff (Suc i) j b" and i: "i < m"
  shows "gs_inv m suff i (max j (m - 1 - i))
    (foldl (\<lambda>b j. if b ! j = m then b[j := m - 1 - i] else b) b [j..<m - 1 - i])"
    (is "gs_inv m suff i ?j ?b")
proof -
  have len: "length b = m" and j: "j \<le> m" and old: "\<And>p. p < j \<Longrightarrow> 0 < b ! p \<and> b ! p \<le> m - 1 - Suc i"
    and rest: "\<And>p. j \<le> p \<Longrightarrow> p < m \<Longrightarrow> b ! p = m"
    and earlier: "\<And>k p. Suc i \<le> k \<Longrightarrow> k < m \<Longrightarrow> suff ! k = k + 1 \<Longrightarrow> p < m - 1 - k \<Longrightarrow> b ! p \<le> m - 1 - k"
    using inv unfolding gs_inv_def by auto
  have fill: "length ?b = m" "\<And>p. p < m \<Longrightarrow> ?b ! p = (if j \<le> p \<and> p < m - 1 - i then m - 1 - i else b ! p)"
    using fold_fill [of "m - 1 - i" b m "m - 1 - i" j] len rest by auto
  have new: "0 < ?b ! p \<and> ?b ! p \<le> m - 1 - i" if "p < ?j" for p
  proof (cases "p < j")
    case True
    then show ?thesis using fill(2) [of p] old [of p] j by auto
  next
    case False
    then show ?thesis using that fill(2) [of p] by auto
  qed
  have "?b ! p = m" if "?j \<le> p" "p < m" for p
    using that fill(2) [of p] rest [of p] by auto
  moreover have "?b ! p \<le> m - 1 - k" if k: "i \<le> k" "k < m" "suff ! k = k + 1" "p < m - 1 - k" for k p
  proof (cases "k = i")
    case True
    then show ?thesis using new [of p] k(4) by simp
  next
    case False
    then have "b ! p \<le> m - 1 - k" using earlier k by simp
    moreover from this have "p < j" using rest [of p] k by (cases "p < j") auto
    ultimately show ?thesis using fill(2) [of p] j by simp
  qed
  ultimately show ?thesis using fill(1) new j unfolding gs_inv_def by simp
qed

lemma gs_prefix_loop_correct:
  "gs_inv m suff n j b \<Longrightarrow> n \<le> m \<Longrightarrow> \<exists>j'. gs_inv m suff 0 j' (gs_prefix_loop m suff n j b)"
proof (induction m suff n j b rule: gs_prefix_loop.induct)
  case (2 m suff i j b)
  then show ?case using gs_inv_fill [of m suff i j b] gs_inv_skip [of m suff i j b]
    by (cases "suff ! i = i + 1") simp_all
qed auto

lemma gs_last_loop:
  assumes "length b = m" "n \<le> m - 1" "\<forall>i < n. suff ! i \<le> i + 1"
  shows "length (foldl (\<lambda>b i. b[m - 1 - suff ! i := m - 1 - i]) b [0..<n]) = m \<and>
    (\<forall>i < m. let r = foldl (\<lambda>b i. b[m - 1 - suff ! i := m - 1 - i]) b [0..<n] ! i in
       (\<exists>k < n. suff ! k = m - 1 - i \<and> r = m - 1 - k \<and> (\<forall>l < n. suff ! l = m - 1 - i \<longrightarrow> l \<le> k)) \<or>
       (\<forall>k < n. suff ! k \<noteq> m - 1 - i) \<and> r = b ! i)"
  using assms
proof (induction n)
  case 0
  then show ?case by simp
next
  case (Suc n)
  let ?r = "foldl (\<lambda>b i. b[m - 1 - suff ! i := m - 1 - i]) b [0..<n]"
  have IH: "length ?r = m" "\<And>i. i < m \<Longrightarrow>
     (\<exists>k < n. suff ! k = m - 1 - i \<and> ?r ! i = m - 1 - k \<and> (\<forall>l < n. suff ! l = m - 1 - i \<longrightarrow> l \<le> k)) \<or>
       (\<forall>k < n. suff ! k \<noteq> m - 1 - i) \<and> ?r ! i = b ! i"
    using Suc by (auto simp: Let_def)
  have sn: "suff ! n \<le> m - 1" using Suc.prems by (metis le_trans lessI Suc_eq_plus1)
  have step: "foldl (\<lambda>b i. b[m - 1 - suff ! i := m - 1 - i]) b [0..<Suc n] = ?r[m - 1 - suff ! n := m - 1 - n]"
    by simp
  have "(\<exists>k < Suc n. suff ! k = m - 1 - i \<and> ?r[m - 1 - suff ! n := m - 1 - n] ! i = m - 1 - k \<and>
        (\<forall>l < Suc n. suff ! l = m - 1 - i \<longrightarrow> l \<le> k)) \<or>
       (\<forall>k < Suc n. suff ! k \<noteq> m - 1 - i) \<and> ?r[m - 1 - suff ! n := m - 1 - n] ! i = b ! i" if i: "i < m" for i
  proof (cases "suff ! n = m - 1 - i")
    case True
    then have "m - 1 - suff ! n = i" using i by simp
    then show ?thesis using True i IH(1) by (intro disjI1 exI [of _ n]) auto
  next
    case False
    then have "m - 1 - suff ! n \<noteq> i" using sn i by auto
    then have "?r[m - 1 - suff ! n := m - 1 - n] ! i = ?r ! i" by simp
    then show ?thesis using IH(2) [OF i] False by (auto simp: less_Suc_eq)
  qed
  then show ?case unfolding step Let_def using IH(1) by simp
qed

text \<open>A shift \<open>s\<close> is compatible with a mismatch at \<open>i\<close> when moving the
  pattern by \<open>s\<close> keeps the matched suffix and changes the mismatched character.\<close>

definition compatible :: "u8 list \<Rightarrow> nat \<Rightarrow> nat \<Rightarrow> bool" where
  "compatible x i s \<longleftrightarrow> (\<forall>k. i < k \<and> k < length x \<and> s \<le> k \<longrightarrow> x ! (k - s) = x ! k) \<and>
     (s \<le> i \<longrightarrow> x ! (i - s) \<noteq> x ! i)"

lemma compatible_inner_suff:
  assumes c: "compatible x i s" and s: "0 < s" "s \<le> i" and i: "i < length x"
  shows "is_suff x (length x - 1 - s) (length x - 1 - i)"
proof -
  let ?m = "length x"
  have "x ! (?m - 1 - s - t) = x ! (?m - 1 - t)" if "t < ?m - 1 - i" for t
  proof -
    have "i < ?m - 1 - t" "?m - 1 - t < ?m" "s \<le> ?m - 1 - t" using that s by auto
    moreover have "?m - 1 - t - s = ?m - 1 - s - t" by simp
    ultimately show ?thesis using c unfolding compatible_def by metis
  qed
  moreover have "?m - 1 - s - (?m - 1 - i) = i - s" "?m - 1 - (?m - 1 - i) = i" using i s by auto
  ultimately show ?thesis using c s i unfolding is_suff_def compatible_def by auto
qed

lemma compatible_outer_suff:
  assumes c: "compatible x i s" and s: "i < s" "s < length x"
  shows "is_suff x (length x - 1 - s) (length x - 1 - s + 1)"
proof -
  let ?m = "length x"
  have "x ! (?m - 1 - s - t) = x ! (?m - 1 - t)" if "t < ?m - 1 - s + 1" for t
  proof -
    have "i < ?m - 1 - t" "?m - 1 - t < ?m" "s \<le> ?m - 1 - t" using that s by auto
    moreover have "?m - 1 - t - s = ?m - 1 - s - t" by simp
    ultimately show ?thesis using c unfolding compatible_def by metis
  qed
  then show ?thesis by (simp add: is_suff_def)
qed

lemma preBmGs_correct:
  assumes x: "x \<noteq> []" "length suff0 = length x" and i: "i < length x"
  shows "0 < preBmGs x suff0 ! i" "preBmGs x suff0 ! i \<le> length x"
    and "0 < s \<Longrightarrow> compatible x i s \<Longrightarrow> preBmGs x suff0 ! i \<le> s"
proof -
  let ?m = "length x" and ?suff = "suffixes x suff0"
  define b where "b = gs_prefix_loop ?m ?suff ?m 0 (replicate ?m ?m)"
  have suff: "is_suff x k (?suff ! k)" if "k < ?m" for k using suffixes_correct(2) [OF x that] .
  have "gs_inv ?m ?suff ?m 0 (replicate ?m ?m)" by (auto simp: gs_inv_def)
  then obtain j where inv: "gs_inv ?m ?suff 0 j b"
    using gs_prefix_loop_correct unfolding b_def by blast
  then have b: "length b = ?m" "0 < b ! i" "b ! i \<le> ?m"
    using i by (cases "i < j"; auto simp: gs_inv_def)+
  have bs: "b ! i \<le> ?m - 1 - k" if "k < ?m" "?suff ! k = k + 1" "i < ?m - 1 - k" for k
    using inv that by (auto simp: gs_inv_def)
  have "\<forall>k < ?m - 1. ?suff ! k \<le> k + 1" using suff by (auto simp: is_suff_def)
  then have last: "(\<exists>k < ?m - 1. ?suff ! k = ?m - 1 - i \<and> preBmGs x suff0 ! i = ?m - 1 - k \<and>
        (\<forall>l < ?m - 1. ?suff ! l = ?m - 1 - i \<longrightarrow> l \<le> k)) \<or>
      (\<forall>k < ?m - 1. ?suff ! k \<noteq> ?m - 1 - i) \<and> preBmGs x suff0 ! i = b ! i"
    using gs_last_loop [OF b(1), of "?m - 1" ?suff] i by (simp add: preBmGs_def Let_def b_def)
  show "0 < preBmGs x suff0 ! i" "preBmGs x suff0 ! i \<le> ?m" using last b by auto
  assume s: "0 < s" and c: "compatible x i s"
  consider "?m \<le> s" | "s \<le> i" | "i < s" "s < ?m" by linarith
  then show "preBmGs x suff0 ! i \<le> s"
  proof cases
    case 1
    then show ?thesis using last b by auto
  next
    case 2
    then have "?suff ! (?m - 1 - s) = ?m - 1 - i"
      using is_suff_unique [OF suff compatible_inner_suff [OF c s]] i s by auto
    moreover have "?m - 1 - s < ?m - 1" using s 2 i by auto
    ultimately show ?thesis using last by fastforce
  next
    case 3
    then have "?suff ! (?m - 1 - s) = ?m - 1 - s + 1"
      using is_suff_unique [OF suff compatible_outer_suff [OF c]] s by auto
    then have "b ! i \<le> s" using bs [of "?m - 1 - s"] 3 by simp
    moreover have "?m - 1 - k \<le> s" if "k < ?m - 1" "?suff ! k = ?m - 1 - i" for k
    proof -
      have "?m - 1 - i \<le> k + 1" using suff [of k] that by (simp add: is_suff_def)
      then show ?thesis using 3 i by linarith
    qed
    ultimately show ?thesis using last by metis
  qed
qed

section \<open>The bad character table\<close>

lemma preBmBc_loop:
  assumes "n \<le> length x - 1" "x \<noteq> []"
  shows "length (foldl (\<lambda>b i. b[unat (x ! i) := length x - i - 1]) (replicate 256 (length x)) [0..<n]) = 256 \<and>
    (let r = foldl (\<lambda>b i. b[unat (x ! i) := length x - i - 1]) (replicate 256 (length x)) [0..<n] ! unat (c :: u8) in
      (\<exists>k < n. x ! k = c \<and> r = length x - 1 - k \<and> (\<forall>l. k < l \<and> l < n \<longrightarrow> x ! l \<noteq> c)) \<or>
      (\<forall>k < n. x ! k \<noteq> c) \<and> r = length x)"
  using assms
proof (induction n)
  case 0
  then show ?case using unsigned_less [of c, where 'a = nat] by simp
next
  case (Suc n)
  let ?r = "foldl (\<lambda>b i. b[unat (x ! i) := length x - i - 1]) (replicate 256 (length x)) [0..<n]"
  have IH: "length ?r = 256"
    "(\<exists>k < n. x ! k = c \<and> ?r ! unat c = length x - 1 - k \<and> (\<forall>l. k < l \<and> l < n \<longrightarrow> x ! l \<noteq> c)) \<or>
      (\<forall>k < n. x ! k \<noteq> c) \<and> ?r ! unat c = length x"
    using Suc by (auto simp: Let_def)
  have c: "unat c < 256" using unsigned_less [of c, where 'a = nat] by simp
  have step: "foldl (\<lambda>b i. b[unat (x ! i) := length x - i - 1]) (replicate 256 (length x)) [0..<Suc n] =
      ?r[unat (x ! n) := length x - n - 1]" by simp
  show ?case
  proof (cases "x ! n = c")
    case True
    then show ?thesis unfolding step Let_def using IH(1) c
      by (intro conjI disjI1 exI [of _ n]) auto
  next
    case False
    then have "unat (x ! n) \<noteq> unat c" by (simp add: word_unat_eq_iff)
    then have "?r[unat (x ! n) := length x - n - 1] ! unat c = ?r ! unat c" by (rule nth_list_update_neq)
    then show ?thesis unfolding step Let_def using IH False by (auto simp: less_Suc_eq)
  qed
qed

lemma preBmBc_correct:
  assumes "x \<noteq> []"
  shows "(\<exists>k < length x - 1. x ! k = c \<and> preBmBc x ! unat c = length x - 1 - k \<and>
      (\<forall>l. k < l \<and> l < length x - 1 \<longrightarrow> x ! l \<noteq> c)) \<or>
    (\<forall>k < length x - 1. x ! k \<noteq> c) \<and> preBmBc x ! unat c = length x"
  using preBmBc_loop [of "length x - 1" x c] assms by (simp add: preBmBc_def ASIZE_def Let_def)

section \<open>The search\<close>

definition occurs :: "u8 list \<Rightarrow> u8 list \<Rightarrow> nat \<Rightarrow> bool" where
  "occurs p t j \<longleftrightarrow> take (length p) (drop j t) = p"

lemma occurs_iff:
  assumes "p \<noteq> []"
  shows "occurs p t j \<longleftrightarrow> j + length p \<le> length t \<and> (\<forall>i < length p. t ! (i + j) = p ! i)"
proof (cases "j + length p \<le> length t")
  case True
  then have "occurs p t j \<longleftrightarrow> (\<forall>i < length p. take (length p) (drop j t) ! i = p ! i)"
    unfolding occurs_def by (subst list_eq_iff_nth_eq) auto
  then show ?thesis using True by (simp add: add.commute)
next
  case False
  then have "length (take (length p) (drop j t)) \<noteq> length p" using assms by (cases p) auto
  then show ?thesis using False unfolding occurs_def by metis
qed

lemma bm_compare_0: "bm_compare p t j n = 0 \<longleftrightarrow> (\<forall>i < n. p ! i = t ! (i + j))"
  by (induction n) (auto simp: less_Suc_eq)

lemma bm_compare_Suc:
  "bm_compare p t j n = Suc i \<Longrightarrow> i < n \<and> p ! i \<noteq> t ! (i + j) \<and> (\<forall>k. i < k \<and> k < n \<longrightarrow> p ! k = t ! (k + j))"
  by (induction n) (auto split: if_splits simp: less_Suc_eq)

text \<open>No occurrence lies between a mismatching position and the shifted one.\<close>

lemma occurrence_compatible:
  assumes mis: "bm_compare p t j (length p) = Suc i" and occ: "occurs p t (j + s)" and p: "p \<noteq> []"
  shows "compatible p i s" "s \<le> i \<Longrightarrow> p ! (i - s) = t ! (i + j)"
proof -
  have m: "i < length p" "p ! i \<noteq> t ! (i + j)" "\<And>k. i < k \<Longrightarrow> k < length p \<Longrightarrow> p ! k = t ! (k + j)"
    using bm_compare_Suc [OF mis] by auto
  have at: "p ! (k - s) = t ! (k + j)" if "s \<le> k" "k < length p" for k
  proof -
    have "k - s < length p" "(k - s) + (j + s) = k + j" using that by simp_all
    then show ?thesis using occ occurs_iff [OF p, of t "j + s"] by metis
  qed
  then show "compatible p i s" "s \<le> i \<Longrightarrow> p ! (i - s) = t ! (i + j)"
    using m unfolding compatible_def by auto
qed

lemma bm_shift_safe:
  assumes p: "p \<noteq> []" "length suff0 = length p" and mis: "bm_compare p t j (length p) = Suc i"
    and s: "0 < s" "int s < bm_shift (length p) (preBmGs p suff0) (preBmBc p) i (t ! (i + j))"
  shows "\<not> occurs p t (j + s)"
proof
  assume occ: "occurs p t (j + s)"
  note compat = occurrence_compatible [OF mis occ p(1)]
  have i: "i < length p" using bm_compare_Suc [OF mis] by simp
  have "\<not> s < preBmGs p suff0 ! i" using preBmGs_correct(3) [OF p i s(1) compat(1)] by simp
  then have lt: "int s < int (preBmBc p ! unat (t ! (i + j))) - int (length p) + 1 + int i"
    using s(2) by (simp add: bm_shift_def Let_def split: if_splits)
  from preBmBc_correct [OF p(1), of "t ! (i + j)"] show False
  proof (elim disjE exE conjE)
    fix k assume k: "k < length p - 1" "p ! k = t ! (i + j)" "preBmBc p ! unat (t ! (i + j)) = length p - 1 - k"
      "\<forall>l. k < l \<and> l < length p - 1 \<longrightarrow> p ! l \<noteq> t ! (i + j)"
    then have "s + k < i" using lt by simp
    then have "k < i - s" "i - s < length p - 1" "s \<le> i" using s(1) i by simp_all
    then show False using k(4) compat(2) by blast
  next
    assume none: "\<forall>k < length p - 1. p ! k \<noteq> t ! (i + j)" and "preBmBc p ! unat (t ! (i + j)) = length p"
    then have "s \<le> i" "i - s < length p - 1" using lt s(1) i by simp_all
    then show False using none compat(2) by blast
  qed
qed

lemma bm_search_loop_correct:
  assumes p: "p \<noteq> []" "length suff0 = length p" and before: "\<forall>k < j. \<not> occurs p t k"
  shows "bm_search_loop p (preBmGs p suff0) (preBmBc p) t (int j) = Some (find (occurs p t) [0..<Suc (length t)])"
  using before
proof (induction "length t - j" arbitrary: j rule: less_induct)
  case less
  let ?m = "length p" and ?gs = "preBmGs p suff0" and ?bc = "preBmBc p"
  show ?case
  proof (cases "j + ?m \<le> length t")
    case False
    then have "\<forall>k. \<not> occurs p t k" using less.prems occurs_iff [OF p(1), of t] by (meson add_le_mono1 le_trans not_less)
    then have "find (occurs p t) [0..<Suc (length t)] = None" by (simp add: find_None_iff)
    moreover have "\<not> int j \<le> int (length t) - int ?m" using False by linarith
    ultimately show ?thesis by (subst bm_search_loop.simps) simp
  next
    case True
    then have le: "int j \<le> int (length t) - int ?m" by linarith
    show ?thesis
    proof (cases "bm_compare p t j ?m")
      case 0
      then have "occurs p t j" using True occurs_iff [OF p(1), of t j] by (simp add: bm_compare_0)
      then have "find (occurs p t) [0..<Suc (length t)] = Some j"
        using less.prems True by (intro find_Some_iff [THEN iffD2] exI [of _ j]) (auto simp del: upt_Suc)
      then show ?thesis using 0 le by (subst bm_search_loop.simps) simp
    next
      case (Suc i)
      define sh where "sh = nat (bm_shift ?m ?gs ?bc i (t ! (i + j)))"
      have "i < ?m" using bm_compare_Suc [OF Suc] by simp
      then have "0 < ?gs ! i" by (rule preBmGs_correct(1) [OF p])
      then have pos: "0 < bm_shift ?m ?gs ?bc i (t ! (i + j))" by (simp add: bm_shift_def Let_def)
      then have sh: "0 < sh" "int sh = bm_shift ?m ?gs ?bc i (t ! (i + j))" by (simp_all add: sh_def)
      have "\<not> occurs p t k" if "k < j + sh" for k
      proof -
        consider "k < j" | "k = j" | s where "k = j + s" "0 < s" "s < sh"
          using \<open>k < j + sh\<close> by (metis add_diff_inverse_nat less_diff_conv2 linorder_neqE_nat nat_add_left_cancel_less not_less zero_less_diff)
        then show ?thesis
        proof cases
          case 2
          then show ?thesis using occurs_iff [OF p(1), of t j] bm_compare_Suc [OF Suc] by auto
        next
          case 3
          then show ?thesis using bm_shift_safe [OF p Suc] sh(2) by simp
        qed (use less.prems in simp)
      qed
      then have "bm_search_loop p ?gs ?bc t (int (j + sh)) = Some (find (occurs p t) [0..<Suc (length t)])"
        using less.hyps [of "j + sh"] sh(1) True p(1) by (cases p) auto
      then show ?thesis using Suc le sh(2) by (subst bm_search_loop.simps) simp
    qed
  qed
qed

lemma bm_search_total:
  assumes "p \<noteq> []" "length suff0 = length p"
  shows "(if length p > length t then Some None else bm_search_loop p (preBmGs p suff0) (preBmBc p) t 0) =
    Some (find (occurs p t) [0..<Suc (length t)])"
  using bm_search_loop_correct [OF assms, of 0 t] occurs_iff [OF assms(1), of t]
  by (auto simp: find_None_iff2 simp del: upt_Suc)

section \<open>Properties of the search\<close>

text \<open>C1. The Boyer-Moore search ends for every non-empty pattern and every text and returns the
  first position where the pattern occurs, or the null pointer when there is none.\<close>

theorem bm_search_first_occurrence:
  assumes "p \<noteq> []" "length suff0 = length p"
  shows "neb_str_bm_search suff0 p t = Some (find (occurs p t) [0..<Suc (length t)])"
  using bm_search_total [OF assms] by (simp only: neb_str_bm_search_def)

theorem bm_search_first_occurrence_witness:
  "neb_str_bm_search [0, 0] [1, 2] [1, 1, 2, 1, 2] = Some (find (occurs [1, 2] [1, 1, 2, 1, 2]) [0..<Suc (length [1, 1, 2, 1, 2 :: u8])])"
  by (rule bm_search_first_occurrence) simp_all

text \<open>C16. A context prepared once for a pattern finds in every text what the one shot search finds,
  whatever the uninitialised scratch arrays of the two held.\<close>

theorem bm_ctx_search_equiv:
  assumes "p \<noteq> []" "length suff0 = length p" "length suff1 = length p"
    and "neb_str_bm_ctx_create True suff0 p = Some c"
  shows "neb_str_bm_ctx_search c t = neb_str_bm_search suff1 p t"
  using bm_search_total [OF assms(1,2), of t] bm_search_total [OF assms(1,3), of t] assms(4)
  by (auto simp: neb_str_bm_ctx_create_def neb_str_bm_ctx_search_def neb_str_bm_search_def)

theorem bm_ctx_search_equiv_witness:
  "neb_str_bm_ctx_search (the (neb_str_bm_ctx_create True [0, 0, 0] [1, 2, 1])) [2, 1, 2, 1] =
    neb_str_bm_search [9, 9, 9] [1, 2, 1] [2, 1, 2, 1]"
  by (rule bm_ctx_search_equiv [of _ "[0, 0, 0]"]) (simp_all add: neb_str_bm_ctx_create_def)

text \<open>C17. The linear time computation of the suffix lengths is right: entry \<open>i\<close> is the
  length of the longest common suffix of the pattern and its prefix that ends at \<open>i\<close>, and the
  good suffix table built from it never shifts past a compatible alignment.\<close>

theorem bm_tables_correct:
  assumes "x \<noteq> []" "length suff0 = length x" "i < length x"
  shows "is_suff x i (suffixes x suff0 ! i) \<and> 0 < preBmGs x suff0 ! i \<and> preBmGs x suff0 ! i \<le> length x \<and>
    (\<forall>s. 0 < s \<and> compatible x i s \<longrightarrow> preBmGs x suff0 ! i \<le> s)"
  using suffixes_correct(2) [OF assms] preBmGs_correct [OF assms] by blast

theorem bm_tables_correct_witness:
  "is_suff [1, 2, 1] 0 (suffixes [1, 2, 1] [0, 0, 0] ! 0) \<and> 0 < preBmGs [1, 2, 1] [0, 0, 0] ! 0 \<and>
    preBmGs [1, 2, 1] [0, 0, 0] ! 0 \<le> length [1, 2, 1 :: u8]"
  using bm_tables_correct [of "[1, 2, 1 :: u8]" "[0, 0, 0]" 0] by simp

end
