(* ===== verification/Neb_Time.thy ===== *)
theory Neb_Time
  imports Neb_Prelude "HOL-Library.Signed_Division"
begin

text \<open>
  Model of \<^verbatim>\<open>src/include/nebase/time.h\<close> and
  \<^verbatim>\<open>src/src/time.c\<close> (Linux): arithmetic and comparison of timespec values, uptime
  and boot time, the next occurrence of a time of day, and the absolute timeouts of
  \<^verbatim>\<open>src/include/nebase/evdp/core.h\<close>. \<open>time_t\<close> and \<open>long\<close> are
  integers; the product that is computed in \<open>int\<close> keeps its width. The C library's clocks and
  calendar functions are arguments.
\<close>

record timespec =
  tv_sec :: int
  tv_nsec :: int

record tm =
  tm_sec :: int
  tm_min :: int
  tm_hour :: int
  tm_date :: int

definition neb_timespecclear :: "timespec \<Rightarrow> timespec" where
  "neb_timespecclear tvp = tvp\<lparr>tv_sec := 0, tv_nsec := 0\<rparr>"

definition neb_timespecisset :: "timespec \<Rightarrow> bool" where
  "neb_timespecisset tvp = (tv_sec tvp \<noteq> 0 \<or> tv_nsec tvp \<noteq> 0)"

definition neb_timespeccmp :: "timespec \<Rightarrow> timespec \<Rightarrow> (int \<Rightarrow> int \<Rightarrow> bool) \<Rightarrow> bool" where
  "neb_timespeccmp tvp uvp cmp =
     (if tv_sec tvp = tv_sec uvp then cmp (tv_nsec tvp) (tv_nsec uvp) else cmp (tv_sec tvp) (tv_sec uvp))"

definition neb_timespecadd :: "timespec \<Rightarrow> timespec \<Rightarrow> timespec" where
  "neb_timespecadd tsp usp =
     (let s = tv_sec tsp + tv_sec usp; n = tv_nsec tsp + tv_nsec usp in
      if n \<ge> 1000000000 then \<lparr>tv_sec = s + 1, tv_nsec = n - 1000000000\<rparr> else \<lparr>tv_sec = s, tv_nsec = n\<rparr>)"

definition neb_timespecsub :: "timespec \<Rightarrow> timespec \<Rightarrow> timespec" where
  "neb_timespecsub tsp usp =
     (let s = tv_sec tsp - tv_sec usp; n = tv_nsec tsp - tv_nsec usp in
      if n < 0 then \<lparr>tv_sec = s - 1, tv_nsec = n + 1000000000\<rparr> else \<lparr>tv_sec = s, tv_nsec = n\<rparr>)"

text \<open>Clock ticks to seconds and microseconds; a tick rate of zero divides by zero.\<close>

definition neb_clktck2timeval :: "u64 \<Rightarrow> u64 \<Rightarrow> (u64 \<times> u64) option" where
  "neb_clktck2timeval ticks c =
     (if ticks = 0 then None else Some (c div ticks, (c mod ticks) * 1000000 div ticks))"

text \<open>\<open>sysinfo\<close> answers the uptime; \<open>now\<close> is \<open>time(NULL)\<close>.\<close>

definition neb_time_up :: "int option \<Rightarrow> int" where
  "neb_time_up sysinfo = (case sysinfo of None \<Rightarrow> 0 | Some up \<Rightarrow> up)"

definition neb_time_boot :: "int option \<Rightarrow> int \<Rightarrow> int" where
  "neb_time_boot sysinfo now = (let up = neb_time_up sysinfo in if up = 0 then 0 else now - up)"

function alarm_loop :: "int \<Rightarrow> int \<Rightarrow> int" where
  "alarm_loop time_alarm time_curr =
     (if time_alarm \<le> time_curr then alarm_loop (time_alarm + 24 * 60 * 60) time_curr else time_alarm)"
  by pat_completeness auto
termination
  by (relation "measure (\<lambda>(a, c). nat (c - a + 1))") auto

declare alarm_loop.simps [simp del]

text \<open>\<open>localtime_r\<close> and \<open>mktime\<close> are arguments, \<open>None\<close> their failure;
  the result is the absolute time and the delay.\<close>

definition neb_daytime_abs_nearest ::
  "int option \<Rightarrow> (int \<Rightarrow> tm option) \<Rightarrow> (tm \<Rightarrow> int option) \<Rightarrow> int \<Rightarrow> (int \<times> int) option" where
  "neb_daytime_abs_nearest now localtime_r mktime sec_of_day =
     (case now of None \<Rightarrow> None
      | Some time_curr \<Rightarrow> (case localtime_r time_curr of None \<Rightarrow> None
        | Some tm_v \<Rightarrow>
            (case mktime (tm_v\<lparr>tm_hour := sec_of_day sdiv 3600, tm_min := sec_of_day smod 3600 sdiv 60,
                              tm_sec := sec_of_day smod 3600 smod 60\<rparr>) of
               None \<Rightarrow> None
             | Some time_alarm \<Rightarrow>
                 (let a = alarm_loop time_alarm time_curr in Some (a, a - time_curr)))))"

definition neb_evdp_queue_get_abs_timeout :: "timespec \<Rightarrow> timespec \<Rightarrow> timespec" where
  "neb_evdp_queue_get_abs_timeout q_cur_ts dur_ts = neb_timespecadd q_cur_ts dur_ts"

definition neb_evdp_queue_get_abs_timeout_s :: "timespec \<Rightarrow> int \<Rightarrow> timespec" where
  "neb_evdp_queue_get_abs_timeout_s q_cur_ts sec =
     neb_evdp_queue_get_abs_timeout q_cur_ts \<lparr>tv_sec = sec, tv_nsec = 0\<rparr>"

definition neb_evdp_queue_get_abs_timeout_ms :: "timespec \<Rightarrow> int \<Rightarrow> timespec outcome" where
  "neb_evdp_queue_get_abs_timeout_ms q_cur_ts msec =
     (if msec * 1000000 < int_min \<or> int_max < msec * 1000000 then Inl SignedOverflow
      else Inr (neb_evdp_queue_get_abs_timeout q_cur_ts \<lparr>tv_sec = 0, tv_nsec = msec * 1000000\<rparr>))"

section \<open>Time values\<close>

definition ts_ns :: "timespec \<Rightarrow> int" where "ts_ns t = tv_sec t * 1000000000 + tv_nsec t"

definition valid_ts :: "timespec \<Rightarrow> bool" where "valid_ts t \<longleftrightarrow> 0 \<le> tv_nsec t \<and> tv_nsec t < 1000000000"

lemma valid_ts_eq:
  assumes v: "valid_ts a" "valid_ts b"
  shows "ts_ns a = ts_ns b \<longleftrightarrow> a = b"
proof
  assume e: "ts_ns a = ts_ns b"
  have "tv_sec a = tv_sec b"
    by (rule linorder_cases [of "tv_sec a" "tv_sec b"]) (use v e in \<open>simp_all add: valid_ts_def ts_ns_def\<close>)
  then show "a = b" using e by (intro timespec.equality) (simp_all add: ts_ns_def)
qed simp

lemma timespeccmp_ns:
  assumes "valid_ts a" "valid_ts b"
  shows "neb_timespeccmp a b (>) \<longleftrightarrow> ts_ns a > ts_ns b" "neb_timespeccmp a b (<) \<longleftrightarrow> ts_ns a < ts_ns b"
    "neb_timespeccmp a b (=) \<longleftrightarrow> ts_ns a = ts_ns b"
  by (rule linorder_cases [of "tv_sec a" "tv_sec b"];
      use assms in \<open>simp add: valid_ts_def ts_ns_def neb_timespeccmp_def\<close>)+

lemma timespecadd_ns:
  assumes "valid_ts a" "valid_ts b"
  shows "valid_ts (neb_timespecadd a b)" "ts_ns (neb_timespecadd a b) = ts_ns a + ts_ns b"
  using assms by (auto simp: valid_ts_def ts_ns_def neb_timespecadd_def Let_def)

lemma timespecsub_ns:
  assumes "valid_ts a" "valid_ts b"
  shows "valid_ts (neb_timespecsub a b)" "ts_ns (neb_timespecsub a b) = ts_ns a - ts_ns b"
  using assms by (auto simp: valid_ts_def ts_ns_def neb_timespecsub_def Let_def)

text \<open>\<open>x\<close> is the first moment after \<open>c\<close> that is whole days after \<open>a\<close>, or
  \<open>a\<close> itself.\<close>

definition next_alarm :: "int \<Rightarrow> int \<Rightarrow> int \<Rightarrow> bool" where
  "next_alarm a c x \<longleftrightarrow> c < x \<and> (x - a) mod 86400 = 0 \<and> (if a \<le> c then x \<le> c + 86400 else x = a)"

lemma alarm_loop_correct:
  "time_curr < alarm_loop a time_curr \<and> (alarm_loop a time_curr - a) mod 86400 = 0 \<and>
   (if a \<le> time_curr then alarm_loop a time_curr \<le> time_curr + 86400 else alarm_loop a time_curr = a)"
proof (induction a time_curr rule: alarm_loop.induct)
  case (1 a c)
  show ?case
  proof (cases "a \<le> c")
    case True
    then have r: "alarm_loop a c = alarm_loop (a + 86400) c" by (simp add: alarm_loop.simps [of a])
    have m: "(alarm_loop (a + 86400) c - a) mod 86400 = 0"
      using 1 [OF True] mod_add_self2 [of "alarm_loop (a + 86400) c - (a + 86400)" 86400] by simp
    have "alarm_loop (a + 86400) c \<le> c + 86400"
      using 1 [OF True] True by (cases "a + 86400 \<le> c") simp_all
    then show ?thesis using 1 [OF True] True m unfolding r by simp
  next
    case False
    then show ?thesis by (simp add: alarm_loop.simps)
  qed
qed

text \<open>On normalised values the timespec macros are exact arithmetic and comparison of
  nanoseconds, and their results are normalised again.\<close>

theorem timespec_arith:
  assumes "valid_ts a" "valid_ts b"
  shows "ts_ns (neb_timespecadd a b) = ts_ns a + ts_ns b \<and> valid_ts (neb_timespecadd a b) \<and>
    ts_ns (neb_timespecsub a b) = ts_ns a - ts_ns b \<and> valid_ts (neb_timespecsub a b) \<and>
    (neb_timespeccmp a b (>) \<longleftrightarrow> ts_ns a > ts_ns b) \<and> neb_timespecsub (neb_timespecadd a b) b = a"
proof -
  note add = timespecadd_ns [OF assms]
  have "neb_timespecsub (neb_timespecadd a b) b = a"
    using timespecsub_ns [OF add(1) assms(2)] add(2) valid_ts_eq assms(1) by simp
  then show ?thesis using add timespecsub_ns [OF assms] timespeccmp_ns [OF assms] by simp
qed

theorem timespec_arith_witness:
  "ts_ns (neb_timespecadd \<lparr>tv_sec = 1, tv_nsec = 600000000\<rparr> \<lparr>tv_sec = 2, tv_nsec = 700000000\<rparr>) =
     ts_ns \<lparr>tv_sec = 1, tv_nsec = 600000000\<rparr> + ts_ns \<lparr>tv_sec = 2, tv_nsec = 700000000\<rparr>"
  using timespec_arith [of "\<lparr>tv_sec = 1, tv_nsec = 600000000\<rparr>" "\<lparr>tv_sec = 2, tv_nsec = 700000000\<rparr>"]
  by (simp add: valid_ts_def)

text \<open>C27. The next wakeup for a time of day is strictly in the future, the delay matches it, it is a whole
  number of days after the time of day the calendar gave for today, and at most a day ahead when that time has
  passed; failures of the clock and of the calendar are reported.\<close>

theorem daytime_nearest_correct:
  "case neb_daytime_abs_nearest now localtime_r mktime sec_of_day of
     None \<Rightarrow> now = None \<or> localtime_r (the now) = None \<or>
       mktime (the (localtime_r (the now))\<lparr>tm_hour := sec_of_day sdiv 3600, tm_min := sec_of_day smod 3600 sdiv 60,
                tm_sec := sec_of_day smod 3600 smod 60\<rparr>) = None
   | Some (abs_ts, delta) \<Rightarrow> (\<exists>c tm_v a. now = Some c \<and> localtime_r c = Some tm_v \<and>
       mktime (tm_v\<lparr>tm_hour := sec_of_day sdiv 3600, tm_min := sec_of_day smod 3600 sdiv 60, tm_sec := sec_of_day smod 3600 smod 60\<rparr>) = Some a \<and>
       next_alarm a c abs_ts \<and> delta = abs_ts - c)"
proof (cases now)
  case (Some c)
  have "next_alarm a c (alarm_loop a c)" for a using alarm_loop_correct by (simp add: next_alarm_def)
  then show ?thesis using Some by (auto simp: neb_daytime_abs_nearest_def Let_def split: option.split)
qed (simp add: neb_daytime_abs_nearest_def)

text \<open>A timeout in milliseconds is computed in \<open>int\<close>: from 2148 ms on it overflows, and a
  duration of a second or more on top of a large nanosecond part of the current time gives a value that is not
  normalised; below a second the result is exact and normalised.\<close>

theorem abs_timeout_ms_bounds:
  assumes "valid_ts cur" "0 \<le> msec"
  shows "(msec < 1000 \<longrightarrow> (\<exists>t. neb_evdp_queue_get_abs_timeout_ms cur msec = Inr t \<and> valid_ts t \<and> ts_ns t = ts_ns cur + msec * 1000000)) \<and>
    (2148 \<le> msec \<longrightarrow> neb_evdp_queue_get_abs_timeout_ms cur msec = Inl SignedOverflow) \<and>
    (msec < 2148 \<and> 2000000000 \<le> tv_nsec cur + msec * 1000000 \<longrightarrow>
       (\<exists>t. neb_evdp_queue_get_abs_timeout_ms cur msec = Inr t \<and> \<not> valid_ts t))"
  using assms
  by (auto simp: neb_evdp_queue_get_abs_timeout_ms_def neb_evdp_queue_get_abs_timeout_def neb_timespecadd_def Let_def
      valid_ts_def ts_ns_def)

theorem abs_timeout_ms_bounds_witness:
  "neb_evdp_queue_get_abs_timeout_ms \<lparr>tv_sec = 7, tv_nsec = 900000000\<rparr> 3000 = Inl SignedOverflow"
  using abs_timeout_ms_bounds [of "\<lparr>tv_sec = 7, tv_nsec = 900000000\<rparr>" 3000] by (simp add: valid_ts_def)

end
