(* ===== verification/Neb_Evdp_Base.thy ===== *)
theory Neb_Evdp_Base
  imports Neb_Prelude Neb_Time
begin

text \<open>
  The state of the event dispatcher (\<^verbatim>\<open>src/src/evdp/core.h\<close>,
  \<^verbatim>\<open>src/src/evdp/io_base.h\<close>,
  \<^verbatim>\<open>src/src/evdp/sys_timer.h\<close> and the types of the epoll driver) and the list
  macros that move sources between the pending and the running list of a queue. Sources live in a
  heap from addresses to records, with the \<open>prev\<close> and \<open>next\<close> pointers of the
  source; reading a released source is a fault. The kernel and the user's callbacks are parameters:
  the kernel answers a system call from the calls before it, a callback maps the world to the
  world.
\<close>

section \<open>Types\<close>

datatype src_type = SOURCE_NONE | ITIMER_SEC | ITIMER_MSEC | ABSTIMER | RO_FD | OS_FD

datatype cb_ret = CB_CONTINUE | CB_REMOVE | CB_CLOSE | CB_BREAK_EXP | CB_BREAK_ERR | CB_END_FOREACH

datatype errno = EEXIST | ENOENT | EINTR | EINVAL | EOTHER

record itimerspec =
  it_interval :: timespec
  it_value :: timespec

datatype ctl_op = CTL_ADD | CTL_MOD | CTL_DEL

datatype syscall =
    EpollCreate
  | EpollCtl ctl_op int u32 "nat option"
  | EpollWait "timespec option"
  | TimerfdCreate
  | TimerfdSettime int bool itimerspec
  | ReadTimer int
  | CloseFd int
  | ClockGettime

text \<open>Answers: success, an error, a new descriptor, the fetched events with the pointers
  registered for them, the overrun counter of a timer, or a clock reading.\<close>

datatype sysret = SysOk | SysErr errno | SysFd int | SysEvents "(u32 \<times> nat option) list" | SysOverrun u64 | SysTime timespec

datatype on_remove = NoRemove | RemoveDel | RemoveUser nat

text \<open>The configuration of a source; handlers are identifiers of user callbacks.\<close>

datatype src_conf =
    ConfItimer u32 int "nat option"
  | ConfAbstimer u32 int "nat option"
  | ConfRoFd int nat nat
  | ConfFd int nat "nat option" "nat option"

text \<open>The context the epoll driver keeps for a source; the fields after \<open>added\<close> belong to
  timers and one-shot descriptors.\<close>

record evdp_source_context =
  ctl_events :: u32
  ctl_ptr :: "nat option"
  sc_ctl_op :: ctl_op
  added :: bool
  in_action :: bool
  timer_fd :: int
  its :: itimerspec
  in_callback :: bool

record neb_evdp_source =
  s_prev :: "nat option"
  s_next :: "nat option"
  q_in_use :: "nat option"
  src_type :: src_type
  s_foreach_id :: u32
  s_pending :: bool
  no_detach :: bool
  utype :: int
  udata :: nat
  s_conf :: "src_conf option"
  s_context :: "evdp_source_context option"
  s_on_remove :: on_remove

record evdp_queue_context =
  ep_fd :: int
  ee :: "(u32 \<times> nat option) list"

record neb_evdp_queue =
  q_self :: nat
  q_context :: "evdp_queue_context option"
  batch_size :: int
  nevents :: int
  current_event :: int
  q_foreach_id :: u32
  destroying :: bool
  in_foreach :: bool
  pending_qs :: "nat option"
  running_qs :: "nat option"
  cur_ts :: timespec
  event_call :: "nat option"
  batch_call :: "nat option"
  foreach_s :: "nat option"
  each_call :: "nat option"
  stats_rounds :: u64
  stats_events :: u64
  stats_pending :: int
  stats_running :: int

record world =
  queue_live :: bool
  queue :: neb_evdp_queue
  srcs :: "nat \<Rightarrow> neb_evdp_source option"
  trace :: "syscall list"
  thread_events :: u32

section \<open>Computations\<close>

type_synonym 'a evm = "('a, world) comp"

definition get_queue :: "neb_evdp_queue evm" where
  "get_queue w = (if queue_live w then Inr (queue w, w) else Inl UseAfterFree)"

definition upd_queue :: "(neb_evdp_queue \<Rightarrow> neb_evdp_queue) \<Rightarrow> unit evm" where
  "upd_queue f w = (if queue_live w then Inr ((), w\<lparr>queue := f (queue w)\<rparr>) else Inl UseAfterFree)"

definition free_queue :: "unit evm" where
  "free_queue w = (if queue_live w then Inr ((), w\<lparr>queue_live := False\<rparr>) else Inl UseAfterFree)"

definition get_src :: "nat \<Rightarrow> neb_evdp_source evm" where
  "get_src p w = (case srcs w p of None \<Rightarrow> Inl UseAfterFree | Some s \<Rightarrow> Inr (s, w))"

definition upd_src :: "nat \<Rightarrow> (neb_evdp_source \<Rightarrow> neb_evdp_source) \<Rightarrow> unit evm" where
  "upd_src p f w = (case srcs w p of None \<Rightarrow> Inl UseAfterFree
                    | Some s \<Rightarrow> Inr ((), w\<lparr>srcs := (srcs w)(p \<mapsto> f s)\<rparr>))"

definition free_src :: "nat \<Rightarrow> unit evm" where
  "free_src p w = (case srcs w p of None \<Rightarrow> Inl UseAfterFree | Some s \<Rightarrow> Inr ((), w\<lparr>srcs := (srcs w)(p := None)\<rparr>))"

text \<open>A write through a pointer that is only made when it is not null.\<close>

definition upd_src_opt :: "nat option \<Rightarrow> (neb_evdp_source \<Rightarrow> neb_evdp_source) \<Rightarrow> unit evm" where
  "upd_src_opt p f = (case p of None \<Rightarrow> eret () | Some a \<Rightarrow> upd_src a f)"

definition get_context :: "nat \<Rightarrow> evdp_source_context evm" where
  "get_context p = ebind (get_src p) (\<lambda>s. case s_context s of None \<Rightarrow> efail NullDeref | Some c \<Rightarrow> eret c)"

definition upd_context :: "nat \<Rightarrow> (evdp_source_context \<Rightarrow> evdp_source_context) \<Rightarrow> unit evm" where
  "upd_context p f = ebind (get_context p) (\<lambda>c. upd_src p (\<lambda>s. s\<lparr>s_context := Some (f c)\<rparr>))"

definition get_conf :: "nat \<Rightarrow> src_conf evm" where
  "get_conf p = ebind (get_src p) (\<lambda>s. case s_conf s of None \<Rightarrow> efail NullDeref | Some c \<Rightarrow> eret c)"

type_synonym kernel = "syscall list \<Rightarrow> syscall \<Rightarrow> sysret"

definition sys :: "kernel \<Rightarrow> syscall \<Rightarrow> sysret evm" where
  "sys k c w = Inr (k (trace w) c, w\<lparr>trace := c # trace w\<rparr>)"

lemma get_queue_app [evm_simps]: "queue_live w \<Longrightarrow> get_queue w = Inr (queue w, w)" by (simp add: get_queue_def)
lemma upd_queue_app [evm_simps]: "queue_live w \<Longrightarrow> upd_queue f w = Inr ((), w\<lparr>queue := f (queue w)\<rparr>)"
  by (simp add: upd_queue_def)
lemma free_src_Some [evm_simps]: "srcs w p = Some s \<Longrightarrow> free_src p w = Inr ((), w\<lparr>srcs := (srcs w)(p := None)\<rparr>)"
  by (simp add: free_src_def)
lemma get_src_Some [evm_simps]: "srcs w p = Some s \<Longrightarrow> get_src p w = Inr (s, w)"
  by (simp add: get_src_def)
lemma upd_src_Some [evm_simps]:
  "srcs w p = Some s \<Longrightarrow> upd_src p f w = Inr ((), w\<lparr>srcs := (srcs w)(p \<mapsto> f s)\<rparr>)"
  by (simp add: upd_src_def)
lemma upd_src_opt_simps [evm_simps]: "upd_src_opt None f = eret ()" "upd_src_opt (Some a) f = upd_src a f"
  by (simp_all add: upd_src_opt_def)
lemma get_context_Some [evm_simps]:
  "srcs w p = Some s \<Longrightarrow> s_context s = Some c \<Longrightarrow> get_context p w = Inr (c, w)"
  by (simp add: get_context_def evm_simps)
lemma upd_context_Some [evm_simps]:
  "srcs w p = Some s \<Longrightarrow> s_context s = Some c \<Longrightarrow>
   upd_context p f w = Inr ((), w\<lparr>srcs := (srcs w)(p \<mapsto> s\<lparr>s_context := Some (f c)\<rparr>)\<rparr>)"
  by (simp add: upd_context_def evm_simps)
lemma get_conf_Some [evm_simps]:
  "srcs w p = Some s \<Longrightarrow> s_conf s = Some c \<Longrightarrow> get_conf p w = Inr (c, w)"
  by (simp add: get_conf_def evm_simps)
lemma sys_app [evm_simps]: "sys k c w = Inr (k (trace w) c, w\<lparr>trace := c # trace w\<rparr>)"
  by (simp add: sys_def)

section \<open>The list macros\<close>

definition EVDP_SLIST_REMOVE :: "nat \<Rightarrow> unit evm" where
  "EVDP_SLIST_REMOVE s =
     ebind (get_src s) (\<lambda>sr.
     eseq (upd_src_opt (s_prev sr) (\<lambda>p. p\<lparr>s_next := s_next sr\<rparr>))
    (eseq (upd_src_opt (s_next sr) (\<lambda>n. n\<lparr>s_prev := s_prev sr\<rparr>))
          (upd_src s (\<lambda>x. x\<lparr>s_prev := None, s_next := None\<rparr>))))"

definition EVDP_SLIST_INSERT_AFTER :: "nat \<Rightarrow> nat \<Rightarrow> unit evm" where
  "EVDP_SLIST_INSERT_AFTER listm m =
     ebind (get_src listm) (\<lambda>l.
     eseq (upd_src_opt (s_next l) (\<lambda>n. n\<lparr>s_prev := Some m\<rparr>))
    (eseq (upd_src m (\<lambda>x. x\<lparr>s_next := s_next l\<rparr>))
    (eseq (upd_src listm (\<lambda>x. x\<lparr>s_next := Some m\<rparr>))
          (upd_src m (\<lambda>x. x\<lparr>s_prev := Some listm\<rparr>)))))"

text \<open>Insertion of \<open>s\<close> behind the list head \<open>h\<close>, the common part of the two
  macros below.\<close>

definition slist_insert_head :: "nat \<Rightarrow> nat \<Rightarrow> unit evm" where
  "slist_insert_head h s =
     ebind (get_src h) (\<lambda>hd.
     eseq (upd_src s (\<lambda>x. x\<lparr>s_next := s_next hd, s_prev := Some h\<rparr>))
    (eseq (upd_src h (\<lambda>x. x\<lparr>s_next := Some s\<rparr>))
          (upd_src_opt (s_next hd) (\<lambda>n. n\<lparr>s_prev := Some s\<rparr>))))"

definition EVDP_SLIST_PENDING_INSERT :: "nat \<Rightarrow> unit evm" where
  "EVDP_SLIST_PENDING_INSERT s =
     ebind get_queue (\<lambda>q. ebind (deref (pending_qs q)) (\<lambda>h.
     eseq (slist_insert_head h s)
    (eseq (upd_src s (\<lambda>x. x\<lparr>s_pending := True\<rparr>))
          (upd_queue (\<lambda>q. q\<lparr>stats_pending := stats_pending q + 1\<rparr>)))))"

definition EVDP_SLIST_RUNNING_INSERT_NO_STATS :: "nat \<Rightarrow> unit evm" where
  "EVDP_SLIST_RUNNING_INSERT_NO_STATS s =
     ebind get_queue (\<lambda>q. ebind (deref (running_qs q)) (\<lambda>h.
     eseq (slist_insert_head h s)
          (upd_src s (\<lambda>x. x\<lparr>s_pending := False\<rparr>))))"

definition EVDP_SLIST_RUNNING_INSERT :: "nat \<Rightarrow> unit evm" where
  "EVDP_SLIST_RUNNING_INSERT s =
     eseq (EVDP_SLIST_RUNNING_INSERT_NO_STATS s)
          (upd_queue (\<lambda>q. q\<lparr>stats_running := stats_running q + 1\<rparr>))"

section \<open>Doubly linked lists\<close>

type_synonym heap = "nat \<Rightarrow> neb_evdp_source option"

text \<open>The sources \<open>xs\<close> are linked in this order, the first one's \<open>prev\<close> being
  \<open>pr\<close>.\<close>

fun dseg :: "heap \<Rightarrow> nat option \<Rightarrow> nat list \<Rightarrow> nat option \<Rightarrow> bool" where
  "dseg h pr [] nx = True"
| "dseg h pr (x # xs) nx =
     ((case h x of None \<Rightarrow> False
       | Some s \<Rightarrow> s_prev s = pr \<and> s_next s = (case xs of [] \<Rightarrow> nx | y # ys \<Rightarrow> Some y)) \<and>
      dseg h (Some x) xs nx)"

lemma dseg_cong: "(\<And>x. x \<in> set xs \<Longrightarrow> h' x = h x) \<Longrightarrow> dseg h' pr xs nx = dseg h pr xs nx"
  by (induction xs arbitrary: pr) (auto split: option.split list.split)

lemma dseg_append:
  "dseg h pr (xs @ y # ys) nx \<longleftrightarrow> dseg h pr xs (Some y) \<and> dseg h (if xs = [] then pr else Some (last xs)) (y # ys) nx"
  by (induction xs arbitrary: pr) (auto split: option.splits list.splits)

lemma dseg_live: "dseg h pr xs nx \<Longrightarrow> x \<in> set xs \<Longrightarrow> \<exists>s. h x = Some s"
  by (induction xs arbitrary: pr) (auto split: option.splits)

text \<open>The heaps differ in links only.\<close>

definition unlinked :: "neb_evdp_source \<Rightarrow> neb_evdp_source" where
  "unlinked s = s\<lparr>s_prev := None, s_next := None\<rparr>"

definition links_only :: "heap \<Rightarrow> heap \<Rightarrow> bool" where
  "links_only h h' \<longleftrightarrow> (\<forall>x. map_option unlinked (h x) = map_option unlinked (h' x))"

lemma unlinked_upd [simp]: "unlinked (s\<lparr>s_prev := p\<rparr>) = unlinked s" "unlinked (s\<lparr>s_next := n\<rparr>) = unlinked s"
  "unlinked (s\<lparr>s_next := n, s_prev := p\<rparr>) = unlinked s"
  by (simp_all add: unlinked_def)

lemma links_only_refl [simp]: "links_only h h"
  by (simp add: links_only_def)

lemma links_only_trans: "links_only h h' \<Longrightarrow> links_only h' h'' \<Longrightarrow> links_only h h''"
  by (simp add: links_only_def)

lemma links_only_upd: "links_only h h' \<Longrightarrow> h' x = Some s \<Longrightarrow> unlinked t = unlinked s \<Longrightarrow> links_only h (h'(x \<mapsto> t))"
  by (auto simp: links_only_def dest: spec [of _ x])

end
