(* ===== verification/Neb_Evdp_Lists.thy ===== *)
theory Neb_Evdp_Lists
  imports Neb_Evdp_Base
begin

text \<open>
  Correctness of the list macros of the event dispatcher: what they do to the doubly linked
  pending and running lists of a queue, and that they change nothing else.
\<close>

lemma dseg_frame: "dseg h pr xs nx \<Longrightarrow> (\<And>x. x \<in> set xs \<Longrightarrow> h' x = h x) \<Longrightarrow> dseg h' pr xs nx"
  using dseg_cong by blast

lemma dseg_upd_other: "x \<notin> set xs \<Longrightarrow> dseg (h(x \<mapsto> s)) pr xs nx = dseg h pr xs nx"
  by (rule dseg_cong) auto

lemma slist_remove:
  assumes seg: "dseg (srcs w) None (A @ x # B) None" and dist: "distinct (A @ x # B)" and ne: "A \<noteq> []"
  shows "\<exists>h'. EVDP_SLIST_REMOVE x w = Inr ((), w\<lparr>srcs := h'\<rparr>) \<and> dseg h' None (A @ B) None \<and>
    links_only (srcs w) h' \<and> (\<forall>y. y \<notin> set (A @ x # B) \<longrightarrow> h' y = srcs w y) \<and>
    (\<exists>s. h' x = Some s \<and> s_prev s = None \<and> s_next s = None)"
proof -
  obtain A' a where A: "A = A' @ [a]" using ne by (cases A rule: rev_cases) auto
  let ?h = "srcs w" and ?pa = "if A' = [] then None else Some (last A')"
  have segs: "dseg ?h None A' (Some a)" "dseg ?h ?pa (a # x # B) None"
    using seg dseg_append [of ?h None A' a "x # B" None] by (simp_all add: A)
  then obtain sa sx where sa: "?h a = Some sa" "s_prev sa = ?pa" "s_next sa = Some x"
    and sx: "?h x = Some sx" "s_prev sx = Some a" "s_next sx = (case B of [] \<Rightarrow> None | y # ys \<Rightarrow> Some y)"
    and segB: "dseg ?h (Some x) B None"
    by (auto split: option.splits)
  show ?thesis
  proof (cases B)
    case Nil
    let ?h' = "?h(a \<mapsto> sa\<lparr>s_next := None\<rparr>, x \<mapsto> sx\<lparr>s_prev := None, s_next := None\<rparr>)"
    have "EVDP_SLIST_REMOVE x w = Inr ((), w\<lparr>srcs := ?h'\<rparr>)"
      using sa sx dist Nil by (simp add: EVDP_SLIST_REMOVE_def evm_simps A)
    moreover have "dseg ?h' None (A @ B) None"
      using segs sa dist Nil dseg_append [of ?h' None A' a "[]" None] by (auto simp: A dseg_upd_other)
    moreover have "links_only ?h ?h'" using sa sx dist by (auto simp: A intro!: links_only_upd links_only_refl)
    ultimately show ?thesis by (intro exI [of _ ?h']) (auto simp: A)
  next
    case (Cons b B')
    then obtain sb where sb: "?h b = Some sb" "s_prev sb = Some x" "s_next sb = (case B' of [] \<Rightarrow> None | y # ys \<Rightarrow> Some y)"
      and segB': "dseg ?h (Some b) B' None"
      using segB by (auto split: option.splits)
    let ?h' = "?h(a \<mapsto> sa\<lparr>s_next := Some b\<rparr>, b \<mapsto> sb\<lparr>s_prev := Some a\<rparr>, x \<mapsto> sx\<lparr>s_prev := None, s_next := None\<rparr>)"
    have "EVDP_SLIST_REMOVE x w = Inr ((), w\<lparr>srcs := ?h'\<rparr>)"
      using sa sx sb dist Cons by (simp add: EVDP_SLIST_REMOVE_def evm_simps A)
    moreover have "dseg ?h' None (A @ B) None"
      using segs sa sb segB' dist Cons dseg_append [of ?h' None A' a "b # B'" None] by (auto simp: A dseg_upd_other)
    moreover have "links_only ?h ?h'" using sa sx sb dist Cons by (auto simp: A intro!: links_only_upd links_only_refl)
    ultimately show ?thesis by (intro exI [of _ ?h']) (auto simp: A Cons)
  qed
qed

lemma slist_insert_head:
  assumes seg: "dseg (srcs w) None (hd0 # B) None" and dist: "distinct (hd0 # B)" and x: "x \<notin> set (hd0 # B)" "srcs w x = Some sx"
  shows "\<exists>h'. slist_insert_head hd0 x w = Inr ((), w\<lparr>srcs := h'\<rparr>) \<and> dseg h' None (hd0 # x # B) None \<and>
    links_only (srcs w) h' \<and> (\<forall>y. y \<notin> set (hd0 # x # B) \<longrightarrow> h' y = srcs w y)"
proof -
  let ?h = "srcs w"
  obtain sh where sh: "?h hd0 = Some sh" "s_prev sh = None" "s_next sh = (case B of [] \<Rightarrow> None | y # ys \<Rightarrow> Some y)"
    and segB: "dseg ?h (Some hd0) B None"
    using seg by (auto split: option.splits)
  show ?thesis
  proof (cases B)
    case Nil
    let ?h' = "?h(x \<mapsto> sx\<lparr>s_next := None, s_prev := Some hd0\<rparr>, hd0 \<mapsto> sh\<lparr>s_next := Some x\<rparr>)"
    have "slist_insert_head hd0 x w = Inr ((), w\<lparr>srcs := ?h'\<rparr>)"
      using sh x Nil by (simp add: slist_insert_head_def evm_simps)
    moreover have "links_only ?h ?h'" using sh x by (auto intro!: links_only_upd links_only_refl)
    ultimately show ?thesis using Nil x sh by (intro exI [of _ ?h']) auto
  next
    case (Cons b B')
    then obtain sb where sb: "?h b = Some sb" "s_prev sb = Some hd0" "s_next sb = (case B' of [] \<Rightarrow> None | y # ys \<Rightarrow> Some y)"
      and segB': "dseg ?h (Some b) B' None"
      using segB by (auto split: option.splits)
    let ?h' = "?h(x \<mapsto> sx\<lparr>s_next := Some b, s_prev := Some hd0\<rparr>, hd0 \<mapsto> sh\<lparr>s_next := Some x\<rparr>, b \<mapsto> sb\<lparr>s_prev := Some x\<rparr>)"
    have "slist_insert_head hd0 x w = Inr ((), w\<lparr>srcs := ?h'\<rparr>)"
      using sh x sb dist Cons by (simp add: slist_insert_head_def evm_simps)
    moreover have "links_only ?h ?h'" using sh x sb dist Cons by (auto intro!: links_only_upd links_only_refl)
    moreover have "dseg ?h' None (hd0 # x # B) None"
      using Cons x sh sb segB' dist by (auto simp: dseg_upd_other)
    ultimately show ?thesis using Cons by (intro exI [of _ ?h']) auto
  qed
qed

lemma slist_insert_after:
  assumes seg: "dseg (srcs w) None (A @ y # B) None" and dist: "distinct (A @ y # B)"
    and x: "x \<notin> set (A @ y # B)" "srcs w x = Some sx"
  shows "\<exists>h'. EVDP_SLIST_INSERT_AFTER y x w = Inr ((), w\<lparr>srcs := h'\<rparr>) \<and> dseg h' None (A @ y # x # B) None \<and>
    links_only (srcs w) h' \<and> (\<forall>z. z \<notin> set (A @ y # x # B) \<longrightarrow> h' z = srcs w z)"
proof -
  let ?h = "srcs w" and ?pa = "if A = [] then None else Some (last A)"
  have segs: "dseg ?h None A (Some y)" "dseg ?h ?pa (y # B) None"
    using seg dseg_append [of ?h None A y B None] by simp_all
  then obtain sy where sy: "?h y = Some sy" "s_prev sy = ?pa" "s_next sy = (case B of [] \<Rightarrow> None | y # ys \<Rightarrow> Some y)"
    and segB: "dseg ?h (Some y) B None"
    by (auto split: option.splits)
  show ?thesis
  proof (cases B)
    case Nil
    let ?h' = "?h(x \<mapsto> sx\<lparr>s_next := None\<rparr>, y \<mapsto> sy\<lparr>s_next := Some x\<rparr>, x \<mapsto> sx\<lparr>s_next := None, s_prev := Some y\<rparr>)"
    have "EVDP_SLIST_INSERT_AFTER y x w = Inr ((), w\<lparr>srcs := ?h'\<rparr>)"
      using sy x Nil by (auto simp: EVDP_SLIST_INSERT_AFTER_def evm_simps)
    moreover have "links_only ?h ?h'" using sy x by (auto intro!: links_only_upd links_only_refl)
    moreover have "dseg ?h' None (A @ y # x # B) None"
      using segs sy dist x Nil dseg_append [of ?h' None A y "[x]" None] by (auto simp: dseg_upd_other)
    ultimately show ?thesis by (intro exI [of _ ?h']) auto
  next
    case (Cons b B')
    then obtain sb where sb: "?h b = Some sb" "s_prev sb = Some y" "s_next sb = (case B' of [] \<Rightarrow> None | y # ys \<Rightarrow> Some y)"
      and segB': "dseg ?h (Some b) B' None"
      using segB by (auto split: option.splits)
    let ?h' = "?h(b \<mapsto> sb\<lparr>s_prev := Some x\<rparr>, x \<mapsto> sx\<lparr>s_next := Some b\<rparr>, y \<mapsto> sy\<lparr>s_next := Some x\<rparr>, x \<mapsto> sx\<lparr>s_next := Some b, s_prev := Some y\<rparr>)"
    have "EVDP_SLIST_INSERT_AFTER y x w = Inr ((), w\<lparr>srcs := ?h'\<rparr>)"
      using sy x sb dist Cons by (auto simp: EVDP_SLIST_INSERT_AFTER_def evm_simps)
    moreover have "links_only ?h ?h'" using sy x sb dist Cons by (auto intro!: links_only_upd links_only_refl)
    moreover have "dseg ?h' None (A @ y # x # B) None"
      using segs sy sb segB' dist x Cons dseg_append [of ?h' None A y "x # b # B'" None] by (auto simp: dseg_upd_other)
    ultimately show ?thesis by (intro exI [of _ ?h']) (auto simp: Cons)
  qed
qed

section \<open>The two lists of a queue\<close>

text \<open>Running and pending list as pointer structures, and the rest of the heap's data, which link
  surgery does not change.\<close>

definition qlists :: "heap \<Rightarrow> nat \<Rightarrow> nat \<Rightarrow> nat list \<Rightarrow> nat list \<Rightarrow> bool" where
  "qlists h r0 p0 rs ps \<longleftrightarrow> distinct (r0 # p0 # rs @ ps) \<and> dseg h None (r0 # rs) None \<and> dseg h None (p0 # ps) None"

definition data :: "heap \<Rightarrow> heap" where "data h x = map_option unlinked (h x)"

lemma links_only_data: "links_only h h' \<longleftrightarrow> data h' = data h"
  by (auto simp: links_only_def data_def fun_eq_iff)

lemma data_upd [simp]: "data (h(x \<mapsto> s)) = (data h)(x \<mapsto> unlinked s)"
  by (auto simp: data_def fun_eq_iff)

lemma data_None [simp]: "data (h(x := None)) = (data h)(x := None)"
  by (auto simp: data_def fun_eq_iff)

lemma data_Some: "h x = Some s \<Longrightarrow> data h x = Some (unlinked s)"
  by (simp add: data_def)

lemma data_SomeE: "data h x = Some s \<Longrightarrow> (\<And>t. h x = Some t \<Longrightarrow> s = unlinked t \<Longrightarrow> P) \<Longrightarrow> P"
  by (auto simp: data_def)

lemma unlinked_sel [simp]:
  "q_in_use (unlinked s) = q_in_use s" "src_type (unlinked s) = src_type s" "s_pending (unlinked s) = s_pending s"
  "s_context (unlinked s) = s_context s" "s_conf (unlinked s) = s_conf s" "utype (unlinked s) = utype s"
  "s_foreach_id (unlinked s) = s_foreach_id s" "no_detach (unlinked s) = no_detach s"
  "s_on_remove (unlinked s) = s_on_remove s" "unlinked (unlinked s) = unlinked s"
  by (simp_all add: unlinked_def)

lemma unlinked_push [simp]:
  "unlinked (s\<lparr>s_pending := b\<rparr>) = (unlinked s)\<lparr>s_pending := b\<rparr>"
  "unlinked (s\<lparr>q_in_use := u\<rparr>) = (unlinked s)\<lparr>q_in_use := u\<rparr>"
  "unlinked (s\<lparr>s_context := c\<rparr>) = (unlinked s)\<lparr>s_context := c\<rparr>"
  "unlinked (s\<lparr>s_conf := cf\<rparr>) = (unlinked s)\<lparr>s_conf := cf\<rparr>"
  "unlinked (s\<lparr>s_foreach_id := i\<rparr>) = (unlinked s)\<lparr>s_foreach_id := i\<rparr>"
  "unlinked (s\<lparr>no_detach := b\<rparr>) = (unlinked s)\<lparr>no_detach := b\<rparr>"
  by (simp_all add: unlinked_def)

lemma dseg_relink:
  "h x = Some s \<Longrightarrow> s_prev t = s_prev s \<Longrightarrow> s_next t = s_next s \<Longrightarrow> dseg (h(x \<mapsto> t)) pr xs nx = dseg h pr xs nx"
  by (induction xs arbitrary: pr) (auto split: option.split list.split)

lemma qlists_relink:
  "h x = Some s \<Longrightarrow> s_prev t = s_prev s \<Longrightarrow> s_next t = s_next s \<Longrightarrow> qlists (h(x \<mapsto> t)) r0 p0 rs ps = qlists h r0 p0 rs ps"
  by (simp add: qlists_def dseg_relink del: dseg.simps)

lemma qlists_other:
  "x \<notin> set (r0 # p0 # rs @ ps) \<Longrightarrow> qlists (h(x := v)) r0 p0 rs ps = qlists h r0 p0 rs ps"
proof -
  assume x: "x \<notin> set (r0 # p0 # rs @ ps)"
  have "dseg (h(x := v)) None (r0 # rs) None = dseg h None (r0 # rs) None"
    by (rule dseg_cong) (use x in auto)
  moreover have "dseg (h(x := v)) None (p0 # ps) None = dseg h None (p0 # ps) None"
    by (rule dseg_cong) (use x in auto)
  ultimately show ?thesis by (simp only: qlists_def)
qed

lemma qlists_remove:
  assumes q: "qlists (srcs w) r0 p0 rs ps" and x: "x \<in> set rs \<union> set ps"
  shows "\<exists>h'. EVDP_SLIST_REMOVE x w = Inr ((), w\<lparr>srcs := h'\<rparr>) \<and> qlists h' r0 p0 (remove1 x rs) (remove1 x ps) \<and>
    data h' = data (srcs w) \<and> (\<exists>s. h' x = Some s \<and> s_prev s = None \<and> s_next s = None)"
proof (cases "x \<in> set rs")
  case True
  then obtain A B where AB: "rs = A @ x # B" "x \<notin> set A" by (meson split_list_first)
  have d: "distinct (r0 # p0 # rs @ ps)" and seg: "dseg (srcs w) None (r0 # rs) None" "dseg (srcs w) None (p0 # ps) None"
    using q by (simp_all add: qlists_def del: dseg.simps)
  obtain h' where h': "EVDP_SLIST_REMOVE x w = Inr ((), w\<lparr>srcs := h'\<rparr>)" "dseg h' None ((r0 # A) @ B) None"
    "links_only (srcs w) h'" "\<forall>y. y \<notin> set ((r0 # A) @ x # B) \<longrightarrow> h' y = srcs w y"
    "\<exists>s. h' x = Some s \<and> s_prev s = None \<and> s_next s = None"
    using slist_remove [of w "r0 # A" x B] seg(1) d by (auto simp: AB)
  have "dseg h' None (p0 # ps) None" by (rule dseg_frame [OF seg(2)]) (use h'(4) d AB in auto)
  then have "qlists h' r0 p0 (remove1 x rs) (remove1 x ps)"
    using h'(2) d AB by (auto simp: qlists_def remove1_append remove1_idem)
  then show ?thesis using h' by (auto simp: links_only_data)
next
  case False
  then obtain A B where AB: "ps = A @ x # B" "x \<notin> set A" using x by (meson UnE split_list_first)
  have d: "distinct (r0 # p0 # rs @ ps)" and seg: "dseg (srcs w) None (r0 # rs) None" "dseg (srcs w) None (p0 # ps) None"
    using q by (simp_all add: qlists_def del: dseg.simps)
  obtain h' where h': "EVDP_SLIST_REMOVE x w = Inr ((), w\<lparr>srcs := h'\<rparr>)" "dseg h' None ((p0 # A) @ B) None"
    "links_only (srcs w) h'" "\<forall>y. y \<notin> set ((p0 # A) @ x # B) \<longrightarrow> h' y = srcs w y"
    "\<exists>s. h' x = Some s \<and> s_prev s = None \<and> s_next s = None"
    using slist_remove [of w "p0 # A" x B] seg(2) d by (auto simp: AB)
  have "dseg h' None (r0 # rs) None" by (rule dseg_frame [OF seg(1)]) (use h'(4) d AB in auto)
  then have "qlists h' r0 p0 (remove1 x rs) (remove1 x ps)"
    using h'(2) d AB by (auto simp: qlists_def remove1_append remove1_idem)
  then show ?thesis using h' by (auto simp: links_only_data)
qed

lemma qlists_insert_running:
  assumes q: "qlists (srcs w) r0 p0 rs ps" and x: "x \<notin> set (r0 # p0 # rs @ ps)" "srcs w x = Some sx"
  shows "\<exists>h'. slist_insert_head r0 x w = Inr ((), w\<lparr>srcs := h'\<rparr>) \<and> qlists h' r0 p0 (x # rs) ps \<and> data h' = data (srcs w)"
proof -
  have d: "distinct (r0 # p0 # rs @ ps)" and seg: "dseg (srcs w) None (r0 # rs) None" "dseg (srcs w) None (p0 # ps) None"
    using q by (simp_all add: qlists_def del: dseg.simps)
  obtain h' where h': "slist_insert_head r0 x w = Inr ((), w\<lparr>srcs := h'\<rparr>)" "dseg h' None (r0 # x # rs) None"
    "links_only (srcs w) h'" "\<forall>y. y \<notin> set (r0 # x # rs) \<longrightarrow> h' y = srcs w y"
    using slist_insert_head [OF seg(1), of x sx] d x by auto
  have "dseg h' None (p0 # ps) None" by (rule dseg_frame [OF seg(2)]) (use h'(4) d x in auto)
  then have "qlists h' r0 p0 (x # rs) ps" using h'(2) d x by (simp add: qlists_def del: dseg.simps)
  then show ?thesis using h'(1,3) by (auto simp: links_only_data)
qed

lemma qlists_insert_pending:
  assumes q: "qlists (srcs w) r0 p0 rs ps" and x: "x \<notin> set (r0 # p0 # rs @ ps)" "srcs w x = Some sx"
  shows "\<exists>h'. slist_insert_head p0 x w = Inr ((), w\<lparr>srcs := h'\<rparr>) \<and> qlists h' r0 p0 rs (x # ps) \<and> data h' = data (srcs w)"
proof -
  have d: "distinct (r0 # p0 # rs @ ps)" and seg: "dseg (srcs w) None (r0 # rs) None" "dseg (srcs w) None (p0 # ps) None"
    using q by (simp_all add: qlists_def del: dseg.simps)
  obtain h' where h': "slist_insert_head p0 x w = Inr ((), w\<lparr>srcs := h'\<rparr>)" "dseg h' None (p0 # x # ps) None"
    "links_only (srcs w) h'" "\<forall>y. y \<notin> set (p0 # x # ps) \<longrightarrow> h' y = srcs w y"
    using slist_insert_head [OF seg(2), of x sx] d x by auto
  have "dseg h' None (r0 # rs) None" by (rule dseg_frame [OF seg(1)]) (use h'(4) d x in auto)
  then have "qlists h' r0 p0 rs (x # ps)" using h'(2) d x by (simp add: qlists_def del: dseg.simps)
  then show ?thesis using h'(1,3) by (auto simp: links_only_data)
qed

lemma pending_insert:
  assumes "queue_live w" "pending_qs (queue w) = Some p0" "qlists (srcs w) r0 p0 rs ps"
    "x \<notin> set (r0 # p0 # rs @ ps)" "srcs w x = Some sx"
  shows "\<exists>h'. EVDP_SLIST_PENDING_INSERT x w =
      Inr ((), w\<lparr>srcs := h', queue := (queue w)\<lparr>stats_pending := stats_pending (queue w) + 1\<rparr>\<rparr>) \<and>
    qlists h' r0 p0 rs (x # ps) \<and> data h' = (data (srcs w))(x \<mapsto> unlinked (sx\<lparr>s_pending := True\<rparr>))"
proof -
  obtain h' where h': "slist_insert_head p0 x w = Inr ((), w\<lparr>srcs := h'\<rparr>)" "qlists h' r0 p0 rs (x # ps)"
    "data h' = data (srcs w)"
    using qlists_insert_pending [OF assms(3-5)] by auto
  moreover obtain t where t: "h' x = Some t" "unlinked t = unlinked sx"
    using h'(3) assms(5) by (metis data_Some data_SomeE)
  moreover have "unlinked (t\<lparr>s_pending := True\<rparr>) = unlinked (sx\<lparr>s_pending := True\<rparr>)"
    using t(2) by simp
  ultimately show ?thesis
    using assms(1,2) by (intro exI [of _ "h'(x \<mapsto> t\<lparr>s_pending := True\<rparr>)"]) (simp add: EVDP_SLIST_PENDING_INSERT_def evm_simps qlists_relink)
qed

lemma running_insert_no_stats:
  assumes "queue_live w" "running_qs (queue w) = Some r0" "qlists (srcs w) r0 p0 rs ps"
    "x \<notin> set (r0 # p0 # rs @ ps)" "srcs w x = Some sx"
  shows "\<exists>h'. EVDP_SLIST_RUNNING_INSERT_NO_STATS x w = Inr ((), w\<lparr>srcs := h'\<rparr>) \<and>
    qlists h' r0 p0 (x # rs) ps \<and> data h' = (data (srcs w))(x \<mapsto> unlinked (sx\<lparr>s_pending := False\<rparr>))"
proof -
  obtain h' where h': "slist_insert_head r0 x w = Inr ((), w\<lparr>srcs := h'\<rparr>)" "qlists h' r0 p0 (x # rs) ps"
    "data h' = data (srcs w)"
    using qlists_insert_running [OF assms(3-5)] by auto
  moreover obtain t where t: "h' x = Some t" "unlinked t = unlinked sx"
    using h'(3) assms(5) by (metis data_Some data_SomeE)
  moreover have "unlinked (t\<lparr>s_pending := False\<rparr>) = unlinked (sx\<lparr>s_pending := False\<rparr>)"
    using t(2) by simp
  ultimately show ?thesis
    using assms(1,2) by (intro exI [of _ "h'(x \<mapsto> t\<lparr>s_pending := False\<rparr>)"]) (simp add: EVDP_SLIST_RUNNING_INSERT_NO_STATS_def evm_simps qlists_relink)
qed

lemma running_insert:
  assumes "queue_live w" "running_qs (queue w) = Some r0" "qlists (srcs w) r0 p0 rs ps"
    "x \<notin> set (r0 # p0 # rs @ ps)" "srcs w x = Some sx"
  shows "\<exists>h'. EVDP_SLIST_RUNNING_INSERT x w =
      Inr ((), w\<lparr>srcs := h', queue := (queue w)\<lparr>stats_running := stats_running (queue w) + 1\<rparr>\<rparr>) \<and>
    qlists h' r0 p0 (x # rs) ps \<and> data h' = (data (srcs w))(x \<mapsto> unlinked (sx\<lparr>s_pending := False\<rparr>))"
  using running_insert_no_stats [OF assms] assms(1) by (auto simp: EVDP_SLIST_RUNNING_INSERT_def evm_simps)

end
