(* ===== verification/Neb_Epoll.thy ===== *)
theory Neb_Epoll
  imports Neb_Evdp_Base
begin

text \<open>
  Model of the epoll driver of the event dispatcher:
  \<^verbatim>\<open>queue.c\<close>, \<^verbatim>\<open>source_itimer.c\<close>,
  \<^verbatim>\<open>source_abstimer.c\<close>, \<^verbatim>\<open>source_ro_fd.c\<close> and
  \<^verbatim>\<open>source_os_fd.c\<close> under
  \<^verbatim>\<open>src/src/evdp/driver/epoll\<close>. The functions return the C return value; a
  failed system call is the kernel's answer, and user callbacks are called through the argument
  \<open>call\<close>.
\<close>

type_synonym callbacks = "nat \<Rightarrow> nat \<Rightarrow> cb_ret evm"

definition EPOLLIN :: u32 where "EPOLLIN = 1"
definition EPOLLOUT :: u32 where "EPOLLOUT = 4"
definition EPOLLHUP :: u32 where "EPOLLHUP = 16"
definition EPOLLONESHOT :: u32 where "EPOLLONESHOT = 0x40000000"

abbreviation has_event :: "u32 \<Rightarrow> u32 \<Rightarrow> bool" where "has_event e b \<equiv> e AND b \<noteq> 0"

text \<open>A system call whose only answers are success and failure.\<close>

definition sys_ok :: "kernel \<Rightarrow> syscall \<Rightarrow> errno option evm" where
  "sys_ok k c = ebind (sys k c) (\<lambda>r. eret (case r of SysErr e \<Rightarrow> Some e | SysOk \<Rightarrow> None | _ \<Rightarrow> Some EOTHER))"

definition queue_context :: "evdp_queue_context evm" where
  "queue_context = ebind get_queue (\<lambda>q. case q_context q of None \<Rightarrow> efail NullDeref | Some c \<Rightarrow> eret c)"

section \<open>The queue\<close>

definition evdp_destroy_queue_context :: "kernel \<Rightarrow> evdp_queue_context \<Rightarrow> unit evm" where
  "evdp_destroy_queue_context k c =
     ewhen (0 \<le> ep_fd c) (ebind (sys k (CloseFd (ep_fd c))) (\<lambda>_. eret ()))"

text \<open>\<open>ee0\<close> is the uninitialised event array, \<open>None\<close> its failed allocation.\<close>

definition evdp_create_queue_context ::
  "kernel \<Rightarrow> bool \<Rightarrow> (u32 \<times> nat option) list option \<Rightarrow> evdp_queue_context option evm" where
  "evdp_create_queue_context k calloc_ok ee0 =
     (if \<not> calloc_ok then eret None
      else case ee0 of
        None \<Rightarrow> eseq (evdp_destroy_queue_context k \<lparr>ep_fd = -1, ee = []\<rparr>) (eret None)
      | Some e \<Rightarrow> ebind (sys k EpollCreate) (\<lambda>r. case r of
            SysFd fd \<Rightarrow> eret (Some \<lparr>ep_fd = fd, ee = e\<rparr>)
          | _ \<Rightarrow> eseq (evdp_destroy_queue_context k \<lparr>ep_fd = -1, ee = e\<rparr>) (eret None)))"

definition rm_events :: "nat \<Rightarrow> nat \<Rightarrow> nat \<Rightarrow> (u32 \<times> nat option) list \<Rightarrow> (u32 \<times> nat option) list" where
  "rm_events s cur nev evs =
     foldl (\<lambda>e i. if snd (e ! i) = Some s then e[i := (fst (e ! i), None)] else e) evs [cur..<nev]"

definition evdp_queue_rm_pending_events :: "nat \<Rightarrow> unit evm" where
  "evdp_queue_rm_pending_events s =
     ebind get_queue (\<lambda>q. ebind queue_context (\<lambda>c.
       if int (length (ee c)) < nevents q then efail OutOfBounds
       else upd_queue (\<lambda>q. q\<lparr>q_context := Some (c\<lparr>ee := rm_events s (nat (current_event q)) (nat (nevents q)) (ee c)\<rparr>)\<rparr>)))"

definition evdp_queue_wait_events :: "kernel \<Rightarrow> timespec option \<Rightarrow> int evm" where
  "evdp_queue_wait_events k timeout =
     ebind queue_context (\<lambda>c. ebind (sys k (EpollWait timeout)) (\<lambda>r. case r of
       SysEvents evs \<Rightarrow>
         eseq (upd_queue (\<lambda>q. q\<lparr>nevents := int (length evs),
                                 q_context := Some (c\<lparr>ee := evs @ drop (length evs) (ee c)\<rparr>)\<rparr>)) (eret 0)
     | SysErr EINTR \<Rightarrow> eseq (upd_queue (\<lambda>q. q\<lparr>nevents := 0\<rparr>)) (eret 0)
     | _ \<Rightarrow> eseq (upd_queue (\<lambda>q. q\<lparr>nevents := -1\<rparr>)) (eret (-1))))"

definition evdp_queue_fetch_event :: "(u32 \<times> nat option) evm" where
  "evdp_queue_fetch_event =
     ebind get_queue (\<lambda>q. ebind queue_context (\<lambda>c.
       if current_event q < 0 \<or> int (length (ee c)) \<le> current_event q then efail OutOfBounds
       else eret (ee c ! nat (current_event q))))"

definition evdp_queue_finish_event :: "unit evm" where
  "evdp_queue_finish_event = eret ()"

text \<open>The descriptor a source is registered with.\<close>

definition source_fd :: "nat \<Rightarrow> int option evm" where
  "source_fd s =
     ebind (get_src s) (\<lambda>sr. case src_type sr of
       ITIMER_SEC \<Rightarrow> ebind (get_context s) (\<lambda>c. eret (Some (timer_fd c)))
     | ITIMER_MSEC \<Rightarrow> ebind (get_context s) (\<lambda>c. eret (Some (timer_fd c)))
     | ABSTIMER \<Rightarrow> ebind (get_context s) (\<lambda>c. eret (Some (timer_fd c)))
     | RO_FD \<Rightarrow> ebind (get_conf s) (\<lambda>c. case c of ConfRoFd fd h r \<Rightarrow> eret (Some fd) | _ \<Rightarrow> eret None)
     | OS_FD \<Rightarrow> ebind (get_conf s) (\<lambda>c. case c of ConfFd fd h r w \<Rightarrow> eret (Some fd) | _ \<Rightarrow> eret None)
     | SOURCE_NONE \<Rightarrow> eret None)"

text \<open>The loop of \<^verbatim>\<open>evdp_queue_flush_pending_sources\<close>; it returns the C
  result and the number of sources moved.\<close>

fun flush_pending_loop :: "kernel \<Rightarrow> nat \<Rightarrow> int \<Rightarrow> (int \<times> int) evm" where
  "flush_pending_loop k 0 cnt = efail NoEnd"
| "flush_pending_loop k (Suc fuel) cnt =
     ebind get_queue (\<lambda>q. ebind (deref (pending_qs q)) (\<lambda>h. ebind (get_src h) (\<lambda>hs.
       case s_next hs of
         None \<Rightarrow> eret (0, cnt)
       | Some s \<Rightarrow>
           ebind (source_fd s) (\<lambda>fdo. case fdo of
             None \<Rightarrow> eret (-1, cnt)
           | Some fd \<Rightarrow>
               ebind (get_context s) (\<lambda>sc.
               ebind (sys_ok k (EpollCtl (sc_ctl_op sc) fd (ctl_events sc) (ctl_ptr sc))) (\<lambda>err. case err of
                 Some e \<Rightarrow> eret (-1, cnt)
               | None \<Rightarrow>
                   eseq (upd_context s (\<lambda>c. c\<lparr>added := True\<rparr>))
                  (eseq (EVDP_SLIST_REMOVE s)
                  (eseq (EVDP_SLIST_RUNNING_INSERT_NO_STATS s)
                        (flush_pending_loop k fuel (cnt + 1))))))))))"

definition evdp_queue_flush_pending_sources :: "kernel \<Rightarrow> nat \<Rightarrow> int evm" where
  "evdp_queue_flush_pending_sources k fuel =
     ebind queue_context (\<lambda>qc.
     ebind (flush_pending_loop k fuel 0) (\<lambda>(ret, cnt).
       if ret \<noteq> 0 then eret (-1)
       else eseq (ewhen (cnt \<noteq> 0) (upd_queue (\<lambda>q. q\<lparr>stats_pending := stats_pending q - cnt,
                                                       stats_running := stats_running q + cnt\<rparr>)))
                 (eret 0)))"

section \<open>Timers\<close>

definition ts0 :: timespec where "ts0 = \<lparr>tv_sec = 0, tv_nsec = 0\<rparr>"

definition empty_context :: evdp_source_context where
  "empty_context = \<lparr>ctl_events = 0, ctl_ptr = None, sc_ctl_op = CTL_ADD, added = False, in_action = False,
     timer_fd = 0, its = \<lparr>it_interval = ts0, it_value = ts0\<rparr>, in_callback = False\<rparr>"

text \<open>Closing a timer descriptor, the effect of both destroy functions beside the release.\<close>

definition evdp_destroy_source_itimer_context :: "kernel \<Rightarrow> evdp_source_context \<Rightarrow> unit evm" where
  "evdp_destroy_source_itimer_context k c =
     ewhen (0 \<le> timer_fd c) (ebind (sys k (CloseFd (timer_fd c))) (\<lambda>_. eret ()))"

definition evdp_create_source_itimer_context :: "kernel \<Rightarrow> bool \<Rightarrow> nat \<Rightarrow> evdp_source_context option evm" where
  "evdp_create_source_itimer_context k calloc_ok s =
     (if \<not> calloc_ok then eret None
      else ebind (get_src s) (\<lambda>sr. ebind (get_conf s) (\<lambda>conf.
        let v = (case conf of ConfItimer i v h \<Rightarrow> v | _ \<Rightarrow> 0);
            spec = (case src_type sr of
                ITIMER_SEC \<Rightarrow> Some \<lparr>it_interval = ts0\<lparr>tv_sec := v\<rparr>, it_value = ts0\<lparr>tv_sec := v\<rparr>\<rparr>
              | ITIMER_MSEC \<Rightarrow> Some \<lparr>it_interval = ts0\<lparr>tv_nsec := v * 1000000\<rparr>, it_value = ts0\<lparr>tv_nsec := v * 1000000\<rparr>\<rparr>
              | _ \<Rightarrow> None)
        in case spec of
             None \<Rightarrow> eseq (evdp_destroy_source_itimer_context k empty_context) (eret None)
           | Some it \<Rightarrow>
               ebind (sys k TimerfdCreate) (\<lambda>r. case r of
                 SysFd fd \<Rightarrow> eseq (upd_src s (\<lambda>x. x\<lparr>s_pending := False\<rparr>))
                               (eret (Some (empty_context\<lparr>timer_fd := fd, its := it\<rparr>)))
               | _ \<Rightarrow> eseq (evdp_destroy_source_itimer_context k (empty_context\<lparr>timer_fd := -1\<rparr>)) (eret None)))))"

definition evdp_source_itimer_attach :: "kernel \<Rightarrow> nat \<Rightarrow> int evm" where
  "evdp_source_itimer_attach k s =
     ebind (get_context s) (\<lambda>sc.
     ebind (if in_action sc then eret None else sys_ok k (TimerfdSettime (timer_fd sc) False (its sc))) (\<lambda>err.
       case err of
         Some e \<Rightarrow> eret (-1)
       | None \<Rightarrow>
           eseq (upd_context s (\<lambda>c. c\<lparr>in_action := True, sc_ctl_op := CTL_ADD, ctl_ptr := Some s, ctl_events := EPOLLIN\<rparr>))
          (eseq (EVDP_SLIST_PENDING_INSERT s) (eret 0))))"

definition evdp_source_itimer_detach :: "kernel \<Rightarrow> nat \<Rightarrow> unit evm" where
  "evdp_source_itimer_detach k s =
     ebind queue_context (\<lambda>qc. ebind (get_context s) (\<lambda>sc.
     eseq (ewhen (in_action sc)
             (eseq (upd_context s (\<lambda>c. c\<lparr>its := (its c)\<lparr>it_value := ts0\<rparr>\<rparr>))
              (ebind (sys_ok k (TimerfdSettime (timer_fd sc) False ((its sc)\<lparr>it_value := ts0\<rparr>))) (\<lambda>_.
               upd_context s (\<lambda>c. c\<lparr>in_action := False\<rparr>)))))
          (ewhen (added sc)
             (ebind (sys_ok k (EpollCtl CTL_DEL (timer_fd sc) 0 None)) (\<lambda>_.
               upd_context s (\<lambda>c. c\<lparr>added := False\<rparr>))))))"

definition evdp_source_itimer_handle :: "kernel \<Rightarrow> callbacks \<Rightarrow> nat \<Rightarrow> cb_ret evm" where
  "evdp_source_itimer_handle k call s =
     ebind (get_context s) (\<lambda>c. ebind (sys k (ReadTimer (timer_fd c))) (\<lambda>r. case r of
       SysErr e \<Rightarrow> eret CB_BREAK_ERR
     | _ \<Rightarrow> ebind (get_conf s) (\<lambda>conf. case conf of
           ConfItimer i v (Some h) \<Rightarrow> call h s
         | _ \<Rightarrow> eret CB_CONTINUE)))"

definition evdp_destroy_source_abstimer_context :: "kernel \<Rightarrow> evdp_source_context \<Rightarrow> unit evm" where
  "evdp_destroy_source_abstimer_context k c =
     ewhen (0 \<le> timer_fd c) (ebind (sys k (CloseFd (timer_fd c))) (\<lambda>_. eret ()))"

definition TOTAL_DAY_SECONDS :: int where "TOTAL_DAY_SECONDS = 24 * 3600"

definition evdp_create_source_abstimer_context :: "kernel \<Rightarrow> bool \<Rightarrow> nat \<Rightarrow> evdp_source_context option evm" where
  "evdp_create_source_abstimer_context k calloc_ok s =
     (if \<not> calloc_ok then eret None
      else ebind (sys k TimerfdCreate) (\<lambda>r. case r of
        SysFd fd \<Rightarrow> eseq (upd_src s (\<lambda>x. x\<lparr>s_pending := False\<rparr>))
          (eret (Some (empty_context\<lparr>timer_fd := fd,
             its := \<lparr>it_interval = ts0\<lparr>tv_sec := TOTAL_DAY_SECONDS\<rparr>, it_value = ts0\<rparr>\<rparr>)))
      | _ \<Rightarrow> eseq (evdp_destroy_source_itimer_context k (empty_context\<lparr>timer_fd := -1\<rparr>)) (eret None)))"

text \<open>\<open>nearest sec_of_day\<close> is the answer of
  \<^verbatim>\<open>neb_daytime_abs_nearest\<close>.\<close>

definition evdp_source_abstimer_regulate :: "kernel \<Rightarrow> (int \<Rightarrow> int option) \<Rightarrow> nat \<Rightarrow> int evm" where
  "evdp_source_abstimer_regulate k nearest s =
     ebind (get_context s) (\<lambda>c. ebind (get_conf s) (\<lambda>conf.
       case nearest (case conf of ConfAbstimer i sd h \<Rightarrow> sd | _ \<Rightarrow> 0) of
         None \<Rightarrow> eret (-1)
       | Some abs_ts \<Rightarrow>
           let it = (its c)\<lparr>it_value := \<lparr>tv_sec = abs_ts, tv_nsec = 0\<rparr>\<rparr> in
           eseq (upd_context s (\<lambda>c. c\<lparr>its := it\<rparr>))
                (if in_action c
                 then ebind (sys_ok k (TimerfdSettime (timer_fd c) True it)) (\<lambda>err.
                        eret (case err of None \<Rightarrow> 0 | Some e \<Rightarrow> -1))
                 else eret 0)))"

definition evdp_source_abstimer_attach :: "kernel \<Rightarrow> nat \<Rightarrow> int evm" where
  "evdp_source_abstimer_attach k s =
     ebind (get_context s) (\<lambda>sc.
     ebind (if in_action sc then eret None else sys_ok k (TimerfdSettime (timer_fd sc) True (its sc))) (\<lambda>err.
       case err of
         Some e \<Rightarrow> eret (-1)
       | None \<Rightarrow>
           eseq (upd_context s (\<lambda>c. c\<lparr>in_action := True, sc_ctl_op := CTL_ADD, ctl_ptr := Some s, ctl_events := EPOLLIN\<rparr>))
          (eseq (EVDP_SLIST_PENDING_INSERT s) (eret 0))))"

definition evdp_source_abstimer_detach :: "kernel \<Rightarrow> nat \<Rightarrow> unit evm" where
  "evdp_source_abstimer_detach k s =
     ebind queue_context (\<lambda>qc. ebind (get_context s) (\<lambda>sc.
     eseq (ewhen (in_action sc)
             (eseq (upd_context s (\<lambda>c. c\<lparr>its := (its c)\<lparr>it_value := ts0\<rparr>\<rparr>))
              (ebind (sys_ok k (TimerfdSettime (timer_fd sc) True ((its sc)\<lparr>it_value := ts0\<rparr>))) (\<lambda>_.
               upd_context s (\<lambda>c. c\<lparr>in_action := False\<rparr>)))))
          (ewhen (added sc)
             (ebind (sys_ok k (EpollCtl CTL_DEL (timer_fd sc) 0 None)) (\<lambda>_.
               upd_context s (\<lambda>c. c\<lparr>added := False\<rparr>))))))"

text \<open>The handler reads the configuration through the type of the interval timers, whose
  \<open>do_wakeup\<close> lies behind a sixty-four bit field, eight bytes further than in the
  allocated \<open>struct evdp_conf_abstimer\<close> and so behind its end.\<close>

definition evdp_source_abstimer_handle :: "kernel \<Rightarrow> callbacks \<Rightarrow> nat \<Rightarrow> cb_ret evm" where
  "evdp_source_abstimer_handle k call s =
     ebind (get_context s) (\<lambda>c. ebind (sys k (ReadTimer (timer_fd c))) (\<lambda>r. case r of
       SysErr e \<Rightarrow> eret CB_BREAK_ERR
     | _ \<Rightarrow> ebind (get_conf s) (\<lambda>conf. case conf of
           ConfItimer i v (Some h) \<Rightarrow> call h s
         | ConfItimer i v None \<Rightarrow> eret CB_CONTINUE
         | _ \<Rightarrow> efail OutOfBounds)))"

section \<open>Read-only descriptors\<close>

definition evdp_create_source_ro_fd_context :: "bool \<Rightarrow> nat \<Rightarrow> evdp_source_context option evm" where
  "evdp_create_source_ro_fd_context calloc_ok s =
     (if \<not> calloc_ok then eret None
      else eseq (upd_src s (\<lambda>x. x\<lparr>s_pending := False\<rparr>)) (eret (Some empty_context)))"

definition evdp_source_ro_fd_attach :: "nat \<Rightarrow> int evm" where
  "evdp_source_ro_fd_attach s =
     eseq (upd_context s (\<lambda>c. c\<lparr>sc_ctl_op := CTL_ADD, ctl_ptr := Some s, ctl_events := EPOLLIN\<rparr>))
    (eseq (EVDP_SLIST_PENDING_INSERT s) (eret 0))"

definition evdp_source_ro_fd_detach :: "kernel \<Rightarrow> nat \<Rightarrow> bool \<Rightarrow> unit evm" where
  "evdp_source_ro_fd_detach k s to_close =
     ebind queue_context (\<lambda>qc. ebind (get_context s) (\<lambda>sc. ebind (get_conf s) (\<lambda>conf.
       if to_close then upd_context s (\<lambda>c. c\<lparr>added := False\<rparr>)
       else ewhen (added sc)
              (ebind (sys_ok k (EpollCtl CTL_DEL (case conf of ConfRoFd fd h r \<Rightarrow> fd | _ \<Rightarrow> 0) 0 None)) (\<lambda>_.
                upd_context s (\<lambda>c. c\<lparr>added := False\<rparr>))))))"

text \<open>The end of both descriptor handlers on a hang-up: every result of the user's callback but the
  two breaks and \<open>CLOSE\<close> removes the source.\<close>

definition hup_result :: "cb_ret \<Rightarrow> cb_ret" where
  "hup_result r = (case r of CB_BREAK_ERR \<Rightarrow> r | CB_BREAK_EXP \<Rightarrow> r | CB_CLOSE \<Rightarrow> r | _ \<Rightarrow> CB_REMOVE)"

definition evdp_source_ro_fd_handle :: "callbacks \<Rightarrow> u32 \<Rightarrow> nat \<Rightarrow> cb_ret evm" where
  "evdp_source_ro_fd_handle call e s =
     ebind (get_conf s) (\<lambda>conf. case conf of
       ConfRoFd fd hup rd \<Rightarrow>
         ebind (if has_event e EPOLLIN then call rd s else eret CB_CONTINUE) (\<lambda>ret.
           if ret \<noteq> CB_CONTINUE then eret ret
           else if has_event e EPOLLHUP then ebind (call hup s) (\<lambda>r. eret (hup_result r))
           else eret ret)
     | _ \<Rightarrow> efail OutOfBounds)"

section \<open>One-shot descriptors\<close>

definition evdp_create_source_os_fd_context :: "bool \<Rightarrow> nat \<Rightarrow> evdp_source_context option evm" where
  "evdp_create_source_os_fd_context calloc_ok s =
     (if \<not> calloc_ok then eret None
      else eseq (upd_src s (\<lambda>x. x\<lparr>s_pending := False\<rparr>)) (eret (Some empty_context)))"

definition evdp_reset_source_os_fd_context :: "nat \<Rightarrow> unit evm" where
  "evdp_reset_source_os_fd_context s =
     eseq (upd_context s (\<lambda>c. c\<lparr>added := False, ctl_events := 0\<rparr>))
          (upd_src s (\<lambda>x. x\<lparr>s_pending := False\<rparr>))"

definition evdp_source_os_fd_attach :: "nat \<Rightarrow> int evm" where
  "evdp_source_os_fd_attach s =
     eseq (upd_context s (\<lambda>c. c\<lparr>sc_ctl_op := CTL_ADD, ctl_ptr := Some s, ctl_events := ctl_events c OR EPOLLONESHOT\<rparr>))
    (ebind (get_context s) (\<lambda>sc.
     eseq (if has_event (ctl_events sc) (EPOLLIN OR EPOLLOUT)
           then EVDP_SLIST_PENDING_INSERT s else EVDP_SLIST_RUNNING_INSERT s)
          (eret 0)))"

definition fd_of_conf :: "src_conf \<Rightarrow> int" where
  "fd_of_conf c = (case c of ConfFd fd h r w \<Rightarrow> fd | ConfRoFd fd h r \<Rightarrow> fd | _ \<Rightarrow> 0)"

definition do_ctl_os_fd :: "kernel \<Rightarrow> nat \<Rightarrow> int evm" where
  "do_ctl_os_fd k s =
     ebind queue_context (\<lambda>qc. ebind (get_context s) (\<lambda>sc. ebind (get_conf s) (\<lambda>conf.
     ebind (sys_ok k (EpollCtl (sc_ctl_op sc) (fd_of_conf conf) (ctl_events sc) (ctl_ptr sc))) (\<lambda>err. case err of
       Some e \<Rightarrow> eret (-1)
     | None \<Rightarrow> eseq (upd_context s (\<lambda>c. c\<lparr>added := True\<rparr>)) (eret 0)))))"

definition do_del_os_fd :: "kernel \<Rightarrow> nat \<Rightarrow> int evm" where
  "do_del_os_fd k s =
     ebind queue_context (\<lambda>qc. ebind (get_context s) (\<lambda>sc. ebind (get_conf s) (\<lambda>conf.
     ebind (sys_ok k (EpollCtl CTL_DEL (fd_of_conf conf) 0 None)) (\<lambda>err. case err of
       Some e \<Rightarrow> eseq (ewhen (e = ENOENT) (upd_context s (\<lambda>c. c\<lparr>added := False\<rparr>))) (eret (-1))
     | None \<Rightarrow> eseq (upd_context s (\<lambda>c. c\<lparr>added := False, sc_ctl_op := CTL_ADD\<rparr>)) (eret 0)))))"

definition evdp_source_os_fd_detach :: "kernel \<Rightarrow> nat \<Rightarrow> bool \<Rightarrow> unit evm" where
  "evdp_source_os_fd_detach k s to_close =
     ebind (get_context s) (\<lambda>sc.
       if to_close then upd_context s (\<lambda>c. c\<lparr>added := False\<rparr>)
       else ewhen (added sc) (ebind (do_del_os_fd k s) (\<lambda>_. eret ())))"

text \<open>\<open>sc->in_callback = 1; ret = handler(\<dots>); sc->in_callback = 0\<close>.\<close>

definition os_fd_call :: "callbacks \<Rightarrow> nat \<Rightarrow> nat \<Rightarrow> cb_ret evm" where
  "os_fd_call call h s =
     eseq (upd_context s (\<lambda>c. c\<lparr>in_callback := True\<rparr>))
    (ebind (call h s) (\<lambda>ret.
     eseq (upd_context s (\<lambda>c. c\<lparr>in_callback := False\<rparr>)) (eret ret)))"

text \<open>Moving a source from the running to the pending list and back.\<close>

definition running_to_pending :: "nat \<Rightarrow> unit evm" where
  "running_to_pending s =
     eseq (EVDP_SLIST_REMOVE s)
    (eseq (upd_queue (\<lambda>q. q\<lparr>stats_running := stats_running q - 1\<rparr>))
          (EVDP_SLIST_PENDING_INSERT s))"

definition pending_to_running :: "nat \<Rightarrow> unit evm" where
  "pending_to_running s =
     eseq (EVDP_SLIST_REMOVE s)
    (eseq (upd_queue (\<lambda>q. q\<lparr>stats_pending := stats_pending q - 1\<rparr>))
          (EVDP_SLIST_RUNNING_INSERT s))"

text \<open>The handler re-reads the configuration before the hang-up and the write part: the read
  callback may have replaced the write handler.\<close>

definition conf_read :: "src_conf \<Rightarrow> nat option" where
  "conf_read c = (case c of ConfFd fd h r w \<Rightarrow> r | _ \<Rightarrow> None)"
definition conf_write :: "src_conf \<Rightarrow> nat option" where
  "conf_write c = (case c of ConfFd fd h r w \<Rightarrow> w | _ \<Rightarrow> None)"
definition conf_hup :: "src_conf \<Rightarrow> nat" where
  "conf_hup c = (case c of ConfFd fd h r w \<Rightarrow> h | ConfRoFd fd h r \<Rightarrow> h | _ \<Rightarrow> 0)"

definition os_fd_handle_read :: "callbacks \<Rightarrow> u32 \<Rightarrow> nat \<Rightarrow> cb_ret evm" where
  "os_fd_handle_read call e s =
     ebind (get_conf s) (\<lambda>conf. case conf_read conf of
       Some h \<Rightarrow> (if has_event e EPOLLIN
                  then eseq (upd_context s (\<lambda>c. c\<lparr>ctl_events := ctl_events c AND NOT EPOLLIN\<rparr>)) (os_fd_call call h s)
                  else eret CB_CONTINUE)
     | None \<Rightarrow> eret CB_CONTINUE)"

definition os_fd_handle_write :: "callbacks \<Rightarrow> u32 \<Rightarrow> nat \<Rightarrow> cb_ret evm" where
  "os_fd_handle_write call e s =
     ebind (get_conf s) (\<lambda>conf. case conf_write conf of
       Some h \<Rightarrow> (if has_event e EPOLLOUT
                  then eseq (upd_context s (\<lambda>c. c\<lparr>ctl_events := ctl_events c AND NOT EPOLLOUT\<rparr>)) (os_fd_call call h s)
                  else eret CB_CONTINUE)
     | None \<Rightarrow> eret CB_CONTINUE)"

definition evdp_source_os_fd_handle :: "callbacks \<Rightarrow> u32 \<Rightarrow> nat \<Rightarrow> cb_ret evm" where
  "evdp_source_os_fd_handle call e s =
     eseq (upd_context s (\<lambda>c. c\<lparr>added := False, sc_ctl_op := CTL_MOD\<rparr>))
    (ebind (os_fd_handle_read call e s) (\<lambda>ret.
     if ret \<noteq> CB_CONTINUE then eret ret
     else if has_event e EPOLLHUP
       then ebind (get_conf s) (\<lambda>conf. ebind (os_fd_call call (conf_hup conf) s) (\<lambda>r. eret (hup_result r)))
     else ebind (os_fd_handle_write call e s) (\<lambda>ret2.
       if ret2 \<noteq> CB_CONTINUE then eret ret2
       else ebind (get_context s) (\<lambda>sc.
         eseq (ewhen (has_event (ctl_events sc) (EPOLLIN OR EPOLLOUT)) (running_to_pending s)) (eret ret2)))))"

definition evdp_source_os_fd_init_read :: "nat \<Rightarrow> nat option \<Rightarrow> unit evm" where
  "evdp_source_os_fd_init_read s rf =
     upd_context s (\<lambda>c. c\<lparr>ctl_events := (if rf \<noteq> None then ctl_events c OR EPOLLIN else ctl_events c AND NOT EPOLLIN)\<rparr>)"

definition evdp_source_os_fd_init_write :: "nat \<Rightarrow> nat option \<Rightarrow> unit evm" where
  "evdp_source_os_fd_init_write s wrf =
     upd_context s (\<lambda>c. c\<lparr>ctl_events := (if wrf \<noteq> None then ctl_events c OR EPOLLOUT else ctl_events c AND NOT EPOLLOUT)\<rparr>)"

text \<open>\<^verbatim>\<open>reset_read\<close> and \<^verbatim>\<open>reset_write\<close> have the same
  body but for the event bit, as have \<^verbatim>\<open>unset_read\<close> and
  \<^verbatim>\<open>unset_write\<close>.\<close>

definition os_fd_reset :: "kernel \<Rightarrow> u32 \<Rightarrow> nat \<Rightarrow> int evm" where
  "os_fd_reset k ev s =
     ebind (get_context s) (\<lambda>sc.
       if added sc then
         if has_event (ctl_events sc) ev then eret 0
         else eseq (upd_context s (\<lambda>c. c\<lparr>ctl_events := ctl_events c OR ev\<rparr>)) (do_ctl_os_fd k s)
       else
         eseq (upd_context s (\<lambda>c. c\<lparr>ctl_events := ctl_events c OR ev\<rparr>))
        (ebind (get_src s) (\<lambda>sr.
         eseq (ewhen (\<not> in_callback sc \<and> \<not> s_pending sr) (running_to_pending s)) (eret 0))))"

definition os_fd_unset :: "kernel \<Rightarrow> u32 \<Rightarrow> u32 \<Rightarrow> nat \<Rightarrow> int evm" where
  "os_fd_unset k ev other s =
     ebind (get_context s) (\<lambda>sc. ebind (get_src s) (\<lambda>sr.
       if added sc then
         if \<not> has_event (ctl_events sc) ev then eret 0
         else eseq (upd_context s (\<lambda>c. c\<lparr>ctl_events := ctl_events c XOR ev\<rparr>))
                (if has_event (ctl_events sc XOR ev) other then eret 0 else do_del_os_fd k s)
       else if s_pending sr then
         eseq (upd_context s (\<lambda>c. c\<lparr>ctl_events := ctl_events c AND NOT ev\<rparr>))
           (if has_event (ctl_events sc AND NOT ev) other then eret 0
            else eseq (pending_to_running s) (eret 0))
       else eseq (upd_context s (\<lambda>c. c\<lparr>ctl_events := ctl_events c AND NOT ev\<rparr>)) (eret 0)))"

definition evdp_source_os_fd_reset_read :: "kernel \<Rightarrow> nat \<Rightarrow> int evm" where
  "evdp_source_os_fd_reset_read k s = os_fd_reset k EPOLLIN s"
definition evdp_source_os_fd_reset_write :: "kernel \<Rightarrow> nat \<Rightarrow> int evm" where
  "evdp_source_os_fd_reset_write k s = os_fd_reset k EPOLLOUT s"
definition evdp_source_os_fd_unset_read :: "kernel \<Rightarrow> nat \<Rightarrow> int evm" where
  "evdp_source_os_fd_unset_read k s = os_fd_unset k EPOLLIN EPOLLOUT s"
definition evdp_source_os_fd_unset_write :: "kernel \<Rightarrow> nat \<Rightarrow> int evm" where
  "evdp_source_os_fd_unset_write k s = os_fd_unset k EPOLLOUT EPOLLIN s"

end
