(* ===== verification/Neb_Evdp_Core.thy ===== *)
theory Neb_Evdp_Core
  imports Neb_Epoll
begin

text \<open>
  Model of \<^verbatim>\<open>src/src/evdp/core.c\<close>: the event queue, its sources, attaching and
  detaching, the incremental walk over the running sources (foreach), event handling and the run
  loop, on top of the epoll driver. \<open>call\<close> runs a user callback of a source or of the queue
  and \<open>rem\<close> an \<open>on_remove\<close> callback. Loops over pointers take fuel; the lemmas
  show how much is enough.
\<close>

section \<open>Sources\<close>

type_synonym removers = "nat \<Rightarrow> nat \<Rightarrow> int evm"

definition blank_source :: neb_evdp_source where
  "blank_source = \<lparr>s_prev = None, s_next = None, q_in_use = None, src_type = SOURCE_NONE, s_foreach_id = 0,
     s_pending = False, no_detach = False, utype = 0, udata = 0, s_conf = None, s_context = None,
     s_on_remove = NoRemove\<rparr>"

text \<open>\<open>calloc\<close> at the address the allocator answers.\<close>

definition alloc_src :: "nat option \<Rightarrow> neb_evdp_source \<Rightarrow> nat option evm" where
  "alloc_src a s w = (case a of None \<Rightarrow> Inr (None, w) | Some p \<Rightarrow> Inr (Some p, w\<lparr>srcs := (srcs w)(p \<mapsto> s)\<rparr>))"

definition evdp_source_new_empty :: "nat option \<Rightarrow> nat option evm" where
  "evdp_source_new_empty a =
     ebind get_queue (\<lambda>q.
       alloc_src a (blank_source\<lparr>src_type := SOURCE_NONE, q_in_use := Some (q_self q), s_on_remove := RemoveDel\<rparr>))"

definition destroy_source_context :: "kernel \<Rightarrow> src_type \<Rightarrow> evdp_source_context \<Rightarrow> unit evm" where
  "destroy_source_context k t c =
     (case t of
        ITIMER_SEC \<Rightarrow> evdp_destroy_source_itimer_context k c
      | ITIMER_MSEC \<Rightarrow> evdp_destroy_source_itimer_context k c
      | ABSTIMER \<Rightarrow> evdp_destroy_source_abstimer_context k c
      | _ \<Rightarrow> eret ())"

definition neb_evdp_source_del :: "kernel \<Rightarrow> nat \<Rightarrow> int evm" where
  "neb_evdp_source_del k s =
     ebind (get_src s) (\<lambda>sr.
       if q_in_use sr \<noteq> None then eret (-1)
       else eseq (case s_context sr of None \<Rightarrow> eret () | Some c \<Rightarrow> destroy_source_context k (src_type sr) c)
           (eseq (free_src s) (eret 0)))"

definition neb_evdp_source_set_utype :: "nat \<Rightarrow> int \<Rightarrow> unit evm" where
  "neb_evdp_source_set_utype s t = upd_src s (\<lambda>x. x\<lparr>utype := t\<rparr>)"
definition neb_evdp_source_set_udata :: "nat \<Rightarrow> nat \<Rightarrow> unit evm" where
  "neb_evdp_source_set_udata s d = upd_src s (\<lambda>x. x\<lparr>udata := d\<rparr>)"
definition neb_evdp_source_get_udata :: "nat \<Rightarrow> nat evm" where
  "neb_evdp_source_get_udata s = ebind (get_src s) (\<lambda>x. eret (udata x))"
definition neb_evdp_source_get_queue :: "nat \<Rightarrow> nat option evm" where
  "neb_evdp_source_get_queue s = ebind (get_src s) (\<lambda>x. eret (q_in_use x))"
definition neb_evdp_source_set_on_remove :: "nat \<Rightarrow> on_remove \<Rightarrow> unit evm" where
  "neb_evdp_source_set_on_remove s r = upd_src s (\<lambda>x. x\<lparr>s_on_remove := r\<rparr>)"

section \<open>Attaching and detaching\<close>

definition source_detach :: "kernel \<Rightarrow> src_type \<Rightarrow> nat \<Rightarrow> bool \<Rightarrow> unit evm" where
  "source_detach k t s to_close =
     (case t of
        SOURCE_NONE \<Rightarrow> eret ()
      | ITIMER_SEC \<Rightarrow> evdp_source_itimer_detach k s
      | ITIMER_MSEC \<Rightarrow> evdp_source_itimer_detach k s
      | ABSTIMER \<Rightarrow> evdp_source_abstimer_detach k s
      | RO_FD \<Rightarrow> evdp_source_ro_fd_detach k s to_close
      | OS_FD \<Rightarrow> evdp_source_os_fd_detach k s to_close)"

definition run_on_remove :: "kernel \<Rightarrow> removers \<Rightarrow> nat \<Rightarrow> unit evm" where
  "run_on_remove k rem s =
     ebind (get_src s) (\<lambda>x. case s_on_remove x of
       NoRemove \<Rightarrow> eret ()
     | RemoveDel \<Rightarrow> ebind (neb_evdp_source_del k s) (\<lambda>_. eret ())
     | RemoveUser h \<Rightarrow> ebind (rem h s) (\<lambda>_. eret ()))"

definition do_detach_from_queue :: "kernel \<Rightarrow> removers \<Rightarrow> nat \<Rightarrow> bool \<Rightarrow> unit evm" where
  "do_detach_from_queue k rem s to_close =
     eseq (evdp_queue_rm_pending_events s)
    (ebind (get_src s) (\<lambda>x.
     eseq (source_detach k (src_type x) s to_close)
    (eseq (EVDP_SLIST_REMOVE s)
    (ebind (get_src s) (\<lambda>y.
     eseq (if s_pending y
           then eseq (upd_queue (\<lambda>q. q\<lparr>stats_pending := stats_pending q - 1\<rparr>)) (upd_src s (\<lambda>x. x\<lparr>s_pending := False\<rparr>))
           else upd_queue (\<lambda>q. q\<lparr>stats_running := stats_running q - 1\<rparr>))
    (eseq (upd_src s (\<lambda>x. x\<lparr>q_in_use := None\<rparr>))
          (run_on_remove k rem s)))))))"

definition source_attach :: "kernel \<Rightarrow> src_type \<Rightarrow> nat \<Rightarrow> int evm" where
  "source_attach k t s =
     (case t of
        SOURCE_NONE \<Rightarrow> eret (-1)
      | ITIMER_SEC \<Rightarrow> evdp_source_itimer_attach k s
      | ITIMER_MSEC \<Rightarrow> evdp_source_itimer_attach k s
      | ABSTIMER \<Rightarrow> evdp_source_abstimer_attach k s
      | RO_FD \<Rightarrow> evdp_source_ro_fd_attach s
      | OS_FD \<Rightarrow> evdp_source_os_fd_attach s)"

definition neb_evdp_queue_attach :: "kernel \<Rightarrow> nat \<Rightarrow> int evm" where
  "neb_evdp_queue_attach k s =
     ebind (get_src s) (\<lambda>x.
       if q_in_use x \<noteq> None then eret (-1)
       else ebind get_queue (\<lambda>q.
         if destroying q then eret (-1)
         else eseq (upd_src s (\<lambda>x. x\<lparr>s_foreach_id := q_foreach_id q\<rparr>))
             (ebind (source_attach k (src_type x) s) (\<lambda>ret.
               if ret \<noteq> 0 then eret (-1)
               else eseq (upd_src s (\<lambda>x. x\<lparr>q_in_use := Some (q_self q)\<rparr>)) (eret 0)))))"

definition neb_evdp_queue_detach :: "kernel \<Rightarrow> removers \<Rightarrow> nat \<Rightarrow> bool \<Rightarrow> int evm" where
  "neb_evdp_queue_detach k rem s to_close =
     ebind (get_src s) (\<lambda>x. ebind get_queue (\<lambda>q.
       if q_in_use x \<noteq> Some (q_self q) then eret (-1)
       else if no_detach x then eret (-1)
       else eseq (do_detach_from_queue k rem s to_close) (eret 0)))"

section \<open>Queues\<close>

text \<open>\<open>for (s = head->next; s; s = head->next) do_detach_from_queue(q, s, 0)\<close>.\<close>

fun detach_all :: "kernel \<Rightarrow> removers \<Rightarrow> nat \<Rightarrow> nat \<Rightarrow> unit evm" where
  "detach_all k rem h 0 = efail NoEnd"
| "detach_all k rem h (Suc fuel) =
     ebind (get_src h) (\<lambda>x. case s_next x of
       None \<Rightarrow> eret ()
     | Some s \<Rightarrow> eseq (do_detach_from_queue k rem s False) (detach_all k rem h fuel))"

text \<open>Detaching every source of a list and deleting its head.\<close>

definition destroy_list :: "kernel \<Rightarrow> removers \<Rightarrow> nat \<Rightarrow> nat option \<Rightarrow> unit evm" where
  "destroy_list k rem fuel p =
     ebind (deref p) (\<lambda>h.
     eseq (detach_all k rem h fuel)
    (eseq (upd_src h (\<lambda>x. x\<lparr>q_in_use := None\<rparr>))
    (ebind (neb_evdp_source_del k h) (\<lambda>_. eret ()))))"

definition neb_evdp_queue_destroy :: "kernel \<Rightarrow> removers \<Rightarrow> nat \<Rightarrow> unit evm" where
  "neb_evdp_queue_destroy k rem fuel =
     eseq (upd_queue (\<lambda>q. q\<lparr>destroying := True\<rparr>))
    (ebind get_queue (\<lambda>q.
     eseq (case foreach_s q of
             None \<Rightarrow> eret ()
           | Some f \<Rightarrow> ebind (neb_evdp_source_del k f) (\<lambda>_. upd_queue (\<lambda>q. q\<lparr>foreach_s := None\<rparr>)))
    (ebind get_queue (\<lambda>q.
     eseq (ewhen (stats_pending q \<noteq> 0)
            (eseq (destroy_list k rem fuel (pending_qs q)) (upd_queue (\<lambda>q. q\<lparr>pending_qs := None\<rparr>))))
    (ebind get_queue (\<lambda>q.
     eseq (ewhen (stats_running q \<noteq> 0)
            (eseq (destroy_list k rem fuel (running_qs q)) (upd_queue (\<lambda>q. q\<lparr>running_qs := None\<rparr>))))
    (ebind get_queue (\<lambda>q.
     eseq (case q_context q of
             None \<Rightarrow> eret ()
           | Some c \<Rightarrow> eseq (evdp_destroy_queue_context k c) (upd_queue (\<lambda>q. q\<lparr>q_context := None\<rparr>)))
          free_queue))))))))"

definition NEB_EVDP_DEFAULT_BATCH_SIZE :: int where "NEB_EVDP_DEFAULT_BATCH_SIZE = 10"

definition blank_queue :: "nat \<Rightarrow> neb_evdp_queue" where
  "blank_queue self = \<lparr>q_self = self, q_context = None, batch_size = 0, nevents = 0, current_event = 0,
     q_foreach_id = 0, destroying = False, in_foreach = False, pending_qs = None, running_qs = None,
     cur_ts = ts0, event_call = None, batch_call = None, foreach_s = None, each_call = None,
     stats_rounds = 0, stats_events = 0, stats_pending = 0, stats_running = 0\<rparr>"

text \<open>\<open>q\<close> is the address of the queue or the allocator's failure, \<open>a1\<close> and
  \<open>a2\<close> those of the two list heads; the result tells whether the queue exists.\<close>

definition neb_evdp_queue_create ::
  "kernel \<Rightarrow> removers \<Rightarrow> nat option \<Rightarrow> nat option \<Rightarrow> nat option \<Rightarrow> bool \<Rightarrow> (u32 \<times> nat option) list option \<Rightarrow>
   int \<Rightarrow> bool evm" where
  "neb_evdp_queue_create k rem q a1 a2 ctx_ok ee0 bsize =
     (case q of
        None \<Rightarrow> eret False
      | Some self \<Rightarrow>
          ebind (\<lambda>w. Inr ((), w\<lparr>queue_live := True,
                   queue := (blank_queue self)\<lparr>batch_size := (if bsize \<le> 0 then NEB_EVDP_DEFAULT_BATCH_SIZE else bsize)\<rparr>\<rparr>)) (\<lambda>_.
          ebind (evdp_source_new_empty a1) (\<lambda>r. case r of
            None \<Rightarrow> eseq (neb_evdp_queue_destroy k rem 1) (eret False)
          | Some p \<Rightarrow>
              eseq (upd_queue (\<lambda>q. q\<lparr>running_qs := Some p, stats_running := 1\<rparr>))
             (ebind (evdp_source_new_empty a2) (\<lambda>r. case r of
                None \<Rightarrow> eseq (neb_evdp_queue_destroy k rem 1) (eret False)
              | Some p \<Rightarrow>
                  eseq (upd_queue (\<lambda>q. q\<lparr>pending_qs := Some p, stats_pending := 1, foreach_s := None\<rparr>))
                 (ebind (evdp_create_queue_context k ctx_ok ee0) (\<lambda>c. case c of
                    None \<Rightarrow> eseq (neb_evdp_queue_destroy k rem 1) (eret False)
                  | Some c \<Rightarrow> eseq (upd_queue (\<lambda>q. q\<lparr>q_context := Some c\<rparr>)) (eret True))))))))"

definition neb_evdp_queue_set_event_handler :: "nat option \<Rightarrow> unit evm" where
  "neb_evdp_queue_set_event_handler ef = upd_queue (\<lambda>q. q\<lparr>event_call := ef\<rparr>)"
definition neb_evdp_queue_set_batch_handler :: "nat option \<Rightarrow> unit evm" where
  "neb_evdp_queue_set_batch_handler bf = upd_queue (\<lambda>q. q\<lparr>batch_call := bf\<rparr>)"

section \<open>Walking over the running sources\<close>

definition neb_evdp_queue_foreach_start :: "nat option \<Rightarrow> nat \<Rightarrow> int evm" where
  "neb_evdp_queue_foreach_start a cb =
     ebind get_queue (\<lambda>q.
       if in_foreach q then eret (-1)
       else ebind (case foreach_s q of
                     Some f \<Rightarrow> eret (Some f)
                   | None \<Rightarrow> ebind (evdp_source_new_empty a) (\<lambda>r.
                       eseq (upd_queue (\<lambda>q. q\<lparr>foreach_s := r\<rparr>)) (eret r))) (\<lambda>r. case r of
         None \<Rightarrow> eret (-1)
       | Some f \<Rightarrow>
           eseq (EVDP_SLIST_RUNNING_INSERT_NO_STATS f)
          (eseq (upd_queue (\<lambda>q. q\<lparr>q_foreach_id := q_foreach_id q + 1, in_foreach := True, each_call := Some cb\<rparr>))
          (ebind get_queue (\<lambda>q. eret (stats_running q))))))"

definition neb_evdp_queue_foreach_set_end :: "unit evm" where
  "neb_evdp_queue_foreach_set_end =
     ebind get_queue (\<lambda>q.
       if \<not> in_foreach q then eret ()
       else ebind (deref (foreach_s q)) (\<lambda>f.
            eseq (EVDP_SLIST_REMOVE f) (upd_queue (\<lambda>q. q\<lparr>in_foreach := False, each_call := None\<rparr>))))"

definition neb_evdp_queue_foreach_has_ended :: "bool evm" where
  "neb_evdp_queue_foreach_has_ended =
     ebind get_queue (\<lambda>q.
       if in_foreach q then ebind (deref (foreach_s q)) (\<lambda>f. ebind (get_src f) (\<lambda>x. eret (s_next x = None)))
       else eret True)"

text \<open>The search of \<^verbatim>\<open>evdp_queue_foreach_next_one\<close> for the next source to call.\<close>

fun foreach_search :: "nat \<Rightarrow> nat option \<Rightarrow> nat option evm" where
  "foreach_search 0 p = efail NoEnd"
| "foreach_search (Suc fuel) p =
     (case p of
        None \<Rightarrow> eret None
      | Some s \<Rightarrow>
          ebind (get_src s) (\<lambda>x. ebind get_queue (\<lambda>q.
            if s_foreach_id x \<noteq> q_foreach_id q \<and> utype x \<noteq> 0
            then eseq (upd_src s (\<lambda>x. x\<lparr>s_foreach_id := q_foreach_id q\<rparr>)) (eret (Some s))
            else foreach_search fuel (s_next x))))"

definition evdp_queue_foreach_next_one :: "callbacks \<Rightarrow> nat \<Rightarrow> cb_ret evm" where
  "evdp_queue_foreach_next_one call fuel =
     ebind get_queue (\<lambda>q. ebind (deref (foreach_s q)) (\<lambda>f. ebind (get_src f) (\<lambda>fs.
     ebind (foreach_search fuel (s_next fs)) (\<lambda>r. case r of
       None \<Rightarrow> eret CB_END_FOREACH
     | Some s \<Rightarrow>
         eseq (EVDP_SLIST_REMOVE f)
        (eseq (EVDP_SLIST_INSERT_AFTER s f)
        (eseq (upd_src s (\<lambda>x. x\<lparr>no_detach := True\<rparr>))
        (ebind get_queue (\<lambda>q. ebind (deref (each_call q)) (\<lambda>cb.
         ebind (call cb s) (\<lambda>ret.
         eseq (upd_src s (\<lambda>x. x\<lparr>no_detach := False\<rparr>)) (eret ret)))))))))))"

text \<open>The macro \<^verbatim>\<open>EVDP_QUEUE_FOREACH_NEXT_ONE\<close>, which remembers the source
  behind the marker before the search: \<open>False\<close> is its \<open>return -1\<close>.\<close>

definition EVDP_QUEUE_FOREACH_NEXT_ONE :: "kernel \<Rightarrow> removers \<Rightarrow> callbacks \<Rightarrow> nat \<Rightarrow> bool evm" where
  "EVDP_QUEUE_FOREACH_NEXT_ONE k rem call fuel =
     ebind get_queue (\<lambda>q. ebind (deref (foreach_s q)) (\<lambda>f. ebind (get_src f) (\<lambda>fs. ebind (deref (s_next fs)) (\<lambda>s.
     ebind (evdp_queue_foreach_next_one call fuel) (\<lambda>ret. case ret of
       CB_CONTINUE \<Rightarrow> eret True
     | CB_REMOVE \<Rightarrow> eseq (do_detach_from_queue k rem s False) (eret True)
     | CB_CLOSE \<Rightarrow> eseq (do_detach_from_queue k rem s True) (eret True)
     | CB_END_FOREACH \<Rightarrow> eseq neb_evdp_queue_foreach_set_end (eret True)
     | _ \<Rightarrow> eret False)))))"

text \<open>Both walking loops; \<open>bsize\<close> is \<open>None\<close> for the unbounded one.\<close>

fun foreach_loop :: "kernel \<Rightarrow> removers \<Rightarrow> callbacks \<Rightarrow> nat \<Rightarrow> int option \<Rightarrow> int \<Rightarrow> nat \<Rightarrow> int evm" where
  "foreach_loop k rem call fuel bsize cnt 0 = efail NoEnd"
| "foreach_loop k rem call fuel bsize cnt (Suc n) =
     ebind get_queue (\<lambda>q. ebind (deref (foreach_s q)) (\<lambda>f. ebind (get_src f) (\<lambda>fs.
       if s_next fs \<noteq> None \<and> (case bsize of None \<Rightarrow> True | Some z \<Rightarrow> cnt < z)
       then ebind (EVDP_QUEUE_FOREACH_NEXT_ONE k rem call fuel) (\<lambda>ok.
              if ok then foreach_loop k rem call fuel bsize (cnt + 1) n else eret (-1))
       else eret cnt)))"

definition neb_evdp_queue_foreach_next :: "kernel \<Rightarrow> removers \<Rightarrow> callbacks \<Rightarrow> nat \<Rightarrow> int \<Rightarrow> int evm" where
  "neb_evdp_queue_foreach_next k rem call fuel bsize =
     ebind get_queue (\<lambda>q.
       if \<not> in_foreach q then eret 0
       else foreach_loop k rem call fuel (if bsize \<noteq> 0 then Some bsize else None) 0 fuel)"

section \<open>Handling events\<close>

definition source_handle :: "kernel \<Rightarrow> callbacks \<Rightarrow> src_type \<Rightarrow> u32 \<Rightarrow> nat \<Rightarrow> cb_ret evm" where
  "source_handle k call t e s =
     (case t of
        SOURCE_NONE \<Rightarrow> eret CB_CONTINUE
      | ITIMER_SEC \<Rightarrow> evdp_source_itimer_handle k call s
      | ITIMER_MSEC \<Rightarrow> evdp_source_itimer_handle k call s
      | ABSTIMER \<Rightarrow> evdp_source_abstimer_handle k call s
      | RO_FD \<Rightarrow> evdp_source_ro_fd_handle call e s
      | OS_FD \<Rightarrow> evdp_source_os_fd_handle call e s)"

definition handle_event :: "kernel \<Rightarrow> removers \<Rightarrow> callbacks \<Rightarrow> cb_ret evm" where
  "handle_event k rem call =
     ebind evdp_queue_fetch_event (\<lambda>(e, src). case src of
       None \<Rightarrow> eseq evdp_queue_finish_event (eret CB_CONTINUE)
     | Some s \<Rightarrow>
         eseq (upd_src s (\<lambda>x. x\<lparr>no_detach := True\<rparr>))
        (ebind (get_src s) (\<lambda>x.
         ebind (source_handle k call (src_type x) e s) (\<lambda>ret.
         eseq (upd_src s (\<lambda>x. x\<lparr>no_detach := False\<rparr>))
        (ebind (case ret of
             CB_REMOVE \<Rightarrow> eseq (do_detach_from_queue k rem s False) (eret CB_CONTINUE)
           | CB_CLOSE \<Rightarrow> eseq (do_detach_from_queue k rem s True) (eret CB_CONTINUE)
           | _ \<Rightarrow> eret ret) (\<lambda>ret.
         eseq evdp_queue_finish_event (eret ret)))))))"

text \<open>The loop over the fetched events: the result is the return value of the run loop if a
  callback broke it.\<close>

fun events_loop :: "kernel \<Rightarrow> removers \<Rightarrow> callbacks \<Rightarrow> nat \<Rightarrow> nat \<Rightarrow> int option evm" where
  "events_loop k rem call i 0 = efail NoEnd"
| "events_loop k rem call i (Suc fuel) =
     ebind get_queue (\<lambda>q.
       if int i < nevents q
       then eseq (upd_queue (\<lambda>q. q\<lparr>current_event := int i\<rparr>))
           (ebind (handle_event k rem call) (\<lambda>ret. case ret of
              CB_BREAK_ERR \<Rightarrow> eret (Some (-1))
            | CB_BREAK_EXP \<Rightarrow> eret (Some 0)
            | _ \<Rightarrow> events_loop k rem call (i + 1) fuel))
       else eret None)"

section \<open>The run loop\<close>

definition T_E_QUIT :: u32 where "T_E_QUIT = 2"
definition T_E_ABRT :: u32 where "T_E_ABRT = 16"

datatype run_step = RunExit int | RunAgain | RunGo

definition get_thread_events :: "u32 evm" where "get_thread_events w = Inr (thread_events w, w)"
definition set_thread_events :: "u32 \<Rightarrow> unit evm" where
  "set_thread_events e w = Inr ((), w\<lparr>thread_events := e\<rparr>)"

text \<open>\<open>qcall\<close> runs the event and the batch handler of the queue.\<close>

definition check_thread_events :: "(nat \<Rightarrow> cb_ret evm) \<Rightarrow> run_step evm" where
  "check_thread_events qcall =
     ebind get_thread_events (\<lambda>te.
       if te = 0 then eret RunGo
       else ebind get_queue (\<lambda>q. case event_call q of
         Some h \<Rightarrow> ebind (qcall h) (\<lambda>r. eret (case r of
             CB_BREAK_ERR \<Rightarrow> RunExit (-1)
           | CB_BREAK_EXP \<Rightarrow> RunExit 0
           | CB_CONTINUE \<Rightarrow> RunAgain
           | _ \<Rightarrow> RunGo))
       | None \<Rightarrow>
           if te AND T_E_ABRT \<noteq> 0 then eret (RunExit (-1))
           else if te AND T_E_QUIT \<noteq> 0 then eret (RunExit 0)
           else eseq (set_thread_events 0) (eret RunGo)))"

definition neb_time_gettime_fast :: "kernel \<Rightarrow> timespec option evm" where
  "neb_time_gettime_fast k = ebind (sys k ClockGettime) (\<lambda>r. eret (case r of SysTime t \<Rightarrow> Some t | _ \<Rightarrow> None))"

definition update_cur_ts :: "kernel \<Rightarrow> bool evm" where
  "update_cur_ts k =
     ebind (neb_time_gettime_fast k) (\<lambda>r. case r of
       None \<Rightarrow> eret False
     | Some t \<Rightarrow> eseq (upd_queue (\<lambda>q. q\<lparr>cur_ts := t\<rparr>)) (eret True))"

definition neb_evdp_queue_update_cur_ts :: "kernel \<Rightarrow> unit evm" where
  "neb_evdp_queue_update_cur_ts k =
     ebind (update_cur_ts k) (\<lambda>ok.
       if ok then eret () else ebind get_thread_events (\<lambda>te. set_thread_events (te OR T_E_QUIT)))"

text \<open>The timer of the queue: the nearest timeout at a given time, and the run of all points due.\<close>

record timer_ops =
  tm_nearest :: "timespec \<Rightarrow> timespec option evm"
  tm_run_until :: "timespec \<Rightarrow> int evm"

definition queue_timeout :: "kernel \<Rightarrow> timer_ops option \<Rightarrow> timespec option option evm" where
  "queue_timeout k tm =
     (case tm of
        None \<Rightarrow> eret (Some None)
      | Some t \<Rightarrow> ebind (neb_time_gettime_fast k) (\<lambda>r. case r of
            None \<Rightarrow> eret None
          | Some ts \<Rightarrow> ebind (tm_nearest t ts) (\<lambda>d. eret (Some d))))"

text \<open>Everything after the wait: the fetched events, the due timer points, the batch handler.\<close>

definition run_handle ::
  "kernel \<Rightarrow> removers \<Rightarrow> callbacks \<Rightarrow> (nat \<Rightarrow> cb_ret evm) \<Rightarrow> timer_ops option \<Rightarrow> nat \<Rightarrow> run_step evm" where
  "run_handle k rem call qcall tm fuel =
     eseq (upd_queue (\<lambda>q. q\<lparr>stats_rounds := stats_rounds q + 1\<rparr>))
    (ebind get_queue (\<lambda>q.
     ebind (if nevents q = 0 then eret None
            else eseq (upd_queue (\<lambda>q. q\<lparr>stats_events := stats_events q + of_int (nevents q)\<rparr>))
                (ebind (events_loop k rem call 0 fuel) (\<lambda>r. case r of
                   Some v \<Rightarrow> eret (Some v)
                 | None \<Rightarrow> eseq (upd_queue (\<lambda>q. q\<lparr>nevents := 0, current_event := 0\<rparr>)) (eret None)))) (\<lambda>r.
     case r of
       Some v \<Rightarrow> eret (RunExit v)
     | None \<Rightarrow>
         ebind (case tm of None \<Rightarrow> eret 0 | Some t \<Rightarrow> ebind get_queue (\<lambda>q. tm_run_until t (cur_ts q))) (\<lambda>_.
         ebind get_queue (\<lambda>q2. case batch_call q2 of
           None \<Rightarrow> eret RunAgain
         | Some h \<Rightarrow>
             if nevents q = 0 then eret RunAgain
             else ebind (qcall h) (\<lambda>r. eret (case r of
                 CB_BREAK_ERR \<Rightarrow> RunExit (-1)
               | CB_BREAK_EXP \<Rightarrow> RunExit 0
               | _ \<Rightarrow> RunAgain)))))))"

definition run_round ::
  "kernel \<Rightarrow> removers \<Rightarrow> callbacks \<Rightarrow> (nat \<Rightarrow> cb_ret evm) \<Rightarrow> timer_ops option \<Rightarrow> nat \<Rightarrow> run_step evm" where
  "run_round k rem call qcall tm fuel =
     ebind (check_thread_events qcall) (\<lambda>st.
       if st \<noteq> RunGo then eret st
       else ebind (evdp_queue_flush_pending_sources k fuel) (\<lambda>ret.
       if ret \<noteq> 0 then eret (RunExit (-1))
       else ebind (update_cur_ts k) (\<lambda>ok.
       if \<not> ok then eret (RunExit (-1))
       else ebind (queue_timeout k tm) (\<lambda>to. case to of
         None \<Rightarrow> eret (RunExit (-1))
       | Some timeout \<Rightarrow> ebind (evdp_queue_wait_events k timeout) (\<lambda>ret.
       if ret \<noteq> 0 then eret (RunExit (-1))
       else ebind (update_cur_ts k) (\<lambda>ok.
       if \<not> ok then eret (RunExit (-1))
       else run_handle k rem call qcall tm fuel))))))"

text \<open>The loop itself, for at most \<open>n\<close> rounds.\<close>

fun neb_evdp_queue_run ::
  "kernel \<Rightarrow> removers \<Rightarrow> callbacks \<Rightarrow> (nat \<Rightarrow> cb_ret evm) \<Rightarrow> timer_ops option \<Rightarrow> nat \<Rightarrow> nat \<Rightarrow> int evm" where
  "neb_evdp_queue_run k rem call qcall tm fuel 0 = efail NoEnd"
| "neb_evdp_queue_run k rem call qcall tm fuel (Suc n) =
     ebind (run_round k rem call qcall tm fuel) (\<lambda>st. case st of
       RunExit v \<Rightarrow> eret v
     | _ \<Rightarrow> neb_evdp_queue_run k rem call qcall tm fuel n)"

end
