(* ===== verification/Neb_Evdp_Inv.thy ===== *)
theory Neb_Evdp_Inv
  imports Neb_Evdp_Lists Neb_Evdp_Core
begin

text \<open>
  The invariant of an event queue and attaching: both lists are well linked, hold exactly the
  attached sources, which fit their configuration, the counters count them and every unhandled
  event refers to a member.
\<close>

section \<open>The invariant of a queue\<close>

text \<open>Context and configuration fit the type of the source.\<close>

fun conf_fits :: "src_type \<Rightarrow> src_conf option \<Rightarrow> bool" where
  "conf_fits SOURCE_NONE c = True"
| "conf_fits RO_FD (Some (ConfRoFd fd h r)) = True"
| "conf_fits OS_FD (Some (ConfFd fd h r wr)) = True"
| "conf_fits ABSTIMER (Some (ConfAbstimer i v h)) = True"
| "conf_fits ITIMER_SEC (Some (ConfItimer i v h)) = True"
| "conf_fits ITIMER_MSEC (Some (ConfItimer i v h)) = True"
| "conf_fits _ _ = False"

definition types :: "heap \<Rightarrow> nat \<Rightarrow> src_type option" where
  "types h x = map_option src_type (h x)"

lemma types_data: "types (data h) = types h"
  by (auto simp: types_def data_def fun_eq_iff map_option_case split: option.split)

lemma types_upd [simp]: "types (h(x \<mapsto> s)) = (types h)(x \<mapsto> src_type s)" "types (h(x := None)) = (types h)(x := None)"
  by (auto simp: types_def fun_eq_iff)

definition src_wf :: "neb_evdp_source \<Rightarrow> bool" where
  "src_wf s \<longleftrightarrow> (src_type s = SOURCE_NONE \<or> s_context s \<noteq> None) \<and> conf_fits (src_type s) (s_conf s)"

text \<open>A list head or the foreach marker: an empty source that belongs to the queue.\<close>

definition empty_ok :: "neb_evdp_queue \<Rightarrow> heap \<Rightarrow> nat \<Rightarrow> bool" where
  "empty_ok q D x \<longleftrightarrow> (\<exists>s. D x = Some s \<and> src_type s = SOURCE_NONE \<and> q_in_use s = Some (q_self q) \<and>
     s_context s = None \<and> utype s = 0 \<and> \<not> s_pending s)"

definition member_ok :: "neb_evdp_queue \<Rightarrow> heap \<Rightarrow> bool \<Rightarrow> nat \<Rightarrow> bool" where
  "member_ok q D pend x \<longleftrightarrow> (\<exists>s. D x = Some s \<and> q_in_use s = Some (q_self q) \<and> s_pending s = pend \<and> src_wf s \<and>
     (src_type s = SOURCE_NONE \<longleftrightarrow> foreach_s q = Some x))"

text \<open>Every event not handled yet belongs to an attached source or was cancelled.\<close>

definition events_ok :: "neb_evdp_queue \<Rightarrow> nat set \<Rightarrow> bool" where
  "events_ok q live \<longleftrightarrow> (\<exists>c. q_context q = Some c \<and> nevents q \<le> int (length (ee c)) \<and> 0 \<le> current_event q \<and>
     (\<forall>i. current_event q \<le> int i \<and> int i < nevents q \<longrightarrow>
        (\<forall>s. snd (ee c ! i) = Some s \<longrightarrow> s \<in> live \<and> foreach_s q \<noteq> Some s)))"

definition dinv :: "neb_evdp_queue \<Rightarrow> heap \<Rightarrow> nat \<Rightarrow> nat \<Rightarrow> nat list \<Rightarrow> nat list \<Rightarrow> bool" where
  "dinv q D r0 p0 rs ps \<longleftrightarrow>
     (\<forall>x \<in> set rs. member_ok q D False x) \<and> (\<forall>x \<in> set ps. member_ok q D True x) \<and>
     (\<forall>x s. D x = Some s \<longrightarrow> q_in_use s = Some (q_self q) \<longrightarrow> x \<in> {r0, p0} \<union> set rs \<union> set ps \<or> foreach_s q = Some x) \<and>
     empty_ok q D r0 \<and> empty_ok q D p0 \<and>
     (case foreach_s q of None \<Rightarrow> \<not> in_foreach q
      | Some f \<Rightarrow> f \<noteq> r0 \<and> f \<noteq> p0 \<and> f \<notin> set ps \<and> (f \<in> set rs \<longleftrightarrow> in_foreach q) \<and> empty_ok q D f) \<and>
     stats_running q = 1 + int (length rs) - (if in_foreach q then 1 else 0) \<and>
     stats_pending q = 1 + int (length ps) \<and>
     events_ok q (set rs \<union> set ps)"

definition qinv :: "world \<Rightarrow> nat \<Rightarrow> nat \<Rightarrow> nat list \<Rightarrow> nat list \<Rightarrow> bool" where
  "qinv w r0 p0 rs ps \<longleftrightarrow> queue_live w \<and> running_qs (queue w) = Some r0 \<and> pending_qs (queue w) = Some p0 \<and>
     qlists (srcs w) r0 p0 rs ps \<and> dinv (queue w) (data (srcs w)) r0 p0 rs ps"

subsection \<open>Changes of the data\<close>

definition same_role :: "neb_evdp_source \<Rightarrow> neb_evdp_source \<Rightarrow> bool" where
  "same_role s t \<longleftrightarrow> q_in_use t = q_in_use s \<and> src_type t = src_type s \<and> s_pending t = s_pending s \<and>
     (src_wf s \<longrightarrow> src_wf t) \<and> (s_context s = None \<longrightarrow> s_context t = None) \<and> (src_type s = SOURCE_NONE \<longrightarrow> utype t = utype s)"

lemma member_ok_upd: "member_ok q D b x \<Longrightarrow> D y = Some s \<Longrightarrow> same_role s t \<Longrightarrow> member_ok q (D(y \<mapsto> t)) b x"
  by (auto simp: member_ok_def same_role_def)

lemma empty_ok_upd: "empty_ok q D x \<Longrightarrow> D y = Some s \<Longrightarrow> same_role s t \<Longrightarrow> empty_ok q (D(y \<mapsto> t)) x"
  by (auto simp: empty_ok_def same_role_def)

lemma member_ok_other: "x \<noteq> y \<Longrightarrow> member_ok q (D(y := v)) b x = member_ok q D b x"
  by (simp add: member_ok_def)

lemma empty_ok_other: "x \<noteq> y \<Longrightarrow> empty_ok q (D(y := v)) x = empty_ok q D x"
  by (simp add: empty_ok_def)

lemma members_ok_other:
  "\<forall>x \<in> X. member_ok q D b x \<Longrightarrow> y \<notin> X \<Longrightarrow> \<forall>x \<in> X. member_ok q (D(y := v)) b x"
  using member_ok_other by metis

lemma dinvD:
  assumes "dinv q D r0 p0 rs ps"
  shows "\<forall>x \<in> set rs. member_ok q D False x" "\<forall>x \<in> set ps. member_ok q D True x"
    "\<forall>x s. D x = Some s \<longrightarrow> q_in_use s = Some (q_self q) \<longrightarrow> x \<in> {r0, p0} \<union> set rs \<union> set ps \<or> foreach_s q = Some x"
    "empty_ok q D r0" "empty_ok q D p0"
    "case foreach_s q of None \<Rightarrow> \<not> in_foreach q
      | Some f \<Rightarrow> f \<noteq> r0 \<and> f \<noteq> p0 \<and> f \<notin> set ps \<and> (f \<in> set rs \<longleftrightarrow> in_foreach q) \<and> empty_ok q D f"
    "stats_running q = 1 + int (length rs) - (if in_foreach q then 1 else 0)"
    "stats_pending q = 1 + int (length ps)" "events_ok q (set rs \<union> set ps)"
  using assms unfolding dinv_def by blast+

lemma dinv_unattached_notin:
  assumes "dinv q D r0 p0 rs ps" "case D y of None \<Rightarrow> True | Some s \<Rightarrow> q_in_use s \<noteq> Some (q_self q)"
  shows "y \<notin> set rs" "y \<notin> set ps" "y \<noteq> r0" "y \<noteq> p0" "foreach_s q \<noteq> Some y"
  using dinvD [OF assms(1)] assms(2) by (auto simp: member_ok_def empty_ok_def split: option.splits)

lemma dinv_upd:
  assumes "dinv q D r0 p0 rs ps" "D y = Some s" "same_role s t"
  shows "dinv q (D(y \<mapsto> t)) r0 p0 rs ps"
proof -
  note I = dinvD [OF assms(1)]
  have mem: "\<forall>x \<in> set rs. member_ok q (D(y \<mapsto> t)) False x" "\<forall>x \<in> set ps. member_ok q (D(y \<mapsto> t)) True x"
    "empty_ok q (D(y \<mapsto> t)) r0" "empty_ok q (D(y \<mapsto> t)) p0"
    using I(1,2,4,5) member_ok_upd [of q D _ _ y s t] empty_ok_upd [of q D _ y s t] assms(2,3) by blast+
  moreover have "case foreach_s q of None \<Rightarrow> \<not> in_foreach q
      | Some f \<Rightarrow> f \<noteq> r0 \<and> f \<noteq> p0 \<and> f \<notin> set ps \<and> (f \<in> set rs \<longleftrightarrow> in_foreach q) \<and> empty_ok q (D(y \<mapsto> t)) f"
    using I(6) empty_ok_upd [of q D _ y s t] assms(2,3) by (auto split: option.splits)
  moreover have "\<forall>x s. (D(y \<mapsto> t)) x = Some s \<longrightarrow> q_in_use s = Some (q_self q) \<longrightarrow>
      x \<in> {r0, p0} \<union> set rs \<union> set ps \<or> foreach_s q = Some x"
    using I(3) assms(2,3) by (auto simp: same_role_def)
  ultimately show ?thesis using I(7,8,9) unfolding dinv_def by (intro conjI)
qed

text \<open>A source that is not attached, or is released, is not seen by the queue.\<close>

lemma dinv_unattached:
  assumes inv: "dinv q D r0 p0 rs ps" and y: "case D y of None \<Rightarrow> True | Some s \<Rightarrow> q_in_use s \<noteq> Some (q_self q)"
    and v: "case v of None \<Rightarrow> True | Some t \<Rightarrow> q_in_use t \<noteq> Some (q_self q)"
  shows "dinv q (D(y := v)) r0 p0 rs ps"
proof -
  note ne = dinv_unattached_notin [OF inv y] and I = dinvD [OF inv]
  have "\<forall>x \<in> set rs. member_ok q (D(y := v)) False x" "\<forall>x \<in> set ps. member_ok q (D(y := v)) True x"
    by (rule members_ok_other [OF I(1) ne(1)], rule members_ok_other [OF I(2) ne(2)])
  moreover have "empty_ok q (D(y := v)) r0" "empty_ok q (D(y := v)) p0"
    using I(4,5) ne(3,4) by (simp_all add: empty_ok_other)
  moreover have "case foreach_s q of None \<Rightarrow> \<not> in_foreach q
      | Some f \<Rightarrow> f \<noteq> r0 \<and> f \<noteq> p0 \<and> f \<notin> set ps \<and> (f \<in> set rs \<longleftrightarrow> in_foreach q) \<and> empty_ok q (D(y := v)) f"
    using I(6) ne(5) by (auto simp: empty_ok_other split: option.splits)
  moreover have "\<forall>x s. (D(y := v)) x = Some s \<longrightarrow> q_in_use s = Some (q_self q) \<longrightarrow>
      x \<in> {r0, p0} \<union> set rs \<union> set ps \<or> foreach_s q = Some x"
    using I(3) v by (auto split: option.splits)
  ultimately show ?thesis using I(7,8,9) unfolding dinv_def by (intro conjI)
qed

text \<open>The queue keeps everything the invariant reads.\<close>

definition same_queue :: "neb_evdp_queue \<Rightarrow> neb_evdp_queue \<Rightarrow> bool" where
  "same_queue q q' \<longleftrightarrow> q_self q' = q_self q \<and> foreach_s q' = foreach_s q \<and> in_foreach q' = in_foreach q"

lemma same_queue_ok:
  "same_queue q q' \<Longrightarrow> member_ok q' D b x = member_ok q D b x" "same_queue q q' \<Longrightarrow> empty_ok q' D x = empty_ok q D x"
  by (simp_all add: same_queue_def member_ok_def empty_ok_def)

lemma events_ok_mono: "events_ok q L \<Longrightarrow> L \<subseteq> L' \<Longrightarrow> events_ok q L'"
  unfolding events_ok_def by blast

lemma dinv_queue:
  assumes inv: "dinv q D r0 p0 rs ps" and q': "same_queue q q'" "events_ok q' (set rs \<union> set ps)"
    "stats_running q' = stats_running q" "stats_pending q' = stats_pending q"
  shows "dinv q' D r0 p0 rs ps"
proof -
  have q: "q_self q' = q_self q" "foreach_s q' = foreach_s q" "in_foreach q' = in_foreach q"
    using q'(1) by (simp_all add: same_queue_def)
  show ?thesis using dinvD [OF inv] q'(2-) unfolding dinv_def same_queue_ok [OF q'(1)] q by (intro conjI) simp_all
qed

text \<open>Attaching: a source joins one of the lists.\<close>

lemma dinv_join:
  assumes inv: "dinv q D r0 p0 rs ps" and y: "D y = Some s" "q_in_use s \<noteq> Some (q_self q)"
    and t: "q_in_use t = Some (q_self q)" "src_wf t" "src_type t \<noteq> SOURCE_NONE"
    and q': "same_queue q q'" "events_ok q' (set rs \<union> set ps)"
    and l: "s_pending t \<and> rs' = rs \<and> ps' = y # ps \<and> stats_pending q' = stats_pending q + 1 \<and> stats_running q' = stats_running q \<or>
       \<not> s_pending t \<and> rs' = y # rs \<and> ps' = ps \<and> stats_pending q' = stats_pending q \<and> stats_running q' = stats_running q + 1"
  shows "dinv q' (D(y \<mapsto> t)) r0 p0 rs' ps'"
proof -
  have y': "case D y of None \<Rightarrow> True | Some s \<Rightarrow> q_in_use s \<noteq> Some (q_self q)" using y by simp
  note ne = dinv_unattached_notin [OF inv y'] and I = dinvD [OF inv]
  have q: "q_self q' = q_self q" "foreach_s q' = foreach_s q" "in_foreach q' = in_foreach q"
    using q'(1) by (simp_all add: same_queue_def)
  have m: "member_ok q' (D(y \<mapsto> t)) (s_pending t) y"
    using t ne q by (auto simp: member_ok_def)
  have old: "\<forall>x \<in> set rs. member_ok q' (D(y \<mapsto> t)) False x" "\<forall>x \<in> set ps. member_ok q' (D(y \<mapsto> t)) True x"
    "empty_ok q' (D(y \<mapsto> t)) r0" "empty_ok q' (D(y \<mapsto> t)) p0"
    unfolding same_queue_ok [OF q'(1)]
    using members_ok_other [OF I(1) ne(1)] members_ok_other [OF I(2) ne(2)] I(4,5) ne by (simp_all add: empty_ok_other)
  have fe: "case foreach_s q' of None \<Rightarrow> \<not> in_foreach q'
      | Some f \<Rightarrow> f \<noteq> r0 \<and> f \<noteq> p0 \<and> f \<notin> set ps' \<and> (f \<in> set rs' \<longleftrightarrow> in_foreach q') \<and> empty_ok q' (D(y \<mapsto> t)) f"
    unfolding same_queue_ok [OF q'(1)] q using I(6) ne(5) l by (auto simp: empty_ok_other split: option.splits)
  have comp: "\<forall>x s. (D(y \<mapsto> t)) x = Some s \<longrightarrow> q_in_use s = Some (q_self q') \<longrightarrow>
      x \<in> {r0, p0} \<union> set rs' \<union> set ps' \<or> foreach_s q' = Some x"
  proof (intro allI impI)
    fix x u
    assume "(D(y \<mapsto> t)) x = Some u" "q_in_use u = Some (q_self q')"
    then show "x \<in> {r0, p0} \<union> set rs' \<union> set ps' \<or> foreach_s q' = Some x"
      using I(3) [rule_format, of x u] l unfolding q by (cases "x = y") auto
  qed
  have st: "stats_running q' = 1 + int (length rs') - (if in_foreach q' then 1 else 0)" "stats_pending q' = 1 + int (length ps')"
    using I(7,8) l q by auto
  have ev: "events_ok q' (set rs' \<union> set ps')" using q'(2) by (rule events_ok_mono) (use l in auto)
  have "\<forall>x \<in> set rs'. member_ok q' (D(y \<mapsto> t)) False x" "\<forall>x \<in> set ps'. member_ok q' (D(y \<mapsto> t)) True x"
    using old(1,2) m l by auto
  then show ?thesis using old(3,4) fe comp st ev unfolding dinv_def by (intro conjI)
qed

text \<open>Detaching: a source leaves its list, and no unhandled event refers to it.\<close>

lemma dinv_leave:
  assumes inv: "dinv q D r0 p0 rs ps" and d: "distinct (r0 # p0 # rs @ ps)" and y: "y \<in> set rs \<union> set ps" "foreach_s q \<noteq> Some y"
    and t: "q_in_use t \<noteq> Some (q_self q)"
    and q': "same_queue q q'" "events_ok q' (set rs \<union> set ps - {y})"
    and st: "y \<in> set rs \<Longrightarrow> stats_running q' = stats_running q - 1 \<and> stats_pending q' = stats_pending q"
       "y \<in> set ps \<Longrightarrow> stats_running q' = stats_running q \<and> stats_pending q' = stats_pending q - 1"
  shows "dinv q' (D(y \<mapsto> t)) r0 p0 (remove1 y rs) (remove1 y ps)"
proof -
  note I = dinvD [OF inv]
  have ne: "y \<noteq> r0" "y \<noteq> p0" using d y by auto
  have q: "q_self q' = q_self q" "foreach_s q' = foreach_s q" "in_foreach q' = in_foreach q"
    using q'(1) by (simp_all add: same_queue_def)
  have sets: "set (remove1 y rs) = set rs - {y}" "set (remove1 y ps) = set ps - {y}"
    using d by (simp_all add: set_remove1_eq)
  have mem: "\<forall>x \<in> set rs - {y}. member_ok q' (D(y \<mapsto> t)) False x" "\<forall>x \<in> set ps - {y}. member_ok q' (D(y \<mapsto> t)) True x"
    "empty_ok q' (D(y \<mapsto> t)) r0" "empty_ok q' (D(y \<mapsto> t)) p0"
    unfolding same_queue_ok [OF q'(1)] using I(1,2,4,5) ne by (simp_all add: member_ok_other empty_ok_other)
  have fe: "case foreach_s q' of None \<Rightarrow> \<not> in_foreach q'
      | Some f \<Rightarrow> f \<noteq> r0 \<and> f \<noteq> p0 \<and> f \<notin> set ps - {y} \<and> (f \<in> set rs - {y} \<longleftrightarrow> in_foreach q') \<and> empty_ok q' (D(y \<mapsto> t)) f"
    unfolding same_queue_ok [OF q'(1)] q using I(6) y(2) by (auto simp: empty_ok_other split: option.splits)
  have comp: "\<forall>x s. (D(y \<mapsto> t)) x = Some s \<longrightarrow> q_in_use s = Some (q_self q') \<longrightarrow>
      x \<in> {r0, p0} \<union> (set rs - {y}) \<union> (set ps - {y}) \<or> foreach_s q' = Some x"
  proof (intro allI impI)
    fix x u
    assume "(D(y \<mapsto> t)) x = Some u" "q_in_use u = Some (q_self q')"
    then show "x \<in> {r0, p0} \<union> (set rs - {y}) \<union> (set ps - {y}) \<or> foreach_s q' = Some x"
      using I(3) [rule_format, of x u] t unfolding q by (cases "x = y") auto
  qed
  have "y \<in> set rs \<and> y \<notin> set ps \<and> 0 < length rs \<or> y \<notin> set rs \<and> y \<in> set ps \<and> 0 < length ps"
    using y(1) d by (auto intro: length_pos_if_in_set)
  then have st': "stats_running q' = 1 + int (length (remove1 y rs)) - (if in_foreach q' then 1 else 0)"
    "stats_pending q' = 1 + int (length (remove1 y ps))"
    using I(7,8) st unfolding q by (auto simp: length_remove1 of_nat_diff Suc_le_eq)
  have ev: "events_ok q' (set (remove1 y rs) \<union> set (remove1 y ps))" using q'(2) by (simp add: sets Un_Diff)
  show ?thesis using mem fe comp st' ev unfolding dinv_def sets by (intro conjI)
qed

section \<open>Attaching\<close>

lemma qinvD:
  assumes "qinv w r0 p0 rs ps"
  shows "queue_live w" "running_qs (queue w) = Some r0" "pending_qs (queue w) = Some p0"
    "qlists (srcs w) r0 p0 rs ps" "dinv (queue w) (data (srcs w)) r0 p0 rs ps" "distinct (r0 # p0 # rs @ ps)"
  using assms unfolding qinv_def qlists_def by simp_all

lemma qinv_unattached_notin:
  assumes "qinv w r0 p0 rs ps" "srcs w x = Some s" "q_in_use s \<noteq> Some (q_self (queue w))"
  shows "x \<notin> set (r0 # p0 # rs @ ps)"
  using dinv_unattached_notin [OF qinvD(5) [OF assms(1)], of x] assms(2,3) by (auto simp: data_def)

text \<open>Writing to a source without touching links or role keeps the invariant.\<close>

lemma qinv_upd_role:
  assumes "qinv w r0 p0 rs ps" "srcs w x = Some s" "s_prev t = s_prev s" "s_next t = s_next s"
    "same_role (unlinked s) (unlinked t)"
  shows "qinv (w\<lparr>srcs := (srcs w)(x \<mapsto> t)\<rparr>) r0 p0 rs ps"
  using assms dinv_upd [OF qinvD(5) [OF assms(1)], of x "unlinked s" "unlinked t"]
  by (simp add: qinv_def qlists_relink data_Some)

lemma qinv_trace [simp]: "qinv (w\<lparr>trace := t\<rparr>) r0 p0 rs ps = qinv w r0 p0 rs ps"
  by (simp add: qinv_def)

lemma qinv_unattached_upd:
  assumes "qinv w r0 p0 rs ps" "srcs w x = Some s" "q_in_use s \<noteq> Some (q_self (queue w))"
    "case v of None \<Rightarrow> True | Some t \<Rightarrow> q_in_use t \<noteq> Some (q_self (queue w))"
  shows "qinv (w\<lparr>srcs := (srcs w)(x := v)\<rparr>) r0 p0 rs ps"
proof -
  have "dinv (queue w) ((data (srcs w))(x := map_option unlinked v)) r0 p0 rs ps"
    using assms by (intro dinv_unattached [OF qinvD(5) [OF assms(1)]]) (auto simp: data_def split: option.splits)
  moreover have "data ((srcs w)(x := v)) = (data (srcs w))(x := map_option unlinked v)"
    by (auto simp: data_def fun_eq_iff)
  ultimately show ?thesis
    using assms(1) qlists_other [OF qinv_unattached_notin [OF assms(1-3)], of "srcs w" v] by (simp add: qinv_def)
qed

text \<open>The final state of an attach: the source, prepared by the driver, is put in a list and marked as
  attached.\<close>

lemma attach_pending:
  assumes inv: "qinv w r0 p0 rs ps" and x: "srcs w x = Some s" "q_in_use s = None" "src_wf s" "src_type s \<noteq> SOURCE_NONE"
  shows "\<exists>w1 w'. EVDP_SLIST_PENDING_INSERT x w = Inr ((), w1) \<and>
    upd_src x (\<lambda>y. y\<lparr>q_in_use := Some (q_self (queue w))\<rparr>) w1 = Inr ((), w') \<and>
    qinv w' r0 p0 rs (x # ps) \<and> trace w' = trace w"
proof -
  note I = qinvD [OF inv]
  have nin: "x \<notin> set (r0 # p0 # rs @ ps)" using qinv_unattached_notin [OF inv x(1)] x(2) by simp
  obtain h' where h': "EVDP_SLIST_PENDING_INSERT x w =
      Inr ((), w\<lparr>srcs := h', queue := (queue w)\<lparr>stats_pending := stats_pending (queue w) + 1\<rparr>\<rparr>)"
    "qlists h' r0 p0 rs (x # ps)" "data h' = (data (srcs w))(x \<mapsto> unlinked (s\<lparr>s_pending := True\<rparr>))"
    using pending_insert [OF I(1,3,4) nin x(1)] by auto
  then obtain t where t: "h' x = Some t" "unlinked t = unlinked (s\<lparr>s_pending := True\<rparr>)"
    by (metis data_SomeE fun_upd_same)
  let ?q = "(queue w)\<lparr>stats_pending := stats_pending (queue w) + 1\<rparr>"
  let ?t = "t\<lparr>q_in_use := Some (q_self (queue w))\<rparr>"
  have wf: "src_wf (unlinked ?t)" using t(2) x(3) by (simp add: src_wf_def)
  have "dinv ?q ((data (srcs w))(x \<mapsto> unlinked ?t)) r0 p0 rs (x # ps)"
    using x t(2) wf dinvD(9) [OF I(5)]
    by (intro dinv_join [OF I(5) data_Some [of "srcs w" x s]]) (auto simp: same_queue_def events_ok_def)
  then have "qinv (w\<lparr>srcs := h'(x \<mapsto> ?t), queue := ?q\<rparr>) r0 p0 rs (x # ps)"
    using I h'(2,3) t(1) by (simp add: qinv_def qlists_relink)
  then show ?thesis using h'(1) t(1) by (simp add: evm_simps qinv_def)
qed

lemma attach_running:
  assumes inv: "qinv w r0 p0 rs ps" and x: "srcs w x = Some s" "q_in_use s = None" "src_wf s" "src_type s \<noteq> SOURCE_NONE"
  shows "\<exists>w1 w'. EVDP_SLIST_RUNNING_INSERT x w = Inr ((), w1) \<and>
    upd_src x (\<lambda>y. y\<lparr>q_in_use := Some (q_self (queue w))\<rparr>) w1 = Inr ((), w') \<and>
    qinv w' r0 p0 (x # rs) ps \<and> trace w' = trace w"
proof -
  note I = qinvD [OF inv]
  have nin: "x \<notin> set (r0 # p0 # rs @ ps)" using qinv_unattached_notin [OF inv x(1)] x(2) by simp
  obtain h' where h': "EVDP_SLIST_RUNNING_INSERT x w =
      Inr ((), w\<lparr>srcs := h', queue := (queue w)\<lparr>stats_running := stats_running (queue w) + 1\<rparr>\<rparr>)"
    "qlists h' r0 p0 (x # rs) ps" "data h' = (data (srcs w))(x \<mapsto> unlinked (s\<lparr>s_pending := False\<rparr>))"
    using running_insert [OF I(1,2,4) nin x(1)] by auto
  then obtain t where t: "h' x = Some t" "unlinked t = unlinked (s\<lparr>s_pending := False\<rparr>)"
    by (metis data_SomeE fun_upd_same)
  let ?q = "(queue w)\<lparr>stats_running := stats_running (queue w) + 1\<rparr>"
  let ?t = "t\<lparr>q_in_use := Some (q_self (queue w))\<rparr>"
  have wf: "src_wf (unlinked ?t)" using t(2) x(3) by (simp add: src_wf_def)
  have "dinv ?q ((data (srcs w))(x \<mapsto> unlinked ?t)) r0 p0 (x # rs) ps"
    using x t(2) wf dinvD(9) [OF I(5)]
    by (intro dinv_join [OF I(5) data_Some [of "srcs w" x s]]) (auto simp: same_queue_def events_ok_def)
  then have "qinv (w\<lparr>srcs := h'(x \<mapsto> ?t), queue := ?q\<rparr>) r0 p0 (x # rs) ps"
    using I h'(2,3) t(1) by (simp add: qinv_def qlists_relink)
  then show ?thesis using h'(1) t(1) by (simp add: evm_simps qinv_def)
qed

text \<open>The events an unattached source asks for decide its list.\<close>

definition wants_events :: "neb_evdp_source \<Rightarrow> bool" where
  "wants_events s \<longleftrightarrow> src_type s \<noteq> OS_FD \<or>
     (case s_context s of None \<Rightarrow> False | Some c \<Rightarrow> has_event (ctl_events c OR EPOLLONESHOT) (EPOLLIN OR EPOLLOUT))"

lemma qinv_prepare:
  assumes "qinv w r0 p0 rs ps" "srcs w x = Some s" "q_in_use s = None" "q_in_use t = None"
  shows "qinv (w\<lparr>srcs := (srcs w)(x \<mapsto> t)\<rparr>) r0 p0 rs ps"
  using qinv_unattached_upd [OF assms(1,2), of "Some t"] assms(3,4) by simp

theorem attach_ok:
  assumes inv: "qinv w r0 p0 rs ps" and x: "srcs w x = Some s" "q_in_use s = None" "src_wf s" "src_type s \<noteq> SOURCE_NONE"
    and q: "\<not> destroying (queue w)"
  shows "\<exists>ret w'. neb_evdp_queue_attach k x w = Inr (ret, w') \<and>
    (ret = 0 \<and> (if wants_events s then qinv w' r0 p0 rs (x # ps) else qinv w' r0 p0 (x # rs) ps) \<or>
     ret = -1 \<and> qinv w' r0 p0 rs ps)"
proof -
  obtain c where c: "s_context s = Some c" using x(3,4) by (auto simp: src_wf_def)
  have live: "queue_live w" by (rule qinvD(1) [OF inv])
  define s1 where "s1 = s\<lparr>s_foreach_id := q_foreach_id (queue w)\<rparr>"
  define w1 where "w1 = w\<lparr>srcs := (srcs w)(x \<mapsto> s1)\<rparr>"
  have w1: "srcs w1 x = Some s1" "queue w1 = queue w" "queue_live w1" "s_context s1 = Some c" by (simp_all add: w1_def s1_def c live)
  have inv1: "qinv w1 r0 p0 rs ps" unfolding w1_def using x by (intro qinv_prepare [OF inv]) (auto simp: s1_def)
  have start: "neb_evdp_queue_attach k x w = ebind (source_attach k (src_type s) x) (\<lambda>ret.
               if ret \<noteq> 0 then eret (-1)
               else eseq (upd_src x (\<lambda>x. x\<lparr>q_in_use := Some (q_self (queue w))\<rparr>)) (eret 0)) w1"
    using x q live by (simp add: neb_evdp_queue_attach_def evm_simps w1_def s1_def)
  have prep: "qinv (w1\<lparr>trace := tr, srcs := (srcs w1)(x \<mapsto> s1\<lparr>s_context := Some c'\<rparr>)\<rparr>) r0 p0 rs ps"
    and wf: "src_wf (s1\<lparr>s_context := Some c'\<rparr>)" for c' tr
    using qinv_prepare [OF inv1 w1(1), of "s1\<lparr>s_context := Some c'\<rparr>"] x
    by (simp_all add: s1_def src_wf_def qinv_def)
  let ?w2 = "\<lambda>c' tr. w1\<lparr>trace := tr, srcs := (srcs w1)(x \<mapsto> s1\<lparr>s_context := Some c'\<rparr>)\<rparr>"
  have finish_p: "\<exists>w3 w'. EVDP_SLIST_PENDING_INSERT x (?w2 c' tr) = Inr ((), w3) \<and>
      upd_src x (\<lambda>y. y\<lparr>q_in_use := Some (q_self (queue w))\<rparr>) w3 = Inr ((), w') \<and> qinv w' r0 p0 rs (x # ps)" for c' tr
    using attach_pending [OF prep [where c' = c' and tr = tr], of x "s1\<lparr>s_context := Some c'\<rparr>"] wf [of c'] x w1 by (simp add: s1_def) blast
  have finish_r: "\<exists>w3 w'. EVDP_SLIST_RUNNING_INSERT x (?w2 c' tr) = Inr ((), w3) \<and>
      upd_src x (\<lambda>y. y\<lparr>q_in_use := Some (q_self (queue w))\<rparr>) w3 = Inr ((), w') \<and> qinv w' r0 p0 (x # rs) ps" for c' tr
    using attach_running [OF prep [where c' = c' and tr = tr], of x "s1\<lparr>s_context := Some c'\<rparr>"] wf [of c'] x w1 by (simp add: s1_def) blast
  have timer: "\<exists>ret w'. ebind m (\<lambda>ret.
               if ret \<noteq> 0 then eret (-1)
               else eseq (upd_src x (\<lambda>x. x\<lparr>q_in_use := Some (q_self (queue w))\<rparr>)) (eret 0)) w1 = Inr (ret, w') \<and>
      (ret = 0 \<and> qinv w' r0 p0 rs (x # ps) \<or> ret = -1 \<and> qinv w' r0 p0 rs ps)"
    if m: "m = ebind (get_context x) (\<lambda>sc.
     ebind (if in_action sc then eret None else sys_ok k (TimerfdSettime (timer_fd sc) fl (its sc))) (\<lambda>err.
       case err of
         Some e \<Rightarrow> eret (-1)
       | None \<Rightarrow>
           eseq (upd_context x (\<lambda>c. c\<lparr>in_action := True, sc_ctl_op := CTL_ADD, ctl_ptr := Some x, ctl_events := EPOLLIN\<rparr>))
          (eseq (EVDP_SLIST_PENDING_INSERT x) (eret 0))))" for m :: "int evm" and fl
  proof -
    let ?c' = "c\<lparr>in_action := True, sc_ctl_op := CTL_ADD, ctl_ptr := Some x, ctl_events := EPOLLIN\<rparr>"
    let ?call = "TimerfdSettime (timer_fd c) fl (its c)"
    have "\<exists>r tr. (if in_action c then eret None else sys_ok k ?call) w1 = Inr (r, w1\<lparr>trace := tr\<rparr>)"
    proof (cases "in_action c")
      case True
      then show ?thesis by (intro exI [of _ None] exI [of _ "trace w1"]) (simp add: evm_simps)
    qed (auto simp: evm_simps sys_ok_def)
    then obtain r tr where r: "(if in_action c then eret None else sys_ok k ?call) w1 = Inr (r, w1\<lparr>trace := tr\<rparr>)" by blast
    show ?thesis
    proof (cases r)
      case None
      then show ?thesis using r finish_p [where c' = ?c' and tr = tr] w1 unfolding m by (auto simp: evm_simps)
    next
      case (Some e)
      then show ?thesis using r inv1 w1 unfolding m by (auto simp: evm_simps)
    qed
  qed
  show ?thesis
  proof (cases "src_type s")
    case SOURCE_NONE
    then show ?thesis using x(4) by simp
  next
    case ITIMER_SEC
    then show ?thesis unfolding start
      using timer [of "evdp_source_itimer_attach k x" False] by (simp add: source_attach_def evdp_source_itimer_attach_def wants_events_def)
  next
    case ITIMER_MSEC
    then show ?thesis unfolding start
      using timer [of "evdp_source_itimer_attach k x" False] by (simp add: source_attach_def evdp_source_itimer_attach_def wants_events_def)
  next
    case ABSTIMER
    then show ?thesis unfolding start
      using timer [of "evdp_source_abstimer_attach k x" True] by (simp add: source_attach_def evdp_source_abstimer_attach_def wants_events_def)
  next
    case RO_FD
    let ?c' = "c\<lparr>sc_ctl_op := CTL_ADD, ctl_ptr := Some x, ctl_events := EPOLLIN\<rparr>"
    show ?thesis unfolding start
      using RO_FD finish_p [where c' = ?c' and tr = "trace w1"] w1
      by (auto simp: source_attach_def evdp_source_ro_fd_attach_def wants_events_def evm_simps)
  next
    case OS_FD
    let ?c' = "c\<lparr>sc_ctl_op := CTL_ADD, ctl_ptr := Some x, ctl_events := ctl_events c OR EPOLLONESHOT\<rparr>"
    show ?thesis unfolding start
      using OS_FD finish_p [where c' = ?c' and tr = "trace w1"] finish_r [where c' = ?c' and tr = "trace w1"] w1 c
      by (cases "has_event (ctl_events c OR EPOLLONESHOT) (EPOLLIN OR EPOLLOUT)") (auto simp: source_attach_def evdp_source_os_fd_attach_def wants_events_def evm_simps)
  qed
qed

end
