(* ===== verification/Neb_Evdp_Detach.thy ===== *)
theory Neb_Evdp_Detach
  imports Neb_Evdp_Inv
begin

text \<open>
  Detaching keeps the invariant and cancels the unhandled events of the source; moving sources
  between the two lists; the flush of the pending list.
\<close>

section \<open>Detaching\<close>

lemma rm_events_spec:
  assumes "nev \<le> length e"
  shows "length (rm_events s cur nev e) = length e \<and>
    (\<forall>i < length e. rm_events s cur nev e ! i = (if cur \<le> i \<and> i < nev \<and> snd (e ! i) = Some s then (fst (e ! i), None) else e ! i))"
  using assms
proof (induction nev)
  case (Suc nev)
  have step: "rm_events s cur (Suc nev) e = (if cur \<le> nev then
      (let r = rm_events s cur nev e in if snd (r ! nev) = Some s then r[nev := (fst (r ! nev), None)] else r) else e)"
    by (auto simp: rm_events_def Let_def)
  show ?case using Suc by (auto simp: step Let_def nth_list_update less_Suc_eq rm_events_def)
qed (simp add: rm_events_def)

text \<open>Event number \<open>i\<close> waits to be handled, or is being handled, and refers to \<open>s\<close>.\<close>

definition event_at :: "neb_evdp_queue \<Rightarrow> nat \<Rightarrow> nat \<Rightarrow> bool" where
  "event_at q i s \<longleftrightarrow> current_event q \<le> int i \<and> int i < nevents q \<and> (\<exists>c. q_context q = Some c \<and> snd (ee c ! i) = Some s)"

lemma rm_pending_events_ok:
  assumes live: "queue_live w" and ev: "events_ok (queue w) L"
  shows "\<exists>q'. evdp_queue_rm_pending_events x w = Inr ((), w\<lparr>queue := q'\<rparr>) \<and> events_ok q' (L - {x}) \<and>
    same_queue (queue w) q' \<and> running_qs q' = running_qs (queue w) \<and> pending_qs q' = pending_qs (queue w) \<and>
    stats_running q' = stats_running (queue w) \<and> stats_pending q' = stats_pending (queue w) \<and>
    destroying q' = destroying (queue w) \<and> q_context q' \<noteq> None \<and>
    current_event q' = current_event (queue w) \<and> nevents q' = nevents (queue w) \<and>
    (\<forall>i s. event_at q' i s \<longleftrightarrow> event_at (queue w) i s \<and> s \<noteq> x)"
proof -
  obtain c where c: "q_context (queue w) = Some c" "nevents (queue w) \<le> int (length (ee c))" "0 \<le> current_event (queue w)"
    "\<And>i s. current_event (queue w) \<le> int i \<Longrightarrow> int i < nevents (queue w) \<Longrightarrow> snd (ee c ! i) = Some s \<Longrightarrow>
       s \<in> L \<and> foreach_s (queue w) \<noteq> Some s"
    using ev by (auto simp: events_ok_def)
  define e' where "e' = rm_events x (nat (current_event (queue w))) (nat (nevents (queue w))) (ee c)"
  define q' where "q' = (queue w)\<lparr>q_context := Some (c\<lparr>ee := e'\<rparr>)\<rparr>"
  have spec: "length e' = length (ee c)" "\<And>i. i < length (ee c) \<Longrightarrow> e' ! i =
      (if nat (current_event (queue w)) \<le> i \<and> i < nat (nevents (queue w)) \<and> snd (ee c ! i) = Some x then (fst (ee c ! i), None) else ee c ! i)"
    using rm_events_spec [of "nat (nevents (queue w))" "ee c" x "nat (current_event (queue w))"] c(2)
    by (auto simp: e'_def nat_le_iff)
  have "s \<in> L - {x} \<and> foreach_s (queue w) \<noteq> Some s"
    if i: "current_event (queue w) \<le> int i" "int i < nevents (queue w)" "snd (e' ! i) = Some s" for i s
  proof -
    have lt: "i < length (ee c)" using i c(2) by linarith
    have "snd (ee c ! i) = Some s" "s \<noteq> x" using i spec(2) [OF lt] c(3) by (auto simp: nat_le_iff zless_nat_eq_int_zless split: if_splits)
    then show ?thesis using c(4) [OF i(1,2)] by auto
  qed
  then have "events_ok q' (L - {x})" using c spec(1) by (auto simp: events_ok_def q'_def)
  moreover have "evdp_queue_rm_pending_events x w = Inr ((), w\<lparr>queue := q'\<rparr>)"
    using live c by (simp add: evdp_queue_rm_pending_events_def evm_simps queue_context_def q'_def e'_def)
  moreover have "event_at q' i s \<longleftrightarrow> event_at (queue w) i s \<and> s \<noteq> x" for i s
  proof (cases "current_event (queue w) \<le> int i \<and> int i < nevents (queue w)")
    case True
    then have lt: "i < length (ee c)" using c(2) by linarith
    then show ?thesis using True c(1,3) spec(2) [OF lt] by (auto simp: event_at_def q'_def nat_le_iff zless_nat_eq_int_zless)
  qed (auto simp: event_at_def q'_def)
  ultimately show ?thesis by (intro exI [of _ q']) (auto simp: same_queue_def q'_def)
qed

text \<open>Every driver detach only writes the context of the source and calls the kernel.\<close>

definition context_only :: "nat \<Rightarrow> neb_evdp_source \<Rightarrow> world \<Rightarrow> world \<Rightarrow> bool" where
  "context_only x s w w' \<longleftrightarrow> (\<exists>c' tr. w' = w\<lparr>trace := tr, srcs := (srcs w)(x \<mapsto> s\<lparr>s_context := c'\<rparr>)\<rparr> \<and>
     (c' = None \<longleftrightarrow> s_context s = None))"

lemma context_onlyI: "s_context s = Some c \<Longrightarrow>
    context_only x s w (w\<lparr>trace := tr, srcs := (srcs w)(x \<mapsto> s\<lparr>s_context := Some c'\<rparr>)\<rparr>)"
  unfolding context_only_def by (intro exI [of _ "Some c'"] exI [of _ tr]) auto

lemma world_upd_commute:
  "w\<lparr>srcs := h, trace := tr\<rparr> = w\<lparr>trace := tr, srcs := h\<rparr>"
  by simp

lemma sys_ok_app: "sys_ok k c w = Inr (case k (trace w) c of SysErr e \<Rightarrow> Some e | SysOk \<Rightarrow> None | _ \<Rightarrow> Some EOTHER,
    w\<lparr>trace := c # trace w\<rparr>)"
  by (simp add: sys_ok_def evm_simps split: sysret.split)

lemma context_only_same: "srcs w x = Some s \<Longrightarrow> context_only x s w w"
  unfolding context_only_def by (intro exI [of _ "s_context s"] exI [of _ "trace w"]) (simp add: fun_upd_idem)

lemma timer_detach_ok:
  assumes w: "queue_live w" "q_context (queue w) = Some qc" "srcs w x = Some s" "s_context s = Some c"
    and m: "m = ebind queue_context (\<lambda>qc. ebind (get_context x) (\<lambda>sc.
     eseq (ewhen (in_action sc)
             (eseq (upd_context x (\<lambda>c. c\<lparr>its := (its c)\<lparr>it_value := ts0\<rparr>\<rparr>))
              (ebind (sys_ok k (TimerfdSettime (timer_fd sc) fl ((its sc)\<lparr>it_value := ts0\<rparr>))) (\<lambda>_.
               upd_context x (\<lambda>c. c\<lparr>in_action := False\<rparr>)))))
          (ewhen (added sc)
             (ebind (sys_ok k (EpollCtl CTL_DEL (timer_fd sc) 0 None)) (\<lambda>_.
               upd_context x (\<lambda>c. c\<lparr>added := False\<rparr>))))))"
  shows "\<exists>w'. m w = Inr ((), w') \<and> context_only x s w w'"
proof -
  have "\<exists>c' tr. m w = Inr ((), w\<lparr>trace := tr, srcs := (srcs w)(x \<mapsto> s\<lparr>s_context := Some c'\<rparr>)\<rparr>)"
  proof (cases "in_action c")
    case True
    then show ?thesis
      using w unfolding m
      by (cases "added c") (auto simp: evm_simps queue_context_def sys_ok_app world_upd_commute [symmetric])
  next
    case False
    show ?thesis
    proof (cases "added c")
      case True
      then show ?thesis using False w unfolding m by (auto simp: evm_simps queue_context_def sys_ok_app)
    next
      case False2: False
      have "w\<lparr>trace := trace w, srcs := (srcs w)(x \<mapsto> s\<lparr>s_context := Some c\<rparr>)\<rparr> = w"
        using w(3,4) by (simp add: fun_upd_idem)
      then show ?thesis using False False2 w unfolding m
        by (intro exI [of _ c] exI [of _ "trace w"]) (simp add: evm_simps queue_context_def)
    qed
  qed
  then show ?thesis using context_onlyI [OF w(4)] by blast
qed

lemma ro_fd_detach_ok:
  assumes w: "queue_live w" "q_context (queue w) = Some qc" "srcs w x = Some s" "s_context s = Some c" "s_conf s = Some cf"
  shows "\<exists>w'. evdp_source_ro_fd_detach k x to_close w = Inr ((), w') \<and> context_only x s w w'"
proof (cases "to_close \<or> added c")
  case True
  then have "\<exists>c' tr. evdp_source_ro_fd_detach k x to_close w =
      Inr ((), w\<lparr>trace := tr, srcs := (srcs w)(x \<mapsto> s\<lparr>s_context := Some c'\<rparr>)\<rparr>)"
  proof (cases to_close)
    case True
    then show ?thesis using w
      by (intro exI [of _ "c\<lparr>added := False\<rparr>"] exI [of _ "trace w"]) (simp add: evdp_source_ro_fd_detach_def evm_simps queue_context_def)
  qed (use w True in \<open>auto simp: evdp_source_ro_fd_detach_def evm_simps queue_context_def sys_ok_app\<close>)
  then show ?thesis using context_onlyI [OF w(4)] by blast
next
  case False
  then show ?thesis using w context_only_same [OF w(3)]
    by (simp add: evdp_source_ro_fd_detach_def evm_simps queue_context_def)
qed

lemma do_del_os_fd_ok:
  assumes w: "queue_live w" "q_context (queue w) = Some qc" "srcs w x = Some s" "s_context s = Some c" "s_conf s = Some cf"
  shows "\<exists>r w'. do_del_os_fd k x w = Inr (r, w') \<and> context_only x s w w'"
proof (cases "k (trace w) (EpollCtl CTL_DEL (fd_of_conf cf) 0 None)")
  case SysOk
  then show ?thesis using w context_onlyI [OF w(4)] by (auto simp: do_del_os_fd_def evm_simps queue_context_def sys_ok_app)
next
  case (SysErr e)
  let ?tr = "EpollCtl CTL_DEL (fd_of_conf cf) 0 None # trace w"
  have same: "w\<lparr>trace := ?tr, srcs := (srcs w)(x \<mapsto> s\<lparr>s_context := Some c\<rparr>)\<rparr> = w\<lparr>trace := ?tr\<rparr>"
    using w(3,4) by (simp add: fun_upd_idem)
  show ?thesis
  proof (cases "e = ENOENT")
    case True
    then show ?thesis using SysErr w context_onlyI [OF w(4)] by (auto simp: do_del_os_fd_def evm_simps queue_context_def sys_ok_app)
  next
    case False
    then show ?thesis using SysErr w context_onlyI [OF w(4), where x = x and w = w and tr = ?tr and c' = c] unfolding same
      by (auto simp: do_del_os_fd_def evm_simps queue_context_def sys_ok_app)
  qed
qed (use w context_onlyI [OF w(4), where x = x and w = w and tr = "EpollCtl CTL_DEL (fd_of_conf cf) 0 None # trace w" and c' = c] in
  \<open>simp_all add: do_del_os_fd_def evm_simps queue_context_def sys_ok_app fun_upd_idem\<close>)

lemma os_fd_detach_ok:
  assumes w: "queue_live w" "q_context (queue w) = Some qc" "srcs w x = Some s" "s_context s = Some c" "s_conf s = Some cf"
  shows "\<exists>w'. evdp_source_os_fd_detach k x to_close w = Inr ((), w') \<and> context_only x s w w'"
proof (cases to_close)
  case True
  then show ?thesis using w context_onlyI [OF w(4), where x = x and w = w and tr = "trace w" and c' = "c\<lparr>added := False\<rparr>"]
    by (simp add: evdp_source_os_fd_detach_def evm_simps)
next
  case False
  obtain r w' where "do_del_os_fd k x w = Inr (r, w')" "context_only x s w w'"
    using do_del_os_fd_ok [OF w] by blast
  then show ?thesis using False w context_only_same [OF w(3)]
    by (cases "added c") (auto simp: evdp_source_os_fd_detach_def evm_simps)
qed

lemma conf_fits_Some: "conf_fits t c \<Longrightarrow> t \<noteq> SOURCE_NONE \<Longrightarrow> \<exists>cf. c = Some cf"
  by (cases "(t, c)" rule: conf_fits.cases) auto

lemma source_detach_ok:
  assumes w: "queue_live w" "q_context (queue w) \<noteq> None" "srcs w x = Some s" "src_wf s"
  shows "\<exists>w'. source_detach k (src_type s) x to_close w = Inr ((), w') \<and> context_only x s w w'"
proof (cases "src_type s = SOURCE_NONE")
  case True
  then show ?thesis using context_only_same [OF w(3)] by (simp add: source_detach_def evm_simps)
next
  case False
  obtain qc where qc: "q_context (queue w) = Some qc" using w(2) by auto
  obtain c cf where c: "s_context s = Some c" "s_conf s = Some cf"
    using w(4) False conf_fits_Some [of "src_type s" "s_conf s"] by (auto simp: src_wf_def)
  note ok = timer_detach_ok [OF w(1) qc w(3) c(1)]
  show ?thesis
  proof (cases "src_type s")
    case ITIMER_SEC
    then show ?thesis using ok [of "evdp_source_itimer_detach k x" k False]
      by (simp add: source_detach_def evdp_source_itimer_detach_def)
  next
    case ITIMER_MSEC
    then show ?thesis using ok [of "evdp_source_itimer_detach k x" k False]
      by (simp add: source_detach_def evdp_source_itimer_detach_def)
  next
    case ABSTIMER
    then show ?thesis using ok [of "evdp_source_abstimer_detach k x" k True]
      by (simp add: source_detach_def evdp_source_abstimer_detach_def)
  qed (use False ro_fd_detach_ok [OF w(1) qc w(3) c] os_fd_detach_ok [OF w(1) qc w(3) c] in \<open>simp_all add: source_detach_def\<close>)
qed

text \<open>The state when the \<open>on_remove\<close> callback runs.\<close>

definition detached_queue :: "nat \<Rightarrow> neb_evdp_queue \<Rightarrow> neb_evdp_queue \<Rightarrow> bool" where
  "detached_queue x q q' \<longleftrightarrow> same_queue q q' \<and> destroying q' = destroying q \<and> current_event q' = current_event q \<and>
     nevents q' = nevents q \<and> (\<forall>i s. event_at q' i s \<longleftrightarrow> event_at q i s \<and> s \<noteq> x)"

lemma detach_links_ok:
  assumes inv: "qinv w r0 p0 rs ps" and x: "x \<in> set rs \<union> set ps" "foreach_s (queue w) \<noteq> Some x"
  shows "\<exists>w' t. do_detach_from_queue k rem x to_close w = run_on_remove k rem x w' \<and>
    qinv w' r0 p0 (remove1 x rs) (remove1 x ps) \<and> srcs w' x = Some t \<and> q_in_use t = None \<and>
    (\<exists>s. srcs w x = Some s \<and> s_on_remove t = s_on_remove s) \<and> detached_queue x (queue w) (queue w') \<and>
    (\<forall>y. y \<noteq> x \<longrightarrow> types (srcs w') y = types (srcs w) y)"
proof -
  note I = qinvD [OF inv] and D = dinvD [OF qinvD(5) [OF inv]]
  let ?pend = "x \<in> set ps"
  have mem: "member_ok (queue w) (data (srcs w)) ?pend x" using D(1,2) x(1) I(6) by (cases ?pend) auto
  then obtain s where s: "srcs w x = Some s" "q_in_use s = Some (q_self (queue w))" "s_pending s = ?pend" "src_wf s"
    by (auto simp: member_ok_def src_wf_def elim!: data_SomeE)
  obtain q1 where q1: "evdp_queue_rm_pending_events x w = Inr ((), w\<lparr>queue := q1\<rparr>)" "events_ok q1 (set rs \<union> set ps - {x})"
    "same_queue (queue w) q1" "running_qs q1 = running_qs (queue w)" "pending_qs q1 = pending_qs (queue w)"
    "stats_running q1 = stats_running (queue w)" "stats_pending q1 = stats_pending (queue w)"
    "destroying q1 = destroying (queue w)" "q_context q1 \<noteq> None"
    "current_event q1 = current_event (queue w)" "nevents q1 = nevents (queue w)"
    "\<forall>i s. event_at q1 i s \<longleftrightarrow> event_at (queue w) i s \<and> s \<noteq> x"
    using rm_pending_events_ok [OF I(1) D(9)] by blast
  let ?w1 = "w\<lparr>queue := q1\<rparr>"
  obtain c' tr where det: "source_detach k (src_type s) x to_close ?w1 =
      Inr ((), ?w1\<lparr>trace := tr, srcs := (srcs w)(x \<mapsto> s\<lparr>s_context := c'\<rparr>)\<rparr>)"
    using source_detach_ok [of ?w1 x s k to_close] I(1) q1(9) s by (auto simp: context_only_def)
  let ?w2 = "?w1\<lparr>trace := tr, srcs := (srcs w)(x \<mapsto> s\<lparr>s_context := c'\<rparr>)\<rparr>"
  have "qlists (srcs ?w2) r0 p0 rs ps" using I(4) s(1) by (simp add: qlists_relink)
  from qlists_remove [OF this x(1)] obtain h' t where h': "EVDP_SLIST_REMOVE x ?w2 = Inr ((), ?w2\<lparr>srcs := h'\<rparr>)"
    "qlists h' r0 p0 (remove1 x rs) (remove1 x ps)" "data h' = (data (srcs w))(x \<mapsto> unlinked (s\<lparr>s_context := c'\<rparr>))" "h' x = Some t"
    by auto
  have t: "unlinked t = unlinked (s\<lparr>s_context := c'\<rparr>)" using h'(3,4) by (metis data_Some fun_upd_same option.inject)
  have ut: "q_in_use t = q_in_use s" "s_pending t = ?pend" "s_on_remove t = s_on_remove s" "src_type t = src_type s"
    using arg_cong [OF t, of q_in_use] arg_cong [OF t, of s_pending] arg_cong [OF t, of s_on_remove] arg_cong [OF t, of src_type] s(3)
    by simp_all
  let ?q2 = "if ?pend then q1\<lparr>stats_pending := stats_pending q1 - 1\<rparr> else q1\<lparr>stats_running := stats_running q1 - 1\<rparr>"
  let ?t = "t\<lparr>s_pending := False, q_in_use := None\<rparr>"
  define w' where "w' = ?w2\<lparr>queue := ?q2, srcs := h'(x \<mapsto> ?t)\<rparr>"
  have tp: "?t = t\<lparr>q_in_use := None\<rparr>" if "\<not> ?pend" using ut(2) that by (cases t) auto
  have "do_detach_from_queue k rem x to_close w = run_on_remove k rem x w'"
  proof (cases ?pend)
    case True
    then show ?thesis using q1(1) det h'(1,4) s(1) ut(2) I(1) by (simp add: do_detach_from_queue_def evm_simps w'_def)
  next
    case False
    then show ?thesis using q1(1) det h'(1,4) s(1) ut(2) I(1)
      unfolding w'_def tp [OF False] by (simp add: do_detach_from_queue_def evm_simps)
  qed
  moreover have "dinv ?q2 ((data (srcs w))(x \<mapsto> unlinked ?t)) r0 p0 (remove1 x rs) (remove1 x ps)"
  proof (rule dinv_leave [OF I(5,6) x])
    show "same_queue (queue w) ?q2" using q1(3) by (simp add: same_queue_def)
    show "events_ok ?q2 (set rs \<union> set ps - {x})" using q1(2) by (simp add: events_ok_def)
  qed (use q1(6,7) I(6) in auto)
  then have "qinv w' r0 p0 (remove1 x rs) (remove1 x ps)"
    using I(1,2,3) h'(2,3,4) q1(4,5) by (simp add: qinv_def w'_def qlists_relink)
  moreover have "srcs w' x = Some ?t" "q_in_use ?t = None" "s_on_remove ?t = s_on_remove s"
    using ut by (auto simp: w'_def)
  moreover have "detached_queue x (queue w) (queue w')"
    using q1(3,8-) by (auto simp: w'_def detached_queue_def same_queue_def event_at_def)
  moreover have "types h' = (types (srcs w))(x \<mapsto> src_type s)"
    using types_data [of h'] types_data [of "srcs w"] h'(3) by simp
  then have "\<forall>y. y \<noteq> x \<longrightarrow> types (srcs w') y = types (srcs w) y" by (simp add: w'_def)
  ultimately show ?thesis using s(1) by blast
qed

text \<open>What a user's \<open>on_remove\<close> callback may do: anything to the removed source and to the
  world outside the queue and its two lists.\<close>

definition remover_ok :: "removers \<Rightarrow> bool" where
  "remover_ok rem \<longleftrightarrow> (\<forall>h x w r0 p0 rs ps t. qinv w r0 p0 rs ps \<and> srcs w x = Some t \<and> q_in_use t = None \<longrightarrow>
     (\<exists>r w'. rem h x w = Inr (r, w') \<and> qinv w' r0 p0 rs ps \<and> queue w' = queue w \<and>
        (\<forall>y \<in> set rs \<union> set ps. types (srcs w') y = types (srcs w) y)))"

lemma source_del_unattached:
  assumes inv: "qinv w r0 p0 rs ps" and x: "srcs w x = Some t" "q_in_use t = None"
  shows "\<exists>w'. neb_evdp_source_del k x w = Inr (0, w') \<and> qinv w' r0 p0 rs ps \<and> srcs w' = (srcs w)(x := None) \<and> queue w' = queue w"
proof -
  have ctx: "\<exists>tr. (case s_context t of None \<Rightarrow> eret () | Some c \<Rightarrow> destroy_source_context k (src_type t) c) w = Inr ((), w\<lparr>trace := tr\<rparr>)"
  proof (cases "s_context t")
    case None
    then show ?thesis by (intro exI [of _ "trace w"]) (simp add: evm_simps)
  next
    case (Some c)
    have "\<exists>tr. destroy_source_context k (src_type t) c w = Inr ((), w\<lparr>trace := tr\<rparr>)"
    proof (cases "src_type t \<in> {ITIMER_SEC, ITIMER_MSEC, ABSTIMER} \<and> 0 \<le> timer_fd c")
      case True
      then show ?thesis
        by (auto simp: destroy_source_context_def evm_simps evdp_destroy_source_itimer_context_def evdp_destroy_source_abstimer_context_def)
    next
      case False
      then show ?thesis
        by (intro exI [of _ "trace w"])
          (auto simp: destroy_source_context_def evm_simps evdp_destroy_source_itimer_context_def evdp_destroy_source_abstimer_context_def split: src_type.split)
    qed
    then show ?thesis using Some by simp
  qed
  then obtain tr where tr: "(case s_context t of None \<Rightarrow> eret () | Some c \<Rightarrow> destroy_source_context k (src_type t) c) w = Inr ((), w\<lparr>trace := tr\<rparr>)"
    by blast
  let ?w' = "w\<lparr>trace := tr, srcs := (srcs w)(x := None)\<rparr>"
  have "neb_evdp_source_del k x w = Inr (0, ?w')"
    using x tr by (simp add: neb_evdp_source_del_def evm_simps)
  moreover have "qinv ?w' r0 p0 rs ps"
    using qinv_unattached_upd [OF inv x(1), of None] x(2) by (simp add: qinv_def)
  ultimately show ?thesis by auto
qed

theorem detach_ok:
  assumes inv: "qinv w r0 p0 rs ps" and x: "x \<in> set rs \<union> set ps" "foreach_s (queue w) \<noteq> Some x" and rem: "remover_ok rem"
  shows "\<exists>w'. do_detach_from_queue k rem x to_close w = Inr ((), w') \<and> qinv w' r0 p0 (remove1 x rs) (remove1 x ps) \<and>
    detached_queue x (queue w) (queue w') \<and> (\<forall>y \<in> set rs \<union> set ps - {x}. types (srcs w') y = types (srcs w) y)"
proof -
  obtain w1 t where w1: "do_detach_from_queue k rem x to_close w = run_on_remove k rem x w1"
    "qinv w1 r0 p0 (remove1 x rs) (remove1 x ps)" "srcs w1 x = Some t" "q_in_use t = None"
    "detached_queue x (queue w) (queue w1)" "\<forall>y. y \<noteq> x \<longrightarrow> types (srcs w1) y = types (srcs w) y"
    using detach_links_ok [OF inv x] by blast
  have sets: "set (remove1 x rs) \<union> set (remove1 x ps) = set rs \<union> set ps - {x}"
    using qinvD(6) [OF inv] by (auto simp: set_remove1_eq)
  have "\<exists>w'. run_on_remove k rem x w1 = Inr ((), w') \<and> qinv w' r0 p0 (remove1 x rs) (remove1 x ps) \<and> queue w' = queue w1 \<and>
    (\<forall>y \<in> set rs \<union> set ps - {x}. types (srcs w') y = types (srcs w1) y)"
  proof (cases "s_on_remove t")
    case NoRemove
    then show ?thesis using w1 by (simp add: run_on_remove_def evm_simps)
  next
    case RemoveDel
    then show ?thesis using w1(3) source_del_unattached [OF w1(2-4), of k] by (auto simp: run_on_remove_def evm_simps)
  next
    case (RemoveUser h)
    obtain r w' where "rem h x w1 = Inr (r, w')" "qinv w' r0 p0 (remove1 x rs) (remove1 x ps)" "queue w' = queue w1"
      "\<forall>y \<in> set rs \<union> set ps - {x}. types (srcs w') y = types (srcs w1) y"
      using rem w1(2-4) unfolding remover_ok_def sets [symmetric] by blast
    then show ?thesis using RemoveUser w1(3) by (auto simp: run_on_remove_def evm_simps)
  qed
  then show ?thesis using w1(1,5,6) by auto
qed

section \<open>Moving between the lists\<close>

lemma dinv_move:
  assumes inv: "dinv q D r0 p0 rs ps" and d: "distinct (r0 # p0 # rs @ ps)" and y: "D y = Some s" "foreach_s q \<noteq> Some y"
    and t: "q_in_use t = q_in_use s" "src_type t = src_type s" "src_wf s \<Longrightarrow> src_wf t"
    and q': "same_queue q q'" "events_ok q' (set rs \<union> set ps)"
    and l: "y \<in> set rs \<and> s_pending t \<and> rs' = remove1 y rs \<and> ps' = y # ps \<and> stats_pending q' = stats_pending q + 1 \<and> stats_running q' = stats_running q - 1 \<or>
       y \<in> set ps \<and> \<not> s_pending t \<and> rs' = y # rs \<and> ps' = remove1 y ps \<and> stats_pending q' = stats_pending q - 1 \<and> stats_running q' = stats_running q + 1"
  shows "dinv q' (D(y \<mapsto> t)) r0 p0 rs' ps'"
proof -
  note I = dinvD [OF inv]
  have ne: "y \<noteq> r0" "y \<noteq> p0" using d l by auto
  have q: "q_self q' = q_self q" "foreach_s q' = foreach_s q" "in_foreach q' = in_foreach q"
    using q'(1) by (simp_all add: same_queue_def)
  have sets: "set (remove1 y rs) = set rs - {y}" "set (remove1 y ps) = set ps - {y}"
    using d by (simp_all add: set_remove1_eq)
  have same: "set rs' \<union> set ps' = set rs \<union> set ps" using l sets d by auto
  have "member_ok q D (y \<in> set ps) y" using I(1,2) l d by (cases "y \<in> set ps") auto
  then have m: "member_ok q' (D(y \<mapsto> t)) (s_pending t) y"
    using t y q by (auto simp: member_ok_def)
  have old: "\<forall>x \<in> set rs - {y}. member_ok q' (D(y \<mapsto> t)) False x" "\<forall>x \<in> set ps - {y}. member_ok q' (D(y \<mapsto> t)) True x"
    "empty_ok q' (D(y \<mapsto> t)) r0" "empty_ok q' (D(y \<mapsto> t)) p0"
    unfolding same_queue_ok [OF q'(1)] using I(1,2,4,5) ne by (simp_all add: member_ok_other empty_ok_other)
  have mem: "\<forall>x \<in> set rs'. member_ok q' (D(y \<mapsto> t)) False x" "\<forall>x \<in> set ps'. member_ok q' (D(y \<mapsto> t)) True x"
    using old(1,2) m l sets d by auto
  have fe: "case foreach_s q' of None \<Rightarrow> \<not> in_foreach q'
      | Some f \<Rightarrow> f \<noteq> r0 \<and> f \<noteq> p0 \<and> f \<notin> set ps' \<and> (f \<in> set rs' \<longleftrightarrow> in_foreach q') \<and> empty_ok q' (D(y \<mapsto> t)) f"
  proof (cases "foreach_s q")
    case (Some f)
    then have "f \<noteq> y" using y(2) by auto
    then have "f \<in> set rs' \<longleftrightarrow> f \<in> set rs" "f \<in> set ps' \<longleftrightarrow> f \<in> set ps" using l sets by (elim disjE; simp)+
    then show ?thesis using I(6) Some \<open>f \<noteq> y\<close> unfolding same_queue_ok [OF q'(1)] q by (simp add: empty_ok_other)
  qed (use I(6) q in simp)
  have comp: "\<forall>x s. (D(y \<mapsto> t)) x = Some s \<longrightarrow> q_in_use s = Some (q_self q') \<longrightarrow>
      x \<in> {r0, p0} \<union> set rs' \<union> set ps' \<or> foreach_s q' = Some x"
  proof (intro allI impI)
    fix x u
    assume "(D(y \<mapsto> t)) x = Some u" "q_in_use u = Some (q_self q')"
    then show "x \<in> {r0, p0} \<union> set rs' \<union> set ps' \<or> foreach_s q' = Some x"
      using I(3) [rule_format, of x u] l same unfolding q by (cases "x = y") auto
  qed
  have "int (length (remove1 y rs)) = int (length rs) - 1" if "y \<in> set rs" for rs
    using length_remove1_mem [OF that] length_pos_if_in_set [OF that] by linarith
  then have st': "stats_running q' = 1 + int (length rs') - (if in_foreach q' then 1 else 0)"
    "stats_pending q' = 1 + int (length ps')"
    using I(7,8) l unfolding q by auto
  show ?thesis using mem old(3,4) fe comp st' q'(2) unfolding dinv_def same by (intro conjI)
qed

text \<open>Both directions, with the counters written by the caller.\<close>

lemma move_links:
  assumes w: "queue_live w" "running_qs (queue w) = Some r0" "pending_qs (queue w) = Some p0" "qlists (srcs w) r0 p0 rs ps"
    and x: "x \<in> set ps" "srcs w x = Some s"
  shows "\<exists>h1 h'. EVDP_SLIST_REMOVE x w = Inr ((), w\<lparr>srcs := h1\<rparr>) \<and>
     EVDP_SLIST_RUNNING_INSERT_NO_STATS x (w\<lparr>srcs := h1\<rparr>) = Inr ((), w\<lparr>srcs := h'\<rparr>) \<and>
     qlists h' r0 p0 (x # rs) (remove1 x ps) \<and> data h' = (data (srcs w))(x \<mapsto> unlinked (s\<lparr>s_pending := False\<rparr>))"
proof -
  have d: "distinct (r0 # p0 # rs @ ps)" using w(4) by (simp add: qlists_def)
  have nr: "remove1 x rs = rs" using d x(1) by (intro remove1_idem) auto
  obtain h1 t where h1: "EVDP_SLIST_REMOVE x w = Inr ((), w\<lparr>srcs := h1\<rparr>)" "qlists h1 r0 p0 rs (remove1 x ps)"
    "data h1 = data (srcs w)" "h1 x = Some t"
    using qlists_remove [OF w(4), of x] x(1) nr by auto
  have t: "unlinked t = unlinked s" using h1(3,4) x(2) by (metis data_Some option.inject)
  have "x \<notin> set (r0 # p0 # rs @ remove1 x ps)" using d x(1) by (auto simp: set_remove1_eq)
  from running_insert_no_stats [of "w\<lparr>srcs := h1\<rparr>" r0 p0 rs "remove1 x ps" x t] this
  obtain h' where "EVDP_SLIST_RUNNING_INSERT_NO_STATS x (w\<lparr>srcs := h1\<rparr>) = Inr ((), w\<lparr>srcs := h'\<rparr>)"
    "qlists h' r0 p0 (x # rs) (remove1 x ps)" "data h' = (data h1)(x \<mapsto> unlinked (t\<lparr>s_pending := False\<rparr>))"
    using w h1 by auto
  then show ?thesis using h1(1,3) t by auto
qed

lemma pending_to_running_ok:
  assumes inv: "qinv w r0 p0 rs ps" and x: "x \<in> set ps"
  shows "\<exists>w'. pending_to_running x w = Inr ((), w') \<and> qinv w' r0 p0 (x # rs) (remove1 x ps) \<and> types (srcs w') = types (srcs w)"
proof -
  note I = qinvD [OF inv] and D = dinvD [OF qinvD(5) [OF inv]]
  have mem: "member_ok (queue w) (data (srcs w)) True x" using D(2) x by auto
  then obtain s where s: "srcs w x = Some s" by (auto simp: member_ok_def elim!: data_SomeE)
  have fx: "foreach_s (queue w) \<noteq> Some x" using D(6) x by (auto split: option.splits)
  let ?q = "(queue w)\<lparr>stats_pending := stats_pending (queue w) - 1\<rparr>"
  let ?q' = "?q\<lparr>stats_running := stats_running (queue w) + 1\<rparr>"
  have nr: "remove1 x rs = rs" using I(6) x by (intro remove1_idem) auto
  obtain h1 t where h1: "EVDP_SLIST_REMOVE x w = Inr ((), w\<lparr>srcs := h1\<rparr>)" "qlists h1 r0 p0 rs (remove1 x ps)"
    "data h1 = data (srcs w)" "h1 x = Some t"
    using qlists_remove [OF I(4), of x] x nr by auto
  have t: "unlinked t = unlinked s" using h1(3,4) s by (metis data_Some option.inject)
  have nin: "x \<notin> set (r0 # p0 # rs @ remove1 x ps)" using I(6) x by (auto simp: set_remove1_eq)
  from running_insert [of "w\<lparr>srcs := h1, queue := ?q\<rparr>" r0 p0 rs "remove1 x ps" x t] nin
  obtain h' where h': "EVDP_SLIST_RUNNING_INSERT x (w\<lparr>srcs := h1, queue := ?q\<rparr>) = Inr ((), w\<lparr>srcs := h', queue := ?q'\<rparr>)"
    "qlists h' r0 p0 (x # rs) (remove1 x ps)" "data h' = (data (srcs w))(x \<mapsto> unlinked (s\<lparr>s_pending := False\<rparr>))"
    using I(1,2) h1 t by auto
  have "dinv ?q' ((data (srcs w))(x \<mapsto> unlinked (s\<lparr>s_pending := False\<rparr>))) r0 p0 (x # rs) (remove1 x ps)"
    using D(9) x by (intro dinv_move [OF I(5,6) data_Some [of "srcs w" x, OF s] fx]) (auto simp: same_queue_def events_ok_def src_wf_def)
  then have "qinv (w\<lparr>srcs := h', queue := ?q'\<rparr>) r0 p0 (x # rs) (remove1 x ps)"
    using I h' by (simp add: qinv_def)
  moreover have "types h' = types (srcs w)"
    using h'(3) s types_data [of h'] types_data [of "srcs w"] by (auto simp: types_def [of "srcs w" x] fun_upd_idem)
  ultimately have "qinv (w\<lparr>srcs := h', queue := ?q'\<rparr>) r0 p0 (x # rs) (remove1 x ps) \<and> types h' = types (srcs w)" by simp
  then show ?thesis using h1(1) h'(1) I(1) by (simp add: pending_to_running_def evm_simps)
qed

lemma running_to_pending_ok:
  assumes inv: "qinv w r0 p0 rs ps" and x: "x \<in> set rs" and fx: "foreach_s (queue w) \<noteq> Some x"
  shows "\<exists>w'. running_to_pending x w = Inr ((), w') \<and> qinv w' r0 p0 (remove1 x rs) (x # ps) \<and>
    queue w' = (queue w)\<lparr>stats_running := stats_running (queue w) - 1, stats_pending := stats_pending (queue w) + 1\<rparr> \<and>
    types (srcs w') = types (srcs w)"
proof -
  note I = qinvD [OF inv] and D = dinvD [OF qinvD(5) [OF inv]]
  have mem: "member_ok (queue w) (data (srcs w)) False x" using D(1) x by auto
  then obtain s where s: "srcs w x = Some s" by (auto simp: member_ok_def elim!: data_SomeE)
  let ?q = "(queue w)\<lparr>stats_running := stats_running (queue w) - 1\<rparr>"
  let ?q' = "?q\<lparr>stats_pending := stats_pending (queue w) + 1\<rparr>"
  have nr: "remove1 x ps = ps" using I(6) x by (intro remove1_idem) auto
  obtain h1 t where h1: "EVDP_SLIST_REMOVE x w = Inr ((), w\<lparr>srcs := h1\<rparr>)" "qlists h1 r0 p0 (remove1 x rs) ps"
    "data h1 = data (srcs w)" "h1 x = Some t"
    using qlists_remove [OF I(4), of x] x nr by auto
  have t: "unlinked t = unlinked s" using h1(3,4) s by (metis data_Some option.inject)
  have nin: "x \<notin> set (r0 # p0 # remove1 x rs @ ps)" using I(6) x by (auto simp: set_remove1_eq)
  from pending_insert [of "w\<lparr>srcs := h1, queue := ?q\<rparr>" p0 r0 "remove1 x rs" ps x t] nin
  obtain h' where h': "EVDP_SLIST_PENDING_INSERT x (w\<lparr>srcs := h1, queue := ?q\<rparr>) = Inr ((), w\<lparr>srcs := h', queue := ?q'\<rparr>)"
    "qlists h' r0 p0 (remove1 x rs) (x # ps)" "data h' = (data (srcs w))(x \<mapsto> unlinked (s\<lparr>s_pending := True\<rparr>))"
    using I(1,3) h1 t by auto
  have "dinv ?q' ((data (srcs w))(x \<mapsto> unlinked (s\<lparr>s_pending := True\<rparr>))) r0 p0 (remove1 x rs) (x # ps)"
    using D(9) x by (intro dinv_move [OF I(5,6) data_Some [of "srcs w" x, OF s] fx]) (auto simp: same_queue_def events_ok_def src_wf_def)
  then have "qinv (w\<lparr>srcs := h', queue := ?q'\<rparr>) r0 p0 (remove1 x rs) (x # ps)"
    using I h' by (simp add: qinv_def)
  moreover have "types h' = types (srcs w)"
    using h'(3) s types_data [of h'] types_data [of "srcs w"] by (auto simp: types_def [of "srcs w" x] fun_upd_idem)
  ultimately have "qinv (w\<lparr>srcs := h', queue := ?q'\<rparr>) r0 p0 (remove1 x rs) (x # ps) \<and> types h' = types (srcs w)" by simp
  then show ?thesis using h1(1) h'(1) I(1) by (simp add: running_to_pending_def evm_simps)
qed

section \<open>Flushing the pending sources\<close>

text \<open>The flush counts the moved sources in the end only: its loop keeps the invariant of the
  world in which they are counted already.\<close>

definition counted :: "int \<Rightarrow> world \<Rightarrow> world" where
  "counted n w = w\<lparr>queue := (queue w)\<lparr>stats_pending := stats_pending (queue w) - n, stats_running := stats_running (queue w) + n\<rparr>\<rparr>"

lemma counted_sel [simp]: "queue_live (counted n w) = queue_live w" "srcs (counted n w) = srcs w" "trace (counted n w) = trace w"
  by (simp_all add: counted_def)

lemma counted_zero: "counted 0 w = w"
  by (simp add: counted_def)

lemma source_fd_ok:
  assumes "srcs w x = Some s" "src_wf s" "src_type s \<noteq> SOURCE_NONE"
  shows "\<exists>fd. source_fd x w = Inr (Some fd, w)"
proof -
  obtain c where c: "s_context s = Some c" using assms by (auto simp: src_wf_def)
  have "conf_fits (src_type s) (s_conf s)" using assms by (simp add: src_wf_def)
  then show ?thesis using assms c
    by (cases "(src_type s, s_conf s)" rule: conf_fits.cases) (auto simp: source_fd_def evm_simps)
qed

lemma flush_step:
  assumes inv: "qinv (counted n w) r0 p0 rs (x # ps)" and x: "srcs w x = Some s" "s_context s = Some c"
  shows "\<exists>h1 w'. EVDP_SLIST_REMOVE x (w\<lparr>trace := tr, srcs := (srcs w)(x \<mapsto> s\<lparr>s_context := Some c'\<rparr>)\<rparr>) = Inr ((), w\<lparr>trace := tr, srcs := h1\<rparr>) \<and>
    EVDP_SLIST_RUNNING_INSERT_NO_STATS x (w\<lparr>trace := tr, srcs := h1\<rparr>) = Inr ((), w') \<and>
    queue w' = queue w \<and> qinv (counted (n + 1) w') r0 p0 (x # rs) ps"
proof -
  note I = qinvD [OF inv] and D = dinvD [OF qinvD(5) [OF inv]]
  let ?s = "s\<lparr>s_context := Some c'\<rparr>"
  let ?w = "w\<lparr>trace := tr, srcs := (srcs w)(x \<mapsto> ?s)\<rparr>"
  have q: "queue_live w" "running_qs (queue w) = Some r0" "pending_qs (queue w) = Some p0" using I(1-3) by (simp_all add: counted_def)
  have ql: "qlists (srcs ?w) r0 p0 rs (x # ps)" using I(4) x by (simp add: qlists_relink)
  from move_links [OF _ _ _ this, of x ?s]
  obtain h1 h' where h: "EVDP_SLIST_REMOVE x ?w = Inr ((), w\<lparr>trace := tr, srcs := h1\<rparr>)"
    "EVDP_SLIST_RUNNING_INSERT_NO_STATS x (w\<lparr>trace := tr, srcs := h1\<rparr>) = Inr ((), w\<lparr>trace := tr, srcs := h'\<rparr>)"
    "qlists h' r0 p0 (x # rs) ps" "data h' = (data (srcs w))(x \<mapsto> unlinked (?s\<lparr>s_pending := False\<rparr>))"
    using q by auto
  have fx: "foreach_s (queue (counted n w)) \<noteq> Some x" using D(6) by (auto split: option.splits)
  have "dinv (queue (counted (n + 1) w)) ((data (srcs w))(x \<mapsto> unlinked (?s\<lparr>s_pending := False\<rparr>))) r0 p0 (x # rs) ps"
    using D(9) x by (intro dinv_move [OF I(5) [unfolded counted_sel] I(6) data_Some [of "srcs w" x s] fx])
      (auto simp: same_queue_def events_ok_def src_wf_def counted_def)
  then have "qinv (counted (n + 1) (w\<lparr>trace := tr, srcs := h'\<rparr>)) r0 p0 (x # rs) ps"
    using q h by (simp add: qinv_def counted_def)
  then show ?thesis using h(1,2) by auto
qed

lemma flush_loop_ok:
  assumes "qinv (counted n w) r0 p0 rs ps" "length ps < fuel"
  shows "\<exists>ret cnt w' ms. flush_pending_loop k fuel n w = Inr ((ret, cnt), w') \<and>
    (\<exists>qs. ps = ms @ qs \<and> qinv (counted cnt w') r0 p0 (rev ms @ rs) qs \<and> (ret = 0 \<longrightarrow> qs = []) \<and> (ret \<noteq> 0 \<longrightarrow> ret = -1)) \<and>
    cnt = n + int (length ms) \<and> queue w' = queue w"
  using assms
proof (induction fuel arbitrary: n w rs ps)
  case (Suc fuel)
  note I = qinvD [OF Suc.prems(1)] and D = dinvD [OF qinvD(5) [OF Suc.prems(1)]]
  have q: "queue_live w" "pending_qs (queue w) = Some p0" using I(1,3) by (simp_all add: counted_def)
  obtain hp where hp: "srcs w p0 = Some hp" "s_next hp = (case ps of [] \<Rightarrow> None | y # ys \<Rightarrow> Some y)"
    using I(4) by (auto simp: qlists_def split: option.splits)
  show ?case
  proof (cases ps)
    case Nil
    then have "flush_pending_loop k (Suc fuel) n w = Inr ((0, n), w)" using q hp by (simp add: evm_simps)
    then show ?thesis using Suc.prems(1) Nil by auto
  next
    case (Cons x qs)
    have fx: "foreach_s (queue w) \<noteq> Some x" using D(6) Cons by (auto simp: counted_def split: option.splits)
    have "member_ok (queue (counted n w)) (data (srcs w)) True x" using D(2) Cons by simp
    then obtain s where s: "srcs w x = Some s" "src_wf s" "src_type s \<noteq> SOURCE_NONE"
      using fx by (auto simp: member_ok_def src_wf_def counted_def elim!: data_SomeE)
    obtain c where c: "s_context s = Some c" using s by (auto simp: src_wf_def)
    obtain fd where fd: "source_fd x w = Inr (Some fd, w)" using source_fd_ok [OF s] by blast
    let ?call = "EpollCtl (sc_ctl_op c) fd (ctl_events c) (ctl_ptr c)"
    let ?w1 = "w\<lparr>trace := ?call # trace w\<rparr>"
    obtain err where err: "sys_ok k ?call w = Inr (err, ?w1)" by (simp add: sys_ok_app)
    show ?thesis
    proof (cases err)
      case (Some e)
      have "flush_pending_loop k (Suc fuel) n w = Inr ((-1, n), ?w1)"
        using q hp Cons fd s c err Some by (simp add: evm_simps)
      moreover have "qinv (counted n ?w1) r0 p0 rs ps" using Suc.prems(1) by (simp add: qinv_def counted_def)
      ultimately show ?thesis by (intro exI [of _ "-1"] exI [of _ n] exI [of _ ?w1] exI [of _ "[]"]) auto
    next
      case None
      from flush_step [OF Suc.prems(1) [unfolded Cons] s(1) c, where tr = "?call # trace w" and c' = "c\<lparr>added := True\<rparr>"]
      obtain h1 w2 where w2: "EVDP_SLIST_REMOVE x (?w1\<lparr>srcs := (srcs w)(x \<mapsto> s\<lparr>s_context := Some (c\<lparr>added := True\<rparr>)\<rparr>)\<rparr>) = Inr ((), ?w1\<lparr>srcs := h1\<rparr>)"
        "EVDP_SLIST_RUNNING_INSERT_NO_STATS x (?w1\<lparr>srcs := h1\<rparr>) = Inr ((), w2)"
        "queue w2 = queue w" "qinv (counted (n + 1) w2) r0 p0 (x # rs) qs" by blast
      have step: "flush_pending_loop k (Suc fuel) n w = flush_pending_loop k fuel (n + 1) w2"
        using q hp Cons fd s c err None w2(1,2) by (simp add: evm_simps)
      obtain ret cnt w' ms qs' where ih: "flush_pending_loop k fuel (n + 1) w2 = Inr ((ret, cnt), w')" "qs = ms @ qs'"
        "qinv (counted cnt w') r0 p0 (rev ms @ x # rs) qs'" "ret = 0 \<longrightarrow> qs' = []" "ret \<noteq> 0 \<longrightarrow> ret = -1"
        "cnt = n + 1 + int (length ms)" "queue w' = queue w2"
        using Suc.IH [OF w2(4)] Suc.prems(2) Cons by (metis Suc_less_eq length_Cons)
      then show ?thesis using w2(3) Cons unfolding step
        by (intro exI [of _ ret] exI [of _ cnt] exI [of _ w'] exI [of _ "x # ms"]) auto
    qed
  qed
qed simp

text \<open>A successful flush leaves nothing pending.\<close>

lemma flush_ok:
  assumes inv: "qinv w r0 p0 rs ps" and fuel: "length ps < fuel"
  shows "\<exists>ret w'. evdp_queue_flush_pending_sources k fuel w = Inr (ret, w') \<and>
    (ret = 0 \<and> qinv w' r0 p0 (rev ps @ rs) [] \<or> ret = -1)"
proof -
  have q: "queue_live w" "q_context (queue w) \<noteq> None" using qinvD(1) [OF inv] dinvD(9) [OF qinvD(5) [OF inv]] by (auto simp: events_ok_def)
  obtain qc where qc: "q_context (queue w) = Some qc" using q by auto
  obtain ret cnt w' ms qs where l: "flush_pending_loop k fuel 0 w = Inr ((ret, cnt), w')" "ps = ms @ qs"
    "qinv (counted cnt w') r0 p0 (rev ms @ rs) qs" "ret = 0 \<longrightarrow> qs = []" "queue w' = queue w"
    using flush_loop_ok [of 0 w r0 p0 rs ps fuel k] inv fuel counted_zero [of w] by metis
  have live: "queue_live w'" using qinvD(1) [OF l(3)] by simp
  have "evdp_queue_flush_pending_sources k fuel w = (if ret \<noteq> 0 then Inr (-1, w') else Inr (0, counted cnt w'))"
    using q(1) qc l(1) live
    by (cases "cnt = 0") (simp_all add: evdp_queue_flush_pending_sources_def queue_context_def evm_simps counted_def)
  then show ?thesis using l(2-4) by (cases "ret = 0") simp_all
qed

end
