(* ===== verification/Neb_Evdp_Events.thy ===== *)
theory Neb_Evdp_Events
  imports Neb_Evdp_Detach
begin

text \<open>
  The event loop of a round: with callbacks that keep their contract every event is handled
  without a fault and the invariant holds between events.
\<close>

section \<open>Handling events\<close>

text \<open>Every event from number \<open>i\<close> on refers to a source of \<open>R\<close>, and no other
  unhandled event refers to the same source.\<close>

definition todo_ok :: "neb_evdp_queue \<Rightarrow> nat \<Rightarrow> nat set \<Rightarrow> bool" where
  "todo_ok q i R \<longleftrightarrow> (\<forall>j s. i \<le> j \<and> event_at q j s \<longrightarrow> s \<in> R \<and> (\<forall>j'. event_at q j' s \<longrightarrow> j' = j))"

text \<open>None of them refers to an absolute timer, whose handler reads out of bounds.\<close>

definition plain_events :: "world \<Rightarrow> nat \<Rightarrow> bool" where
  "plain_events w i \<longleftrightarrow> (\<forall>j s. i \<le> j \<and> event_at (queue w) j s \<longrightarrow> types (srcs w) s \<noteq> Some ABSTIMER)"

text \<open>Between two events, the next one being number \<open>i\<close>.\<close>

definition looping :: "nat \<Rightarrow> nat \<Rightarrow> nat \<Rightarrow> int \<Rightarrow> world \<Rightarrow> bool" where
  "looping r0 p0 i nev w \<longleftrightarrow> (\<exists>rs ps. qinv w r0 p0 rs ps \<and> todo_ok (queue w) i (set rs) \<and> plain_events w i \<and>
     current_event (queue w) \<le> int i \<and> nevents (queue w) = nev)"

text \<open>While the handler of the source \<open>s\<close> runs for event number \<open>i\<close>.\<close>

definition handling :: "nat \<Rightarrow> nat \<Rightarrow> nat \<Rightarrow> int \<Rightarrow> nat \<Rightarrow> src_type \<Rightarrow> world \<Rightarrow> bool" where
  "handling r0 p0 i nev s ty w \<longleftrightarrow> (\<exists>rs ps. qinv w r0 p0 rs ps \<and> todo_ok (queue w) (Suc i) (set rs) \<and> plain_events w (Suc i) \<and>
     current_event (queue w) = int i \<and> nevents (queue w) = nev \<and> event_at (queue w) i s \<and> s \<in> set rs \<and>
     types (srcs w) s = Some ty)"

text \<open>The contract of the user's callbacks: they return, and leave the queue as they found it, with the
  handled source still in the running list. They may attach, detach and delete other sources.\<close>

definition callbacks_ok :: "callbacks \<Rightarrow> bool" where
  "callbacks_ok call \<longleftrightarrow> (\<forall>h s r0 p0 i nev ty w. handling r0 p0 i nev s ty w \<longrightarrow>
     (\<exists>ret w'. call h s w = Inr (ret, w') \<and> handling r0 p0 i nev s ty w'))"

lemma callbacks_okD: "callbacks_ok call \<Longrightarrow> handling r0 p0 i nev s ty w \<Longrightarrow>
    \<exists>ret w'. call h s w = Inr (ret, w') \<and> handling r0 p0 i nev s ty w'"
  by (simp add: callbacks_ok_def)

lemma handling_src:
  assumes "handling r0 p0 i nev s ty w"
  shows "\<exists>x c. srcs w s = Some x \<and> src_type x = ty \<and> src_wf x \<and> ty \<noteq> SOURCE_NONE \<and> s_context x = Some c \<and> queue_live w"
proof -
  obtain rs ps where h: "qinv w r0 p0 rs ps" "event_at (queue w) i s" "s \<in> set rs" "types (srcs w) s = Some ty"
    using assms by (auto simp: handling_def)
  note D = dinvD [OF qinvD(5) [OF h(1)]]
  have f: "foreach_s (queue w) \<noteq> Some s" using D(9) h(2) by (auto simp: events_ok_def event_at_def)
  have "member_ok (queue w) (data (srcs w)) False s" using D(1) h(3) by auto
  then show ?thesis using f h(4) qinvD(1) [OF h(1)] by (auto simp: member_ok_def src_wf_def types_def elim!: data_SomeE)
qed

text \<open>Writes to the source that keep its role.\<close>

lemma handling_upd:
  assumes h: "handling r0 p0 i nev s ty w" and x: "srcs w s = Some x" "s_prev t = s_prev x" "s_next t = s_next x"
    "same_role (unlinked x) (unlinked t)"
  shows "handling r0 p0 i nev s ty (w\<lparr>srcs := (srcs w)(s \<mapsto> t)\<rparr>)"
proof -
  obtain rs ps where h: "qinv w r0 p0 rs ps" "todo_ok (queue w) (Suc i) (set rs)" "plain_events w (Suc i)" "current_event (queue w) = int i"
    "nevents (queue w) = nev" "event_at (queue w) i s" "s \<in> set rs" "types (srcs w) s = Some ty"
    using h by (auto simp: handling_def)
  have "qinv (w\<lparr>srcs := (srcs w)(s \<mapsto> t)\<rparr>) r0 p0 rs ps" by (rule qinv_upd_role [OF h(1) x])
  moreover have "types ((srcs w)(s \<mapsto> t)) = types (srcs w)" using x by (auto simp: same_role_def types_def fun_eq_iff)
  ultimately show ?thesis using h by (auto simp: handling_def plain_events_def simp del: types_upd)
qed

lemma handling_trace [simp]: "handling r0 p0 i nev s ty (w\<lparr>trace := tr\<rparr>) = handling r0 p0 i nev s ty w"
  by (simp add: handling_def plain_events_def)

lemma handling_upd_context:
  assumes h: "handling r0 p0 i nev s ty w"
  shows "\<exists>w'. upd_context s f w = Inr ((), w') \<and> handling r0 p0 i nev s ty w'"
proof -
  obtain x c where x: "srcs w s = Some x" "s_context x = Some c" using handling_src [OF h] by blast
  have "handling r0 p0 i nev s ty (w\<lparr>srcs := (srcs w)(s \<mapsto> x\<lparr>s_context := Some (f c)\<rparr>)\<rparr>)"
    by (rule handling_upd [OF h x(1)]) (auto simp: same_role_def src_wf_def x(2))
  then show ?thesis using x by (simp add: evm_simps)
qed

lemma handling_conf:
  assumes h: "handling r0 p0 i nev s ty w"
  shows "\<exists>conf. get_conf s w = Inr (conf, w) \<and> conf_fits ty (Some conf)"
proof -
  obtain x where x: "srcs w s = Some x" "src_type x = ty" "src_wf x" "ty \<noteq> SOURCE_NONE" using handling_src [OF h] by blast
  then obtain cf where "s_conf x = Some cf" using conf_fits_Some [of ty "s_conf x"] by (auto simp: src_wf_def)
  then show ?thesis using x by (auto simp: evm_simps src_wf_def)
qed

lemma itimer_handle_ok:
  assumes h: "handling r0 p0 i nev s ty w" and call: "callbacks_ok call"
  shows "\<exists>ret w'. evdp_source_itimer_handle k call s w = Inr (ret, w') \<and> handling r0 p0 i nev s ty w'"
proof -
  obtain x c where x: "srcs w s = Some x" "s_context x = Some c" using handling_src [OF h] by blast
  let ?w = "w\<lparr>trace := ReadTimer (timer_fd c) # trace w\<rparr>"
  have h': "handling r0 p0 i nev s ty ?w" using h by simp
  obtain conf where conf: "get_conf s ?w = Inr (conf, ?w)" using handling_conf [OF h'] by blast
  have cont: "\<exists>ret w'. (case conf of ConfItimer i v (Some h) \<Rightarrow> call h s | _ \<Rightarrow> eret CB_CONTINUE) ?w = Inr (ret, w') \<and> handling r0 p0 i nev s ty w'"
    using callbacks_okD [OF call h'] h' by (auto simp: evm_simps split: src_conf.split option.split)
  show ?thesis
    using x conf cont h' by (cases "k (trace w) (ReadTimer (timer_fd c))") (auto simp: evdp_source_itimer_handle_def evm_simps)
qed

lemma ro_fd_handle_ok:
  assumes h: "handling r0 p0 i nev s RO_FD w" and call: "callbacks_ok call"
  shows "\<exists>ret w'. evdp_source_ro_fd_handle call e s w = Inr (ret, w') \<and> handling r0 p0 i nev s RO_FD w'"
proof -
  obtain fd hup rd where conf: "get_conf s w = Inr (ConfRoFd fd hup rd, w)"
    using handling_conf [OF h] by (auto elim: conf_fits.elims)
  obtain ret w' where r: "(if has_event e EPOLLIN then call rd s else eret CB_CONTINUE) w = Inr (ret, w')" "handling r0 p0 i nev s RO_FD w'"
    using callbacks_okD [OF call h, of rd] h by (cases "has_event e EPOLLIN") (auto simp: evm_simps)
  obtain ret2 w2 where r2: "call hup s w' = Inr (ret2, w2)" "handling r0 p0 i nev s RO_FD w2"
    using callbacks_okD [OF call r(2), of hup] by blast
  show ?thesis using conf r r2
    by (cases "ret = CB_CONTINUE \<and> has_event e EPOLLHUP") (auto simp: evdp_source_ro_fd_handle_def evm_simps)
qed

lemma os_fd_call_ok:
  assumes h: "handling r0 p0 i nev s ty w" and call: "callbacks_ok call"
  shows "\<exists>ret w'. os_fd_call call g s w = Inr (ret, w') \<and> handling r0 p0 i nev s ty w'"
proof -
  obtain w1 where w1: "upd_context s (\<lambda>c. c\<lparr>in_callback := True\<rparr>) w = Inr ((), w1)" "handling r0 p0 i nev s ty w1"
    using handling_upd_context [OF h] by blast
  obtain ret w2 where w2: "call g s w1 = Inr (ret, w2)" "handling r0 p0 i nev s ty w2"
    using callbacks_okD [OF call w1(2)] by blast
  obtain w3 where w3: "upd_context s (\<lambda>c. c\<lparr>in_callback := False\<rparr>) w2 = Inr ((), w3)" "handling r0 p0 i nev s ty w3"
    using handling_upd_context [OF w2(2)] by blast
  show ?thesis using w1 w2 w3 by (simp add: os_fd_call_def evm_simps)
qed

text \<open>The common shape of the read and the write part.\<close>

lemma os_fd_part_ok:
  assumes h: "handling r0 p0 i nev s ty w" and call: "callbacks_ok call"
    and m: "m = ebind (get_conf s) (\<lambda>conf. case hd_of conf of
       Some h \<Rightarrow> (if b then eseq (upd_context s f) (os_fd_call call h s) else eret CB_CONTINUE) | None \<Rightarrow> eret CB_CONTINUE)"
  shows "\<exists>ret w'. m w = Inr (ret, w') \<and> handling r0 p0 i nev s ty w'"
proof -
  obtain conf where conf: "get_conf s w = Inr (conf, w)" using handling_conf [OF h] by blast
  obtain w1 where w1: "upd_context s f w = Inr ((), w1)" "handling r0 p0 i nev s ty w1"
    using handling_upd_context [OF h] by blast
  have "\<exists>ret w'. os_fd_call call hh s w1 = Inr (ret, w') \<and> handling r0 p0 i nev s ty w'" for hh
    by (rule os_fd_call_ok [OF w1(2) call])
  then show ?thesis using conf w1 h unfolding m by (auto simp: evm_simps split: option.split)
qed

text \<open>After the handler the source is in one of the two lists.\<close>

definition handled :: "nat \<Rightarrow> nat \<Rightarrow> nat \<Rightarrow> int \<Rightarrow> nat \<Rightarrow> world \<Rightarrow> bool" where
  "handled r0 p0 i nev s w \<longleftrightarrow> (\<exists>rs ps. qinv w r0 p0 rs ps \<and> todo_ok (queue w) (Suc i) (set rs) \<and> plain_events w (Suc i) \<and>
     current_event (queue w) = int i \<and> nevents (queue w) = nev \<and> s \<in> set rs \<union> set ps \<and> foreach_s (queue w) \<noteq> Some s)"

lemma handling_foreach: "qinv w r0 p0 rs ps \<Longrightarrow> event_at (queue w) i s \<Longrightarrow> foreach_s (queue w) \<noteq> Some s"
  using dinvD(9) [OF qinvD(5)] by (fastforce simp: events_ok_def event_at_def)

lemma handling_handled: "handling r0 p0 i nev s ty w \<Longrightarrow> handled r0 p0 i nev s w"
  using handling_foreach unfolding handling_def handled_def by blast

lemma handling_to_pending:
  assumes h: "handling r0 p0 i nev s ty w"
  shows "\<exists>w'. running_to_pending s w = Inr ((), w') \<and> handled r0 p0 i nev s w'"
proof -
  obtain rs ps where a: "qinv w r0 p0 rs ps" "todo_ok (queue w) (Suc i) (set rs)" "current_event (queue w) = int i"
    "nevents (queue w) = nev" "event_at (queue w) i s" "s \<in> set rs" "plain_events w (Suc i)"
    using h by (auto simp: handling_def)
  note f = handling_foreach [OF a(1,5)]
  obtain w' where w': "running_to_pending s w = Inr ((), w')" "qinv w' r0 p0 (remove1 s rs) (s # ps)"
    and q: "queue w' = (queue w)\<lparr>stats_running := stats_running (queue w) - 1, stats_pending := stats_pending (queue w) + 1\<rparr>"
    and ty: "types (srcs w') = types (srcs w)"
    using running_to_pending_ok [OF a(1,6) f] by blast
  have ev: "event_at (queue w') j t = event_at (queue w) j t" for j t using q by (simp add: event_at_def)
  have "todo_ok (queue w') (Suc i) (set (remove1 s rs))"
    unfolding todo_ok_def ev
  proof (intro allI impI)
    fix j t
    assume j: "Suc i \<le> j \<and> event_at (queue w) j t"
    then have t: "t \<in> set rs" "\<forall>j'. event_at (queue w) j' t \<longrightarrow> j' = j" using a(2) by (auto simp: todo_ok_def)
    then have "t \<noteq> s" using a(5) j by auto
    then show "t \<in> set (remove1 s rs) \<and> (\<forall>j'. event_at (queue w) j' t \<longrightarrow> j' = j)" using t by (simp add: in_set_remove1)
  qed
  moreover have "plain_events w' (Suc i)" using a(7) by (simp add: plain_events_def ev ty)
  ultimately have "handled r0 p0 i nev s w'" unfolding handled_def
    using w'(2) q a(3,4) f by (intro exI [of _ "remove1 s rs"] exI [of _ "s # ps"]) simp
  then show ?thesis using w'(1) by simp
qed

lemma os_fd_handle_ok:
  assumes h: "handling r0 p0 i nev s ty w" and call: "callbacks_ok call"
  shows "\<exists>ret w'. evdp_source_os_fd_handle call e s w = Inr (ret, w') \<and> handled r0 p0 i nev s w'"
proof -
  obtain w1 where w1: "upd_context s (\<lambda>c. c\<lparr>added := False, sc_ctl_op := CTL_MOD\<rparr>) w = Inr ((), w1)" "handling r0 p0 i nev s ty w1"
    using handling_upd_context [OF h] by blast
  obtain ret w2 where w2: "os_fd_handle_read call e s w1 = Inr (ret, w2)" "handling r0 p0 i nev s ty w2"
    using os_fd_part_ok [OF w1(2) call os_fd_handle_read_def] by blast
  obtain conf where conf: "get_conf s w2 = Inr (conf, w2)" using handling_conf [OF w2(2)] by blast
  obtain rh w3 where w3: "os_fd_call call (conf_hup conf) s w2 = Inr (rh, w3)" "handling r0 p0 i nev s ty w3"
    using os_fd_call_ok [OF w2(2) call] by blast
  obtain ret2 w4 where w4: "os_fd_handle_write call e s w2 = Inr (ret2, w4)" "handling r0 p0 i nev s ty w4"
    using os_fd_part_ok [OF w2(2) call os_fd_handle_write_def] by blast
  obtain x c where x: "srcs w4 s = Some x" "s_context x = Some c" using handling_src [OF w4(2)] by blast
  obtain w5 where w5: "running_to_pending s w4 = Inr ((), w5)" "handled r0 p0 i nev s w5"
    using handling_to_pending [OF w4(2)] by blast
  note defs = evdp_source_os_fd_handle_def evm_simps
  consider "ret \<noteq> CB_CONTINUE" | "ret = CB_CONTINUE" "has_event e EPOLLHUP"
    | "ret = CB_CONTINUE" "\<not> has_event e EPOLLHUP" "ret2 \<noteq> CB_CONTINUE"
    | "ret = CB_CONTINUE" "\<not> has_event e EPOLLHUP" "ret2 = CB_CONTINUE" by blast
  then show ?thesis
  proof cases
    case 1
    then show ?thesis using w1 w2 handling_handled [OF w2(2)] by (simp add: defs)
  next
    case 2
    then show ?thesis using w1 w2 w3 conf handling_handled [OF w3(2)] by (simp add: defs)
  next
    case 3
    then show ?thesis using w1 w2 w4 handling_handled [OF w4(2)] by (simp add: defs)
  next
    case 4
    then show ?thesis using w1 w2 w4 w5 x handling_handled [OF w4(2)]
      by (cases "has_event (ctl_events c) (EPOLLIN OR EPOLLOUT)") (simp_all add: defs)
  qed
qed

lemma source_handle_ok:
  assumes h: "handling r0 p0 i nev s ty w" and call: "callbacks_ok call" and ty: "ty \<noteq> ABSTIMER"
  shows "\<exists>ret w'. source_handle k call ty e s w = Inr (ret, w') \<and> handled r0 p0 i nev s w'"
  using itimer_handle_ok [OF h call, of k] ro_fd_handle_ok [OF _ call, of r0 p0 i nev s w e] os_fd_handle_ok [OF h call, of e]
    h ty handling_handled handling_src [OF h]
  by (cases ty) (fastforce simp: source_handle_def)+

lemma handle_event_ok:
  assumes h: "looping r0 p0 i nev w" and i: "current_event (queue w) = int i" "int i < nev"
    and call: "callbacks_ok call" and rem: "remover_ok rem"
  shows "\<exists>ret w'. handle_event k rem call w = Inr (ret, w') \<and> looping r0 p0 (Suc i) nev w'"
proof -
  obtain rs ps where a: "qinv w r0 p0 rs ps" "todo_ok (queue w) i (set rs)" "nevents (queue w) = nev" "plain_events w i"
    using h by (auto simp: looping_def)
  note I = qinvD [OF a(1)] and D = dinvD [OF qinvD(5) [OF a(1)]]
  obtain c where c: "q_context (queue w) = Some c" "nev \<le> int (length (ee c))" using D(9) a(3) by (auto simp: events_ok_def)
  obtain e src where es: "ee c ! i = (e, src)" by fastforce
  have fetch: "evdp_queue_fetch_event w = Inr ((e, src), w)"
    using I(1) c es i by (simp add: evdp_queue_fetch_event_def evm_simps queue_context_def)
  have next_ev: "todo_ok (queue w) (Suc i) (set rs)" "plain_events w (Suc i)"
    using a(2,4) unfolding todo_ok_def plain_events_def by (meson Suc_leD)+
  show ?thesis
  proof (cases src)
    case None
    have "looping r0 p0 (Suc i) nev w" using a(1,3) next_ev i by (auto simp: looping_def)
    then show ?thesis using None fetch by (simp add: handle_event_def evm_simps evdp_queue_finish_event_def)
  next
    case (Some s)
    have ev: "event_at (queue w) i s" using i a(3) c es Some by (simp add: event_at_def)
    then have rs: "s \<in> set rs" using a(2) by (auto simp: todo_ok_def)
    have "member_ok (queue w) (data (srcs w)) False s" using D(1) rs by auto
    then obtain x where x: "srcs w s = Some x" by (auto simp: member_ok_def elim!: data_SomeE)
    have hd0: "handling r0 p0 i nev s (src_type x) w"
      using a next_ev i ev rs x by (auto simp: handling_def types_def)
    have noabs: "src_type x \<noteq> ABSTIMER" using a(4) ev x unfolding plain_events_def types_def by (metis option.simps(9) order_refl)
    define w1 where "w1 = w\<lparr>srcs := (srcs w)(s \<mapsto> x\<lparr>no_detach := True\<rparr>)\<rparr>"
    have h1: "handling r0 p0 i nev s (src_type x) w1" unfolding w1_def
      by (rule handling_upd [OF hd0 x]) (auto simp: same_role_def src_wf_def)
    obtain ret w2 where w2: "source_handle k call (src_type x) e s w1 = Inr (ret, w2)" "handled r0 p0 i nev s w2"
      using source_handle_ok [OF h1 call noabs, of k e] by blast
    obtain rs2 ps2 where b: "qinv w2 r0 p0 rs2 ps2" "todo_ok (queue w2) (Suc i) (set rs2)" "current_event (queue w2) = int i"
      "nevents (queue w2) = nev" "s \<in> set rs2 \<union> set ps2" "foreach_s (queue w2) \<noteq> Some s" "plain_events w2 (Suc i)"
      using w2(2) by (auto simp: handled_def)
    have "\<exists>y. srcs w2 s = Some y"
      using b(5) qinvD(4) [OF b(1)] dseg_live [of "srcs w2" None "r0 # rs2" None s] dseg_live [of "srcs w2" None "p0 # ps2" None s]
      by (auto simp: qlists_def simp del: dseg.simps)
    then obtain y where y: "srcs w2 s = Some y" by blast
    define w3 where "w3 = w2\<lparr>srcs := (srcs w2)(s \<mapsto> y\<lparr>no_detach := False\<rparr>)\<rparr>"
    have q3: "qinv w3 r0 p0 rs2 ps2" unfolding w3_def
      by (rule qinv_upd_role [OF b(1) y]) (auto simp: same_role_def src_wf_def)
    have ty3: "types (srcs w3) = types (srcs w2)" using y by (auto simp: w3_def types_def fun_eq_iff)
    then have pl3: "plain_events w3 (Suc i)" using b(7) by (simp add: plain_events_def w3_def)
    then have l3: "looping r0 p0 (Suc i) nev w3" using q3 b by (auto simp: looping_def w3_def)
    have det: "\<exists>w'. do_detach_from_queue k rem s cl w3 = Inr ((), w') \<and> looping r0 p0 (Suc i) nev w'" for cl
    proof -
      obtain w' where w': "do_detach_from_queue k rem s cl w3 = Inr ((), w')" "qinv w' r0 p0 (remove1 s rs2) (remove1 s ps2)"
        "detached_queue s (queue w3) (queue w')" "\<forall>y \<in> set rs2 \<union> set ps2 - {s}. types (srcs w') y = types (srcs w3) y"
        using detach_ok [OF q3 b(5) _ rem, of k cl] b(6) by (auto simp: w3_def)
      then have "todo_ok (queue w') (Suc i) (set (remove1 s rs2))"
        using b(2) by (auto simp: todo_ok_def detached_queue_def w3_def in_set_remove1)
      moreover have "plain_events w' (Suc i)"
        unfolding plain_events_def
      proof (intro allI impI)
        fix j t
        assume j: "Suc i \<le> j \<and> event_at (queue w') j t"
        then have e: "event_at (queue w3) j t" "t \<noteq> s" using w'(3) by (auto simp: detached_queue_def)
        then have "t \<in> set rs2 - {s}" using j b(2) by (auto simp: todo_ok_def w3_def)
        then show "types (srcs w') t \<noteq> Some ABSTIMER" using w'(4) pl3 j e by (auto simp: plain_events_def)
      qed
      ultimately show ?thesis using w' b(3,4) by (auto simp: looping_def detached_queue_def w3_def)
    qed
    have split: "handle_event k rem call w = ebind (case ret of
             CB_REMOVE \<Rightarrow> eseq (do_detach_from_queue k rem s False) (eret CB_CONTINUE)
           | CB_CLOSE \<Rightarrow> eseq (do_detach_from_queue k rem s True) (eret CB_CONTINUE)
           | _ \<Rightarrow> eret ret) (\<lambda>ret. eseq evdp_queue_finish_event (eret ret)) w3"
      using fetch Some x w2(1) y by (simp add: handle_event_def evm_simps w1_def w3_def)
    show ?thesis unfolding split using det [of False] det [of True] l3
      by (cases ret) (auto simp: evm_simps evdp_queue_finish_event_def)
  qed
qed

text \<open>All events of a round are handled, or a callback ends the round.\<close>

lemma looping_next:
  assumes "looping r0 p0 i nev w" "int i < nev"
  shows "looping r0 p0 i nev (w\<lparr>queue := (queue w)\<lparr>current_event := int i\<rparr>\<rparr>)"
proof -
  obtain rs ps where a: "qinv w r0 p0 rs ps" "todo_ok (queue w) i (set rs)" "current_event (queue w) \<le> int i" "nevents (queue w) = nev"
    "plain_events w i" using assms(1) by (auto simp: looping_def)
  let ?q = "(queue w)\<lparr>current_event := int i\<rparr>"
  note D = dinvD [OF qinvD(5) [OF a(1)]]
  have le: "int i \<le> int j \<Longrightarrow> current_event (queue w) \<le> int j" for j using a(3) by linarith
  have ev: "event_at ?q j s \<Longrightarrow> event_at (queue w) j s" for j s using le by (auto simp: event_at_def)
  have "events_ok ?q (set rs \<union> set ps)" using D(9) le unfolding events_ok_def by (simp del: of_nat_le_iff) blast
  then have "dinv ?q (data (srcs w)) r0 p0 rs ps"
    by (intro dinv_queue [OF qinvD(5) [OF a(1)]]) (simp_all add: same_queue_def)
  then have "qinv (w\<lparr>queue := ?q\<rparr>) r0 p0 rs ps" using qinvD [OF a(1)] by (simp add: qinv_def)
  moreover have "todo_ok ?q i (set rs)" using a(2) ev unfolding todo_ok_def by blast
  moreover have "plain_events (w\<lparr>queue := ?q\<rparr>) i" using a(5) ev unfolding plain_events_def by (simp del: of_nat_le_iff) blast
  ultimately show ?thesis using a(4) by (auto simp: looping_def)
qed

lemma events_loop_ok:
  assumes "looping r0 p0 i nev w" "callbacks_ok call" "remover_ok rem" "nat nev - i < fuel"
  shows "\<exists>r w'. events_loop k rem call i fuel w = Inr (r, w') \<and> (\<exists>i'. looping r0 p0 i' nev w' \<and> (r = None \<longrightarrow> nev \<le> int i'))"
  using assms
proof (induction fuel arbitrary: i w)
  case (Suc fuel)
  have q: "queue_live w" "nevents (queue w) = nev" using Suc.prems(1) qinvD(1) by (auto simp: looping_def)
  show ?case
  proof (cases "int i < nev")
    case True
    let ?w = "w\<lparr>queue := (queue w)\<lparr>current_event := int i\<rparr>\<rparr>"
    obtain ret w1 where w1: "handle_event k rem call ?w = Inr (ret, w1)" "looping r0 p0 (Suc i) nev w1"
      using handle_event_ok [OF looping_next [OF Suc.prems(1) True] _ True Suc.prems(2,3), of k] by auto
    have "\<exists>r w'. events_loop k rem call (i + 1) fuel w1 = Inr (r, w') \<and> (\<exists>i'. looping r0 p0 i' nev w' \<and> (r = None \<longrightarrow> nev \<le> int i'))"
      using Suc.IH [of "Suc i" w1] w1(2) Suc.prems(2-4) True by simp
    then show ?thesis using q True w1 by (cases ret) (auto simp: evm_simps)
  next
    case False
    then show ?thesis using q Suc.prems(1) by (auto simp: evm_simps)
  qed
qed auto

end
