(* ===== verification/Neb_Evdp_Io.thy ===== *)
theory Neb_Evdp_Io
  imports Neb_Evdp_Core
begin

text \<open>
  Model of \<^verbatim>\<open>src/src/evdp/io_base.c\<close> and
  \<^verbatim>\<open>src/src/evdp/sys_timer.c\<close>: the public constructors of descriptor and timer
  sources, and arming, disarming and regulating them. The allocator's answers are arguments.
\<close>

section \<open>Sources for descriptors and timers\<close>

text \<open>The common body of the constructors: \<open>a\<close> is the address of the new source or the
  allocator's failure, \<open>conf_ok\<close> the allocation of the configuration and \<open>create\<close>
  the driver's constructor of the context.\<close>

definition new_source ::
  "kernel \<Rightarrow> src_type \<Rightarrow> src_conf \<Rightarrow> (nat \<Rightarrow> evdp_source_context option evm) \<Rightarrow> nat option \<Rightarrow> bool \<Rightarrow> nat option evm" where
  "new_source k ty conf create a conf_ok =
     ebind (alloc_src a (blank_source\<lparr>src_type := ty\<rparr>)) (\<lambda>r. case r of
       None \<Rightarrow> eret None
     | Some s \<Rightarrow>
         if \<not> conf_ok then ebind (neb_evdp_source_del k s) (\<lambda>_. eret None)
         else eseq (upd_src s (\<lambda>x. x\<lparr>s_conf := Some conf\<rparr>))
             (ebind (create s) (\<lambda>c. case c of
                None \<Rightarrow> ebind (neb_evdp_source_del k s) (\<lambda>_. eret None)
              | Some c \<Rightarrow> eseq (upd_src s (\<lambda>x. x\<lparr>s_context := Some c\<rparr>)) (eret (Some s)))))"

definition neb_evdp_source_new_ro_fd :: "kernel \<Rightarrow> nat option \<Rightarrow> bool \<Rightarrow> bool \<Rightarrow> int \<Rightarrow> nat \<Rightarrow> nat \<Rightarrow> nat option evm" where
  "neb_evdp_source_new_ro_fd k a conf_ok ctx_ok fd rf hf =
     new_source k RO_FD (ConfRoFd fd hf rf) (evdp_create_source_ro_fd_context ctx_ok) a conf_ok"

definition neb_evdp_source_new_os_fd :: "kernel \<Rightarrow> nat option \<Rightarrow> bool \<Rightarrow> bool \<Rightarrow> int \<Rightarrow> nat \<Rightarrow> nat option evm" where
  "neb_evdp_source_new_os_fd k a conf_ok ctx_ok fd hf =
     new_source k OS_FD (ConfFd fd hf None None) (evdp_create_source_os_fd_context ctx_ok) a conf_ok"

definition neb_evdp_source_os_fd_reset :: "nat \<Rightarrow> int \<Rightarrow> int evm" where
  "neb_evdp_source_os_fd_reset s fd =
     ebind (get_src s) (\<lambda>x.
       if q_in_use x \<noteq> None then eret (-1)
       else if src_type x \<noteq> OS_FD then eret (-1)
       else if s_conf x = None \<or> s_context x = None then eret (-1)
       else eseq (upd_src s (\<lambda>x. x\<lparr>s_conf := map_option (\<lambda>c. case c of ConfFd f h r w \<Rightarrow> ConfFd fd h r w | _ \<Rightarrow> c) (s_conf x)\<rparr>))
           (eseq (evdp_reset_source_os_fd_context s) (eret 0)))"

definition neb_evdp_source_os_fd_next_read :: "kernel \<Rightarrow> nat \<Rightarrow> nat option \<Rightarrow> int evm" where
  "neb_evdp_source_os_fd_next_read k s rf =
     ebind (get_conf s) (\<lambda>conf. case conf of
       ConfFd fd h r w \<Rightarrow>
         eseq (upd_src s (\<lambda>x. x\<lparr>s_conf := Some (ConfFd fd h rf w)\<rparr>))
        (ebind (get_src s) (\<lambda>x.
           if q_in_use x = None then eseq (evdp_source_os_fd_init_read s rf) (eret 0)
           else if rf \<noteq> None then evdp_source_os_fd_reset_read k s
           else evdp_source_os_fd_unset_read k s))
     | _ \<Rightarrow> efail OutOfBounds)"

definition neb_evdp_source_os_fd_next_write :: "kernel \<Rightarrow> nat \<Rightarrow> nat option \<Rightarrow> int evm" where
  "neb_evdp_source_os_fd_next_write k s wrf =
     ebind (get_conf s) (\<lambda>conf. case conf of
       ConfFd fd h r w \<Rightarrow>
         eseq (upd_src s (\<lambda>x. x\<lparr>s_conf := Some (ConfFd fd h r wrf)\<rparr>))
        (ebind (get_src s) (\<lambda>x.
           if q_in_use x = None then eseq (evdp_source_os_fd_init_write s wrf) (eret 0)
           else if wrf \<noteq> None then evdp_source_os_fd_reset_write k s
           else evdp_source_os_fd_unset_write k s))
     | _ \<Rightarrow> efail OutOfBounds)"

definition neb_evdp_source_new_itimer_s :: "kernel \<Rightarrow> nat option \<Rightarrow> bool \<Rightarrow> bool \<Rightarrow> u32 \<Rightarrow> int \<Rightarrow> nat option \<Rightarrow> nat option evm" where
  "neb_evdp_source_new_itimer_s k a conf_ok ctx_ok ident v tf =
     new_source k ITIMER_SEC (ConfItimer ident v tf) (evdp_create_source_itimer_context k ctx_ok) a conf_ok"

definition neb_evdp_source_new_itimer_ms :: "kernel \<Rightarrow> nat option \<Rightarrow> bool \<Rightarrow> bool \<Rightarrow> u32 \<Rightarrow> int \<Rightarrow> nat option \<Rightarrow> nat option evm" where
  "neb_evdp_source_new_itimer_ms k a conf_ok ctx_ok ident v tf =
     new_source k ITIMER_MSEC (ConfItimer ident v tf) (evdp_create_source_itimer_context k ctx_ok) a conf_ok"

definition neb_evdp_source_new_abstimer ::
  "kernel \<Rightarrow> (int \<Rightarrow> int option) \<Rightarrow> nat option \<Rightarrow> bool \<Rightarrow> bool \<Rightarrow> u32 \<Rightarrow> int \<Rightarrow> nat option \<Rightarrow> nat option evm" where
  "neb_evdp_source_new_abstimer k nearest a conf_ok ctx_ok ident sec_of_day tf =
     (if sec_of_day < 0 \<or> TOTAL_DAY_SECONDS \<le> sec_of_day then eret None
      else ebind (new_source k ABSTIMER (ConfAbstimer ident sec_of_day tf) (evdp_create_source_abstimer_context k ctx_ok) a conf_ok) (\<lambda>r.
        case r of
          None \<Rightarrow> eret None
        | Some s \<Rightarrow> ebind (evdp_source_abstimer_regulate k nearest s) (\<lambda>v. eret (if v \<noteq> 0 then None else Some s))))"

definition neb_evdp_source_abstimer_regulate :: "kernel \<Rightarrow> (int \<Rightarrow> int option) \<Rightarrow> nat \<Rightarrow> int \<Rightarrow> int evm" where
  "neb_evdp_source_abstimer_regulate k nearest s sec_of_day =
     ebind (get_src s) (\<lambda>x.
       if src_type x \<noteq> ABSTIMER then eret (-1)
       else if 0 \<le> sec_of_day \<and> TOTAL_DAY_SECONDS \<le> sec_of_day then eret (-1)
       else eseq (ewhen (0 \<le> sec_of_day) (upd_src s (\<lambda>x. x\<lparr>s_conf :=
                    map_option (\<lambda>c. case c of ConfAbstimer i v h \<Rightarrow> ConfAbstimer i sec_of_day h | _ \<Rightarrow> c) (s_conf x)\<rparr>)))
                 (evdp_source_abstimer_regulate k nearest s))"

end
