(* ===== verification/Neb_Evdp_Api.thy ===== *)
theory Neb_Evdp_Api
  imports Neb_Evdp_Events Neb_Evdp_Io
begin

text \<open>
  The public interface of the event dispatcher: creation of queues and sources, the walk marker,
  one-shot descriptors, and every legal sequence of calls; the properties of the dispatcher.
\<close>

section \<open>Queues\<close>

lemma destroy_empty_list:
  assumes "queue_live w" "srcs w h = Some x" "s_next x = None" "s_context x = None"
  shows "destroy_list k rem (Suc n) (Some h) w = Inr ((), w\<lparr>srcs := (srcs w)(h := None)\<rparr>)"
  using assms by (simp add: destroy_list_def evm_simps neb_evdp_source_del_def)

lemma create_ok:
  assumes fresh: "srcs w r0 = None" "srcs w p0 = None" "r0 \<noteq> p0" "\<forall>x s. srcs w x = Some s \<longrightarrow> q_in_use s \<noteq> Some self"
  shows "\<exists>ok w'. neb_evdp_queue_create k rem (Some self) (if a1 then Some r0 else None) (if a2 then Some p0 else None) c ee0 bsize w = Inr (ok, w') \<and>
    (if ok then qinv w' r0 p0 [] [] \<and> 0 < batch_size (queue w') \<and> q_self (queue w') = self
     else \<not> queue_live w' \<and> srcs w' = srcs w)"
proof -
  have fin: "srcs w = (srcs w)(r0 := None)" "srcs w = (srcs w)(r0 := None, p0 := None)" using fresh(1,2) by auto
  note defs = neb_evdp_queue_create_def evm_simps evdp_source_new_empty_def alloc_src_def blank_queue_def
    neb_evdp_queue_destroy_def destroy_empty_list blank_source_def free_queue_def evdp_create_queue_context_def evdp_destroy_queue_context_def
  consider "\<not> a1" | "a1" "\<not> a2" | "a1" "a2" "\<not> c" | "a1" "a2" "c" "ee0 = None" | e where "a1" "a2" "c" "ee0 = Some e" by (cases ee0) blast+
  then show ?thesis
  proof cases
    case 1
    then show ?thesis by (intro exI [of _ False]) (simp add: defs)
  next
    case 2
    then show ?thesis using fin(1) by (intro exI [of _ False]) (simp add: defs)
  next
    case 3
    then show ?thesis using fin fresh(3) by (intro exI [of _ False]) (simp add: defs)
  next
    case 4
    then show ?thesis using fin fresh(3) by (intro exI [of _ False]) (simp add: defs)
  next
    case (5 e)
    show ?thesis
    proof (cases "\<exists>fd. k (trace w) EpollCreate = SysFd fd")
      case True
      then obtain fd where fd: "k (trace w) EpollCreate = SysFd fd" by blast
      let ?hd = "blank_source\<lparr>src_type := SOURCE_NONE, q_in_use := Some self, s_on_remove := RemoveDel\<rparr>"
      let ?q = "(blank_queue self)\<lparr>batch_size := (if bsize \<le> 0 then NEB_EVDP_DEFAULT_BATCH_SIZE else bsize),
        running_qs := Some r0, stats_running := 1, pending_qs := Some p0, stats_pending := 1, foreach_s := None, q_context := Some \<lparr>ep_fd = fd, ee = e\<rparr>\<rparr>"
      define w' where "w' = w\<lparr>queue_live := True, trace := EpollCreate # trace w, queue := ?q, srcs := (srcs w)(r0 \<mapsto> ?hd, p0 \<mapsto> ?hd)\<rparr>"
      have "neb_evdp_queue_create k rem (Some self) (if a1 then Some r0 else None) (if a2 then Some p0 else None) c ee0 bsize w = Inr (True, w')"
        using 5 fd fresh(3) by (simp add: defs w'_def)
      moreover have "qinv w' r0 p0 [] []"
      proof -
        have "qlists (srcs w') r0 p0 [] []" using fresh(3) by (simp add: qlists_def w'_def blank_source_def)
        moreover have "dinv ?q ((data (srcs w))(r0 \<mapsto> unlinked ?hd, p0 \<mapsto> unlinked ?hd)) r0 p0 [] []"
          using fresh unfolding dinv_def by (auto simp: empty_ok_def blank_source_def blank_queue_def events_ok_def unlinked_def elim!: data_SomeE)
        ultimately show ?thesis by (simp add: qinv_def w'_def)
      qed
      moreover have "0 < batch_size (queue w')" "q_self (queue w') = self"
        by (auto simp: w'_def blank_queue_def NEB_EVDP_DEFAULT_BATCH_SIZE_def)
      ultimately show ?thesis by auto
    next
      case False
      then show ?thesis using 5 fin fresh(3)
        by (intro exI [of _ False], cases "k (trace w) EpollCreate") (simp_all add: defs)
    qed
  qed
qed

section \<open>The foreach marker\<close>

lemma same_wf_marker: "empty_ok q D f \<Longrightarrow> foreach_s q = Some f \<Longrightarrow> member_ok q D False f"
  by (auto simp: empty_ok_def member_ok_def src_wf_def)

text \<open>The marker enters and leaves the running list; it is never counted.\<close>

lemma dinv_marker:
  assumes inv: "dinv q D r0 p0 rs ps" and f: "foreach_s q = Some f"
    and q': "q_self q' = q_self q" "foreach_s q' = foreach_s q" "in_foreach q' = b" "stats_running q' = stats_running q"
      "stats_pending q' = stats_pending q" "q_context q' = q_context q" "nevents q' = nevents q" "current_event q' = current_event q"
    and rs': "b \<and> \<not> in_foreach q \<and> rs' = f # rs \<or> \<not> b \<and> in_foreach q \<and> f \<notin> set rs' \<and> set rs = insert f (set rs') \<and> length rs = Suc (length rs')"
  shows "dinv q' D r0 p0 rs' ps"
proof -
  note I = dinvD [OF inv]
  have q: "member_ok q' D c x = member_ok q D c x" "empty_ok q' D x = empty_ok q D x" for c x
    using q' by (simp_all add: member_ok_def empty_ok_def)
  have fe: "f \<noteq> r0" "f \<noteq> p0" "f \<notin> set ps" "f \<in> set rs \<longleftrightarrow> in_foreach q" "empty_ok q D f" using I(6) f by simp_all
  have mem: "\<forall>x \<in> set rs'. member_ok q' D False x" using I(1) rs' same_wf_marker [OF fe(5) f] unfolding q by auto
  have ev: "events_ok q' (set rs' \<union> set ps)"
    using I(9) rs' q' f unfolding events_ok_def by fastforce
  have comp: "\<forall>x s. D x = Some s \<longrightarrow> q_in_use s = Some (q_self q') \<longrightarrow> x \<in> {r0, p0} \<union> set rs' \<union> set ps \<or> foreach_s q' = Some x"
  proof (intro allI impI)
    fix x s
    assume "D x = Some s" "q_in_use s = Some (q_self q')"
    then have "x \<in> {r0, p0} \<union> set rs \<union> set ps \<or> foreach_s q = Some x" using I(3) q'(1) by simp
    then show "x \<in> {r0, p0} \<union> set rs' \<union> set ps \<or> foreach_s q' = Some x" using rs' q'(2) f by auto
  qed
  have st: "stats_running q' = 1 + int (length rs') - (if in_foreach q' then 1 else 0)" "stats_pending q' = 1 + int (length ps)"
    using I(7,8) rs' q' by auto
  have mk: "case foreach_s q' of None \<Rightarrow> \<not> in_foreach q'
      | Some f \<Rightarrow> f \<noteq> r0 \<and> f \<noteq> p0 \<and> f \<notin> set ps \<and> (f \<in> set rs' \<longleftrightarrow> in_foreach q') \<and> empty_ok q' D f"
    using fe rs' q' f unfolding q by auto
  show ?thesis using mem I(2,4,5) comp mk st ev unfolding dinv_def q by (intro conjI) simp_all
qed

lemma foreach_set_end_ok:
  assumes inv: "qinv w r0 p0 rs ps" and f: "in_foreach (queue w)" "foreach_s (queue w) = Some f"
  shows "\<exists>w'. neb_evdp_queue_foreach_set_end w = Inr ((), w') \<and> qinv w' r0 p0 (remove1 f rs) ps \<and> \<not> in_foreach (queue w')"
proof -
  note I = qinvD [OF inv] and D = dinvD [OF qinvD(5) [OF inv]]
  have fr: "f \<in> set rs" "f \<notin> set ps" using D(6) f by simp_all
  have np: "remove1 f ps = ps" using fr by (intro remove1_idem)
  obtain h' where h': "EVDP_SLIST_REMOVE f w = Inr ((), w\<lparr>srcs := h'\<rparr>)" "qlists h' r0 p0 (remove1 f rs) ps" "data h' = data (srcs w)"
    using qlists_remove [OF I(4), of f] fr np by auto
  let ?q = "(queue w)\<lparr>in_foreach := False, each_call := None\<rparr>"
  have "dinv ?q (data (srcs w)) r0 p0 (remove1 f rs) ps"
    by (rule dinv_marker [OF I(5) f(2)]) (use f fr I(6) length_remove1_mem [OF fr(1)] in \<open>auto simp: set_remove1_eq\<close>)
  then have "qinv (w\<lparr>srcs := h', queue := ?q\<rparr>) r0 p0 (remove1 f rs) ps" using I h' by (simp add: qinv_def)
  then show ?thesis using h' f I(1) by (simp add: neb_evdp_queue_foreach_set_end_def evm_simps)
qed

lemma foreach_start_again_ok:
  assumes inv: "qinv w r0 p0 rs ps" and f: "\<not> in_foreach (queue w)" "foreach_s (queue w) = Some f"
  shows "\<exists>w'. neb_evdp_queue_foreach_start a cb w = Inr (1 + int (length rs), w') \<and> qinv w' r0 p0 (f # rs) ps \<and>
    in_foreach (queue w') \<and> q_foreach_id (queue w') = q_foreach_id (queue w) + 1 \<and> each_call (queue w') = Some cb"
proof -
  note I = qinvD [OF inv] and D = dinvD [OF qinvD(5) [OF inv]]
  have fr: "f \<notin> set (r0 # p0 # rs @ ps)" using D(6) f by simp
  obtain s where s: "srcs w f = Some s" "\<not> s_pending s" using D(6) f by (auto simp: empty_ok_def elim!: data_SomeE)
  have sp: "unlinked (s\<lparr>s_pending := False\<rparr>) = unlinked s" using s(2) by (simp add: unlinked_def)
  obtain h' where h': "EVDP_SLIST_RUNNING_INSERT_NO_STATS f w = Inr ((), w\<lparr>srcs := h'\<rparr>)" "qlists h' r0 p0 (f # rs) ps"
    "data h' = (data (srcs w))(f \<mapsto> unlinked (s\<lparr>s_pending := False\<rparr>))"
    using running_insert_no_stats [OF I(1,2,4) fr s(1)] by blast
  then have dh: "data h' = data (srcs w)" using s(1) unfolding sp by (simp add: data_Some fun_upd_idem)
  let ?q = "(queue w)\<lparr>q_foreach_id := q_foreach_id (queue w) + 1, in_foreach := True, each_call := Some cb\<rparr>"
  have "dinv ?q (data (srcs w)) r0 p0 (f # rs) ps"
    by (rule dinv_marker [OF I(5) f(2)]) (use f in auto)
  then have "qinv (w\<lparr>srcs := h', queue := ?q\<rparr>) r0 p0 (f # rs) ps" using I h'(2) dh by (simp add: qinv_def)
  then show ?thesis using h'(1) f I(1) D(7) by (simp add: neb_evdp_queue_foreach_start_def evm_simps)
qed

section \<open>Constructors\<close>

text \<open>The driver's constructors of contexts: they write no source but the new one, and of that only
  \<open>pending\<close>.\<close>

definition creates :: "(nat \<Rightarrow> evdp_source_context option evm) \<Rightarrow> src_conf \<Rightarrow> src_type \<Rightarrow> bool" where
  "creates create conf ty \<longleftrightarrow> (\<forall>s w x. srcs w s = Some x \<and> s_conf x = Some conf \<and> src_type x = ty \<longrightarrow>
     (\<exists>c tr b. create s w = Inr (c, w\<lparr>trace := tr, srcs := (srcs w)(s \<mapsto> x\<lparr>s_pending := b\<rparr>)\<rparr>)))"

lemma src_pending_idem: "srcs w s = Some x \<Longrightarrow> w\<lparr>trace := tr, srcs := (srcs w)(s \<mapsto> x\<lparr>s_pending := s_pending x\<rparr>)\<rparr> = w\<lparr>trace := tr\<rparr>"
  by (simp add: fun_upd_idem)

lemma creates_fd:
  "creates (evdp_create_source_ro_fd_context ok) conf ty" "creates (evdp_create_source_os_fd_context ok) conf ty"
proof -
  have "\<exists>c tr b. (if \<not> ok then eret None else eseq (upd_src s (\<lambda>x. x\<lparr>s_pending := False\<rparr>)) (eret (Some empty_context))) w =
      Inr (c, w\<lparr>trace := tr, srcs := (srcs w)(s \<mapsto> x\<lparr>s_pending := b\<rparr>)\<rparr>)"
    if x: "srcs w s = Some x" for s :: nat and w x
  proof (cases ok)
    case True
    then show ?thesis using x by (intro exI [of _ "Some empty_context"] exI [of _ "trace w"] exI [of _ False]) (simp add: evm_simps)
  next
    case False
    then show ?thesis using src_pending_idem [OF x, of "trace w"]
      by (intro exI [of _ None] exI [of _ "trace w"] exI [of _ "s_pending x"]) (simp add: evm_simps)
  qed
  then show "creates (evdp_create_source_ro_fd_context ok) conf ty" "creates (evdp_create_source_os_fd_context ok) conf ty"
    unfolding creates_def evdp_create_source_ro_fd_context_def evdp_create_source_os_fd_context_def by blast+
qed

lemma creates_traceI:
  assumes "\<And>s w x. srcs w s = Some x \<Longrightarrow> s_conf x = Some conf \<Longrightarrow> src_type x = ty \<Longrightarrow>
     (\<exists>tr. create s w = Inr (None, w\<lparr>trace := tr\<rparr>)) \<or>
     (\<exists>c tr. create s w = Inr (Some c, w\<lparr>trace := tr, srcs := (srcs w)(s \<mapsto> x\<lparr>s_pending := False\<rparr>)\<rparr>))"
  shows "creates create conf ty"
  unfolding creates_def using assms src_pending_idem by metis

lemma same_trace: "\<exists>tr. w = w\<lparr>trace := tr\<rparr>"
  by (intro exI [of _ "trace w"]) simp

lemma destroy_timer_ok:
  "\<exists>tr. evdp_destroy_source_itimer_context k c w = Inr ((), w\<lparr>trace := tr\<rparr>)"
  using same_trace [of w] by (auto simp: evdp_destroy_source_itimer_context_def evm_simps)

lemma creates_itimer:
  "ty = ITIMER_SEC \<or> ty = ITIMER_MSEC \<Longrightarrow> creates (evdp_create_source_itimer_context k ok) conf ty"
proof (rule creates_traceI)
  fix s :: nat and w :: world and x
  assume ty: "ty = ITIMER_SEC \<or> ty = ITIMER_MSEC" and x: "srcs w s = Some x" "s_conf x = Some conf" "src_type x = ty"
  show "(\<exists>tr. evdp_create_source_itimer_context k ok s w = Inr (None, w\<lparr>trace := tr\<rparr>)) \<or>
     (\<exists>c tr. evdp_create_source_itimer_context k ok s w = Inr (Some c, w\<lparr>trace := tr, srcs := (srcs w)(s \<mapsto> x\<lparr>s_pending := False\<rparr>)\<rparr>))"
  proof (cases ok)
    case True
    then show ?thesis using ty x
      by (cases "k (trace w) TimerfdCreate")
        (auto simp: evdp_create_source_itimer_context_def evdp_destroy_source_itimer_context_def evm_simps Let_def)
  qed (use same_trace [of w] in \<open>auto simp: evdp_create_source_itimer_context_def evm_simps\<close>)
qed

lemma creates_abstimer: "creates (evdp_create_source_abstimer_context k ok) conf ty"
proof (rule creates_traceI)
  fix s :: nat and w :: world and x
  assume x: "srcs w s = Some x"
  show "(\<exists>tr. evdp_create_source_abstimer_context k ok s w = Inr (None, w\<lparr>trace := tr\<rparr>)) \<or>
     (\<exists>c tr. evdp_create_source_abstimer_context k ok s w = Inr (Some c, w\<lparr>trace := tr, srcs := (srcs w)(s \<mapsto> x\<lparr>s_pending := False\<rparr>)\<rparr>))"
    using x same_trace [of w]
    by (cases ok; cases "k (trace w) TimerfdCreate")
      (auto simp: evdp_create_source_abstimer_context_def evdp_destroy_source_itimer_context_def evm_simps)
qed

text \<open>A fresh source does not disturb the queue.\<close>

lemma qinv_fresh:
  assumes inv: "qinv w r0 p0 rs ps" and a: "srcs w a = None"
    and v: "case v of None \<Rightarrow> True | Some t \<Rightarrow> q_in_use t \<noteq> Some (q_self (queue w))"
  shows "qinv (w\<lparr>srcs := (srcs w)(a := v)\<rparr>) r0 p0 rs ps"
proof -
  note I = qinvD [OF inv]
  have da: "data (srcs w) a = None" using a by (simp add: data_def)
  have "dinv (queue w) ((data (srcs w))(a := map_option unlinked v)) r0 p0 rs ps"
    using v da by (intro dinv_unattached [OF I(5)]) (auto split: option.splits)
  moreover have "data ((srcs w)(a := v)) = (data (srcs w))(a := map_option unlinked v)"
    by (auto simp: data_def fun_eq_iff)
  moreover have "a \<notin> set (r0 # p0 # rs @ ps)"
    using dinv_unattached_notin [OF I(5), of a] da by auto
  ultimately show ?thesis using I by (simp add: qinv_def qlists_other)
qed

lemma del_unattached:
  assumes "srcs w s = Some x" "q_in_use x = None"
  shows "\<exists>tr. neb_evdp_source_del k s w = Inr (0, w\<lparr>trace := tr, srcs := (srcs w)(s := None)\<rparr>)"
proof -
  have "\<exists>tr. (case s_context x of None \<Rightarrow> eret () | Some c \<Rightarrow> destroy_source_context k (src_type x) c) w = Inr ((), w\<lparr>trace := tr\<rparr>)"
    using same_trace [of w] destroy_timer_ok [of k _ w]
    by (cases "s_context x"; cases "src_type x")
      (auto simp: evm_simps destroy_source_context_def evdp_destroy_source_abstimer_context_def evdp_destroy_source_itimer_context_def)
  then show ?thesis using assms by (auto simp: neb_evdp_source_del_def evm_simps)
qed

lemma new_source_ok:
  assumes inv: "qinv w r0 p0 rs ps" and a: "srcs w a = None" and c: "creates create conf ty" and fit: "conf_fits ty (Some conf)"
  shows "\<exists>r w'. new_source k ty conf create (if alloc then Some a else None) conf_ok w = Inr (r, w') \<and> qinv w' r0 p0 rs ps \<and>
    (case r of None \<Rightarrow> srcs w' = srcs w
     | Some s \<Rightarrow> s = a \<and> (\<exists>x. srcs w' a = Some x \<and> src_wf x \<and> src_type x = ty \<and> q_in_use x = None \<and> s_conf x = Some conf))"
proof -
  let ?x = "blank_source\<lparr>src_type := ty, s_conf := Some conf\<rparr>"
  let ?w1 = "w\<lparr>srcs := (srcs w)(a \<mapsto> ?x)\<rparr>"
  have gone: "(srcs w)(a := None) = srcs w" using a by (simp add: fun_upd_idem)
  obtain co tr b where cr: "create a ?w1 = Inr (co, ?w1\<lparr>trace := tr, srcs := (srcs w)(a \<mapsto> ?x\<lparr>s_pending := b\<rparr>)\<rparr>)"
    using c unfolding creates_def by (auto dest!: spec [of _ a] spec [of _ ?w1] spec [of _ ?x] simp: blank_source_def)
  let ?w2 = "?w1\<lparr>trace := tr, srcs := (srcs w)(a \<mapsto> ?x\<lparr>s_pending := b\<rparr>)\<rparr>"
  note defs = new_source_def evm_simps alloc_src_def
  consider "\<not> alloc" | "alloc \<and> \<not> conf_ok" | "alloc \<and> conf_ok" "co = None" | ctx where "alloc \<and> conf_ok" "co = Some ctx" by (cases co) blast+
  then show ?thesis
  proof cases
    case 1
    then show ?thesis using inv by (simp add: defs)
  next
    case 2
    let ?w0 = "w\<lparr>srcs := (srcs w)(a \<mapsto> blank_source\<lparr>src_type := ty\<rparr>)\<rparr>"
    obtain tr0 where "neb_evdp_source_del k a ?w0 = Inr (0, ?w0\<lparr>trace := tr0, srcs := (srcs w)(a := None)\<rparr>)"
      using del_unattached [of ?w0 a "blank_source\<lparr>src_type := ty\<rparr>" k] by (auto simp: blank_source_def)
    then show ?thesis using 2 inv by (simp add: defs gone qinv_def)
  next
    case 3
    obtain tr0 where "neb_evdp_source_del k a ?w2 = Inr (0, ?w2\<lparr>trace := tr0, srcs := (srcs w)(a := None)\<rparr>)"
      using del_unattached [of ?w2 a "?x\<lparr>s_pending := b\<rparr>" k] by (auto simp: blank_source_def)
    then show ?thesis using 3 inv cr by (simp add: defs gone qinv_def blank_source_def)
  next
    case (4 ctx)
    let ?y = "?x\<lparr>s_pending := b, s_context := Some ctx\<rparr>"
    have "qinv (w\<lparr>srcs := (srcs w)(a \<mapsto> ?y)\<rparr>) r0 p0 rs ps"
      using qinv_fresh [OF inv a, of "Some ?y"] by (simp add: blank_source_def)
    then have "qinv (w\<lparr>trace := tr, srcs := (srcs w)(a \<mapsto> ?y)\<rparr>) r0 p0 rs ps" by (simp add: qinv_def)
    then show ?thesis using 4 cr fit by (simp add: defs src_wf_def blank_source_def)
  qed
qed

section \<open>Arming and disarming one-shot descriptors\<close>

text \<open>An attached one-shot descriptor, with the list it is in.\<close>

lemma attached_src:
  assumes inv: "qinv w r0 p0 rs ps" and x: "x \<in> set rs \<union> set ps" "types (srcs w) x = Some OS_FD"
  shows "\<exists>s c cf. srcs w x = Some s \<and> src_wf s \<and> s_context s = Some c \<and> s_conf s = Some cf \<and> src_type s = OS_FD \<and>
    (if s_pending s then x \<in> set ps else x \<in> set rs) \<and> foreach_s (queue w) \<noteq> Some x \<and>
    queue_live w \<and> q_context (queue w) \<noteq> None \<and> q_in_use s \<noteq> None"
proof -
  note I = qinvD [OF inv] and D = dinvD [OF qinvD(5) [OF inv]]
  have "member_ok (queue w) (data (srcs w)) (x \<in> set ps) x" using D(1,2) x(1) by (cases "x \<in> set ps") auto
  then obtain s where s: "srcs w x = Some s" "src_wf s" "s_pending s \<longleftrightarrow> x \<in> set ps" "q_in_use s \<noteq> None"
    "src_type s = SOURCE_NONE \<longleftrightarrow> foreach_s (queue w) = Some x"
    by (auto simp: member_ok_def src_wf_def elim!: data_SomeE)
  have ty: "src_type s = OS_FD" using x(2) s(1) by (simp add: types_def)
  obtain cf where cf: "s_conf s = Some cf" using conf_fits_Some [of OS_FD "s_conf s"] s(2) ty by (auto simp: src_wf_def)
  have "s_context s \<noteq> None" "q_context (queue w) \<noteq> None" using s(2) ty D(9) by (auto simp: src_wf_def events_ok_def)
  then show ?thesis using s cf ty x(1) I(1) by auto
qed

lemma upd_context_ok:
  assumes inv: "qinv w r0 p0 rs ps" and s: "srcs w x = Some s" "s_context s = Some c"
  shows "\<exists>w'. upd_context x f w = Inr ((), w') \<and> qinv w' r0 p0 rs ps \<and> types (srcs w') = types (srcs w) \<and>
    srcs w' x = Some (s\<lparr>s_context := Some (f c)\<rparr>) \<and> queue w' = queue w"
proof -
  have "qinv (w\<lparr>srcs := (srcs w)(x \<mapsto> s\<lparr>s_context := Some (f c)\<rparr>)\<rparr>) r0 p0 rs ps"
    by (rule qinv_upd_role [OF inv s(1)]) (auto simp: same_role_def src_wf_def s(2))
  then show ?thesis using s by (auto simp: evm_simps types_def fun_eq_iff)
qed

text \<open>Kernel calls for a source write its context only.\<close>

lemma do_ctl_os_fd_ok:
  assumes w: "queue_live w" "q_context (queue w) = Some qc" "srcs w x = Some s" "s_context s = Some c" "s_conf s = Some cf"
  shows "\<exists>r w'. do_ctl_os_fd k x w = Inr (r, w') \<and> context_only x s w w'"
proof -
  let ?call = "EpollCtl (sc_ctl_op c) (fd_of_conf cf) (ctl_events c) (ctl_ptr c)"
  obtain err where err: "sys_ok k ?call w = Inr (err, w\<lparr>trace := ?call # trace w\<rparr>)" by (simp add: sys_ok_app)
  show ?thesis
  proof (cases err)
    case None
    then show ?thesis using w err context_onlyI [OF w(4), where x = x and w = w and tr = "?call # trace w" and c' = "c\<lparr>added := True\<rparr>"]
      by (simp add: do_ctl_os_fd_def evm_simps queue_context_def)
  next
    case (Some e)
    then show ?thesis using w err context_onlyI [OF w(4), where x = x and w = w and tr = "?call # trace w" and c' = c]
      by (simp add: do_ctl_os_fd_def evm_simps queue_context_def fun_upd_idem)
  qed
qed

lemma context_only_qinv:
  assumes inv: "qinv w r0 p0 rs ps" and s: "srcs w x = Some s" and co: "context_only x s w w'"
  shows "qinv w' r0 p0 rs ps \<and> types (srcs w') = types (srcs w)"
proof -
  obtain c' tr where w': "w' = w\<lparr>trace := tr, srcs := (srcs w)(x \<mapsto> s\<lparr>s_context := c'\<rparr>)\<rparr>" "c' = None \<longleftrightarrow> s_context s = None"
    using co by (auto simp: context_only_def)
  have "qinv (w\<lparr>srcs := (srcs w)(x \<mapsto> s\<lparr>s_context := c'\<rparr>)\<rparr>) r0 p0 rs ps"
    by (rule qinv_upd_role [OF inv s]) (use w'(2) in \<open>auto simp: same_role_def src_wf_def\<close>)
  then show ?thesis using w'(1) s by (auto simp: qinv_def types_def fun_eq_iff)
qed

definition rearranged :: "world \<Rightarrow> nat \<Rightarrow> nat \<Rightarrow> nat set \<Rightarrow> (nat \<Rightarrow> src_type option) \<Rightarrow> bool" where
  "rearranged w r0 p0 A ty \<longleftrightarrow> (\<exists>rs ps. qinv w r0 p0 rs ps \<and> set rs \<union> set ps = A \<and> types (srcs w) = ty)"

lemma rearrangedI: "qinv w r0 p0 rs ps \<Longrightarrow> set rs \<union> set ps = A \<Longrightarrow> types (srcs w) = ty \<Longrightarrow> rearranged w r0 p0 A ty"
  unfolding rearranged_def by blast

lemma ctx_call_ok:
  assumes inv: "qinv w r0 p0 rs ps" and x: "x \<in> set rs \<union> set ps" "types (srcs w) x = Some OS_FD"
  shows "(\<exists>r w'. do_ctl_os_fd k x w = Inr (r, w') \<and> rearranged w' r0 p0 (set rs \<union> set ps) (types (srcs w))) \<and>
    (\<exists>r w'. do_del_os_fd k x w = Inr (r, w') \<and> rearranged w' r0 p0 (set rs \<union> set ps) (types (srcs w)))"
proof -
  obtain s c cf qc where s: "srcs w x = Some s" "s_context s = Some c" "s_conf s = Some cf" "queue_live w" "q_context (queue w) = Some qc"
    using attached_src [OF inv x] by auto
  note co = context_only_qinv [OF inv s(1)]
  show ?thesis using do_ctl_os_fd_ok [OF s(4,5,1,2,3), of k] do_del_os_fd_ok [OF s(4,5,1,2,3), of k] co rearrangedI by metis
qed

lemma os_fd_reset_ok:
  assumes inv: "qinv w r0 p0 rs ps" and x: "x \<in> set rs \<union> set ps" "types (srcs w) x = Some OS_FD"
  shows "\<exists>r w'. os_fd_reset k ev x w = Inr (r, w') \<and> rearranged w' r0 p0 (set rs \<union> set ps) (types (srcs w))"
proof -
  obtain s c cf where s: "srcs w x = Some s" "s_context s = Some c" "if s_pending s then x \<in> set ps else x \<in> set rs"
      "foreach_s (queue w) \<noteq> Some x"
    using attached_src [OF inv x] by blast
  obtain w1 where w1: "upd_context x (\<lambda>c. c\<lparr>ctl_events := ctl_events c OR ev\<rparr>) w = Inr ((), w1)" "qinv w1 r0 p0 rs ps"
    "types (srcs w1) = types (srcs w)" "srcs w1 x = Some (s\<lparr>s_context := Some (c\<lparr>ctl_events := ctl_events c OR ev\<rparr>)\<rparr>)" "queue w1 = queue w"
    using upd_context_ok [OF inv s(1,2)] by blast
  note c1 = ctx_call_ok [OF w1(2) x(1), of k]
  show ?thesis
  proof (cases "added c")
    case True
    then show ?thesis using s w1 c1 x rearrangedI [OF inv] by (auto simp: os_fd_reset_def evm_simps)
  next
    case na: False
    show ?thesis
    proof (cases "\<not> in_callback c \<and> \<not> s_pending s")
      case True
      then have xr: "x \<in> set rs" using s(3) by simp
      obtain w2 where w2: "running_to_pending x w1 = Inr ((), w2)" "qinv w2 r0 p0 (remove1 x rs) (x # ps)" "types (srcs w2) = types (srcs w1)"
        using running_to_pending_ok [OF w1(2) xr] s(4) w1(5) by auto
      have "set (remove1 x rs) \<union> set (x # ps) = set rs \<union> set ps"
        using xr qinvD(6) [OF inv] by (auto simp: set_remove1_eq)
      then show ?thesis using na True s w1 w2 rearrangedI [OF w2(2)] by (simp add: os_fd_reset_def evm_simps)
    next
      case False
      then show ?thesis using na s w1 rearrangedI [OF w1(2)] by (auto simp: os_fd_reset_def evm_simps)
    qed
  qed
qed

lemma os_fd_unset_ok:
  assumes inv: "qinv w r0 p0 rs ps" and x: "x \<in> set rs \<union> set ps" "types (srcs w) x = Some OS_FD"
  shows "\<exists>r w'. os_fd_unset k ev other x w = Inr (r, w') \<and> rearranged w' r0 p0 (set rs \<union> set ps) (types (srcs w))"
proof -
  obtain s c cf where s: "srcs w x = Some s" "s_context s = Some c" "if s_pending s then x \<in> set ps else x \<in> set rs"
      "foreach_s (queue w) \<noteq> Some x"
    using attached_src [OF inv x] by blast
  obtain w1 where w1: "upd_context x (\<lambda>c. c\<lparr>ctl_events := ctl_events c XOR ev\<rparr>) w = Inr ((), w1)" "qinv w1 r0 p0 rs ps"
    "types (srcs w1) = types (srcs w)"
    using upd_context_ok [OF inv s(1,2)] by blast
  obtain w2 where w2: "upd_context x (\<lambda>c. c\<lparr>ctl_events := ctl_events c AND NOT ev\<rparr>) w = Inr ((), w2)" "qinv w2 r0 p0 rs ps"
    "types (srcs w2) = types (srcs w)" "srcs w2 x = Some (s\<lparr>s_context := Some (c\<lparr>ctl_events := ctl_events c AND NOT ev\<rparr>)\<rparr>)"
    using upd_context_ok [OF inv s(1,2)] by blast
  note c1 = ctx_call_ok [OF w1(2) x(1), of k] and same = rearrangedI [OF inv refl refl] rearrangedI [OF w1(2) refl w1(3)] rearrangedI [OF w2(2) refl w2(3)]
  show ?thesis
  proof (cases "added c")
    case True
    then show ?thesis using s w1 c1 x same
      by (cases "has_event (ctl_events c) ev"; cases "has_event (ctl_events c XOR ev) other") (auto simp: os_fd_unset_def evm_simps)
  next
    case na: False
    show ?thesis
    proof (cases "s_pending s \<and> \<not> has_event (ctl_events c AND NOT ev) other")
      case True
      then have xp: "x \<in> set ps" using s(3) by simp
      obtain w3 where w3: "pending_to_running x w2 = Inr ((), w3)" "qinv w3 r0 p0 (x # rs) (remove1 x ps)" "types (srcs w3) = types (srcs w2)"
        using pending_to_running_ok [OF w2(2) xp] by blast
      have "set (x # rs) \<union> set (remove1 x ps) = set rs \<union> set ps"
        using xp qinvD(6) [OF inv] by (auto simp: set_remove1_eq)
      then show ?thesis using na True s w2 w3 rearrangedI [OF w3(2)] by (simp add: os_fd_unset_def evm_simps)
    next
      case False
      then show ?thesis using na s w2 same by (auto simp: os_fd_unset_def evm_simps)
    qed
  qed
qed

lemma next_read_write_ok:
  assumes inv: "qinv w r0 p0 rs ps" and x: "x \<in> set rs \<union> set ps" "types (srcs w) x = Some OS_FD"
  shows "\<exists>r w'. neb_evdp_source_os_fd_next_read k x h w = Inr (r, w') \<and> rearranged w' r0 p0 (set rs \<union> set ps) (types (srcs w))"
    "\<exists>r w'. neb_evdp_source_os_fd_next_write k x h w = Inr (r, w') \<and> rearranged w' r0 p0 (set rs \<union> set ps) (types (srcs w))"
proof -
  obtain s c cf qp where s: "srcs w x = Some s" "src_wf s" "s_conf s = Some cf" "q_in_use s = Some qp" "src_type s = OS_FD"
    using attached_src [OF inv x] by blast
  then obtain fd hup r wr where cf: "cf = ConfFd fd hup r wr" by (auto simp: src_wf_def elim: conf_fits.elims)
  let ?w1 = "\<lambda>cf'. w\<lparr>srcs := (srcs w)(x \<mapsto> s\<lparr>s_conf := Some cf'\<rparr>)\<rparr>"
  have q1: "qinv (?w1 (ConfFd a b d e)) r0 p0 rs ps" "types (srcs (?w1 (ConfFd a b d e))) = types (srcs w)" for a b d e
    using s by (auto simp: same_role_def src_wf_def types_def fun_eq_iff intro!: qinv_upd_role [OF inv s(1)])
  have x1: "types (srcs (?w1 (ConfFd a b d e))) x = Some OS_FD" for a b d e using q1(2) [of a b d e] x(2) by simp
  note ok = os_fd_reset_ok [OF q1(1) x(1) x1] os_fd_unset_ok [OF q1(1) x(1) x1]
  have ok': "\<exists>r w'. os_fd_reset k ev x (?w1 (ConfFd a b d e)) = Inr (r, w') \<and> rearranged w' r0 p0 (set rs \<union> set ps) (types (srcs w))"
    "\<exists>r w'. os_fd_unset k ev other x (?w1 (ConfFd a b d e)) = Inr (r, w') \<and> rearranged w' r0 p0 (set rs \<union> set ps) (types (srcs w))" for a b d e ev other
    using ok(1) [of k ev a b d e] ok(2) [of k ev other a b d e] unfolding q1(2) by auto
  note defs = neb_evdp_source_os_fd_next_read_def neb_evdp_source_os_fd_next_write_def evdp_source_os_fd_reset_read_def
     evdp_source_os_fd_unset_read_def evdp_source_os_fd_reset_write_def evdp_source_os_fd_unset_write_def
  show "\<exists>r w'. neb_evdp_source_os_fd_next_read k x h w = Inr (r, w') \<and> rearranged w' r0 p0 (set rs \<union> set ps) (types (srcs w))"
    using s cf ok' by (cases h) (simp_all add: defs evm_simps)
  show "\<exists>r w'. neb_evdp_source_os_fd_next_write k x h w = Inr (r, w') \<and> rearranged w' r0 p0 (set rs \<union> set ps) (types (srcs w))"
    using s cf ok' by (cases h) (simp_all add: defs evm_simps)
qed

section \<open>The interface of the event queue\<close>

datatype evdp_call =
    CallAttach nat
  | CallDetach nat bool
  | CallDel nat
  | CallNewRoFd nat int nat nat
  | CallNewOsFd nat int nat
  | CallNewItimerS nat u32 int "nat option"
  | CallNewItimerMs nat u32 int "nat option"
  | CallNextRead nat "nat option"
  | CallNextWrite nat "nat option"
  | CallForeachStart nat nat
  | CallForeachEnd
  | CallFlush

definition ret_ptr :: "nat option \<Rightarrow> int" where "ret_ptr p = (case p of None \<Rightarrow> 0 | Some a \<Rightarrow> int a)"

text \<open>\<open>run_evdp k rem\<close> runs one call; allocations succeed at the given addresses, and the
  flush gets as much fuel as there are sources in the pending counter.\<close>

fun run_evdp :: "kernel \<Rightarrow> removers \<Rightarrow> evdp_call \<Rightarrow> int evm" where
  "run_evdp k rem (CallAttach x) = neb_evdp_queue_attach k x"
| "run_evdp k rem (CallDetach x c) = neb_evdp_queue_detach k rem x c"
| "run_evdp k rem (CallDel x) = neb_evdp_source_del k x"
| "run_evdp k rem (CallNewRoFd a fd rf hf) = ebind (neb_evdp_source_new_ro_fd k (Some a) True True fd rf hf) (\<lambda>r. eret (ret_ptr r))"
| "run_evdp k rem (CallNewOsFd a fd hf) = ebind (neb_evdp_source_new_os_fd k (Some a) True True fd hf) (\<lambda>r. eret (ret_ptr r))"
| "run_evdp k rem (CallNewItimerS a i v h) = ebind (neb_evdp_source_new_itimer_s k (Some a) True True i v h) (\<lambda>r. eret (ret_ptr r))"
| "run_evdp k rem (CallNewItimerMs a i v h) = ebind (neb_evdp_source_new_itimer_ms k (Some a) True True i v h) (\<lambda>r. eret (ret_ptr r))"
| "run_evdp k rem (CallNextRead x h) = neb_evdp_source_os_fd_next_read k x h"
| "run_evdp k rem (CallNextWrite x h) = neb_evdp_source_os_fd_next_write k x h"
| "run_evdp k rem (CallForeachStart a cb) = neb_evdp_queue_foreach_start (Some a) cb"
| "run_evdp k rem CallForeachEnd = ebind neb_evdp_queue_foreach_set_end (\<lambda>_. eret 0)"
| "run_evdp k rem CallFlush = (\<lambda>w. evdp_queue_flush_pending_sources k (nat (stats_pending (queue w))) w)"

text \<open>The caller's part: sources it names are alive and were built by the constructors, new addresses
  are free, and after a failed flush it calls no more.\<close>

fun legal_evdp :: "kernel \<Rightarrow> world \<Rightarrow> evdp_call \<Rightarrow> bool" where
  "legal_evdp k w (CallAttach x) = (case srcs w x of None \<Rightarrow> False
     | Some s \<Rightarrow> q_in_use s \<noteq> None \<or> src_wf s \<and> src_type s \<noteq> SOURCE_NONE)"
| "legal_evdp k w (CallDetach x c) = (case srcs w x of None \<Rightarrow> False | Some s \<Rightarrow> src_type s \<noteq> SOURCE_NONE)"
| "legal_evdp k w (CallDel x) = (srcs w x \<noteq> None)"
| "legal_evdp k w (CallNewRoFd a fd rf hf) = (srcs w a = None)"
| "legal_evdp k w (CallNewOsFd a fd hf) = (srcs w a = None)"
| "legal_evdp k w (CallNewItimerS a i v h) = (srcs w a = None)"
| "legal_evdp k w (CallNewItimerMs a i v h) = (srcs w a = None)"
| "legal_evdp k w (CallNextRead x h) = (case srcs w x of None \<Rightarrow> False
     | Some s \<Rightarrow> src_type s = OS_FD \<and> q_in_use s = Some (q_self (queue w)))"
| "legal_evdp k w (CallNextWrite x h) = (case srcs w x of None \<Rightarrow> False
     | Some s \<Rightarrow> src_type s = OS_FD \<and> q_in_use s = Some (q_self (queue w)))"
| "legal_evdp k w (CallForeachStart a cb) = (srcs w a = None)"
| "legal_evdp k w CallForeachEnd = True"
| "legal_evdp k w CallFlush = (case evdp_queue_flush_pending_sources k (nat (stats_pending (queue w))) w of
     Inl e \<Rightarrow> True | Inr (r, w') \<Rightarrow> r = 0)"

definition queue_ok :: "nat \<Rightarrow> nat \<Rightarrow> world \<Rightarrow> bool" where
  "queue_ok r0 p0 w \<longleftrightarrow> (\<exists>rs ps. qinv w r0 p0 rs ps)"

lemma queue_okI: "qinv w r0 p0 rs ps \<Longrightarrow> queue_ok r0 p0 w"
  unfolding queue_ok_def by blast

lemma rearranged_queue_ok: "rearranged w r0 p0 A ty \<Longrightarrow> queue_ok r0 p0 w"
  unfolding rearranged_def queue_ok_def by blast

lemma attached_member:
  assumes inv: "qinv w r0 p0 rs ps" and x: "srcs w x = Some s" "q_in_use s = Some (q_self (queue w))" "src_type s \<noteq> SOURCE_NONE"
  shows "x \<in> set rs \<union> set ps \<and> foreach_s (queue w) \<noteq> Some x"
proof -
  note D = dinvD [OF qinvD(5) [OF inv]]
  have d: "data (srcs w) x = Some (unlinked s)" using x(1) by (rule data_Some)
  have "x \<noteq> r0" "x \<noteq> p0" using D(4,5) d x(3) by (auto simp: empty_ok_def)
  moreover have "foreach_s (queue w) \<noteq> Some x" using D(6) d x(3) by (auto simp: empty_ok_def)
  ultimately show ?thesis using D(3) [rule_format, OF d] x(2) by auto
qed

lemma attach_call_ok:
  assumes inv: "qinv w r0 p0 rs ps" and l: "legal_evdp k w (CallAttach x)"
  shows "\<exists>r w'. neb_evdp_queue_attach k x w = Inr (r, w') \<and> queue_ok r0 p0 w'"
proof -
  obtain s where s: "srcs w x = Some s" "q_in_use s \<noteq> None \<or> src_wf s \<and> src_type s \<noteq> SOURCE_NONE" using l by (auto split: option.splits)
  show ?thesis
  proof (cases "q_in_use s = None \<and> \<not> destroying (queue w)")
    case True
    then show ?thesis using attach_ok [OF inv s(1), of k] s(2) queue_okI by (metis (no_types, lifting))
  next
    case False
    then show ?thesis using s(1) qinvD(1) [OF inv] queue_okI [OF inv] by (auto simp: neb_evdp_queue_attach_def evm_simps)
  qed
qed

lemma detach_call_ok:
  assumes inv: "qinv w r0 p0 rs ps" and l: "legal_evdp k w (CallDetach x c)" and rem: "remover_ok rem"
  shows "\<exists>r w'. neb_evdp_queue_detach k rem x c w = Inr (r, w') \<and> queue_ok r0 p0 w'"
proof -
  obtain s where s: "srcs w x = Some s" "src_type s \<noteq> SOURCE_NONE" using l by (auto split: option.splits)
  note live = qinvD(1) [OF inv]
  show ?thesis
  proof (cases "q_in_use s = Some (q_self (queue w)) \<and> \<not> no_detach s")
    case True
    obtain w' where "do_detach_from_queue k rem x c w = Inr ((), w')" "qinv w' r0 p0 (remove1 x rs) (remove1 x ps)"
      using detach_ok [OF inv _ _ rem, of x k c] attached_member [OF inv s(1) _ s(2)] True by blast
    then show ?thesis using s True live queue_okI by (auto simp: neb_evdp_queue_detach_def evm_simps)
  next
    case False
    then show ?thesis using s live queue_okI [OF inv] by (auto simp: neb_evdp_queue_detach_def evm_simps)
  qed
qed

lemma new_call_ok:
  assumes inv: "qinv w r0 p0 rs ps" and a: "srcs w a = None" and c: "creates create conf ty" and f: "conf_fits ty (Some conf)"
  shows "\<exists>r w'. ebind (new_source k ty conf create (Some a) True) (\<lambda>r. eret (ret_ptr r)) w = Inr (r, w') \<and> queue_ok r0 p0 w'"
proof -
  obtain r w' where "new_source k ty conf create (Some a) True w = Inr (r, w')" "qinv w' r0 p0 rs ps"
    using new_source_ok [OF inv a c f, of k True True] by auto
  then show ?thesis using queue_okI by (auto simp: evm_simps)
qed

lemma dinv_new_marker:
  assumes inv: "dinv q D r0 p0 rs ps" and f: "foreach_s q = None" "D a = None"
    and t: "src_type t = SOURCE_NONE" "q_in_use t = Some (q_self q)" "s_context t = None" "utype t = 0" "\<not> s_pending t"
  shows "dinv (q\<lparr>foreach_s := Some a\<rparr>) (D(a \<mapsto> t)) r0 p0 rs ps"
proof -
  note I = dinvD [OF inv]
  have y: "case D a of None \<Rightarrow> True | Some s \<Rightarrow> q_in_use s \<noteq> Some (q_self q)" using f(2) by simp
  note ne = dinv_unattached_notin [OF inv y]
  have m: "member_ok (q\<lparr>foreach_s := Some a\<rparr>) (D(a \<mapsto> t)) b x" if "member_ok q D b x" "x \<noteq> a" for b x
    using that f(1) by (auto simp: member_ok_def)
  have e: "empty_ok (q\<lparr>foreach_s := Some a\<rparr>) (D(a \<mapsto> t)) x" if "empty_ok q D x" "x \<noteq> a" for x
    using that by (auto simp: empty_ok_def)
  have ev: "events_ok (q\<lparr>foreach_s := Some a\<rparr>) (set rs \<union> set ps)"
    using I(9) ne(1,2) unfolding events_ok_def by fastforce
  have "\<forall>x \<in> set rs. member_ok (q\<lparr>foreach_s := Some a\<rparr>) (D(a \<mapsto> t)) False x"
    "\<forall>x \<in> set ps. member_ok (q\<lparr>foreach_s := Some a\<rparr>) (D(a \<mapsto> t)) True x"
    using I(1,2) m ne(1,2) by metis+
  moreover have "empty_ok (q\<lparr>foreach_s := Some a\<rparr>) (D(a \<mapsto> t)) r0" "empty_ok (q\<lparr>foreach_s := Some a\<rparr>) (D(a \<mapsto> t)) p0"
    using e I(4,5) ne(3,4) by auto
  moreover have "empty_ok (q\<lparr>foreach_s := Some a\<rparr>) (D(a \<mapsto> t)) a" using t by (simp add: empty_ok_def)
  ultimately show ?thesis using I(3,6-8) ev ne f(1) unfolding dinv_def by auto
qed

lemma foreach_start_ok:
  assumes inv: "qinv w r0 p0 rs ps" and a: "srcs w a = None"
  shows "\<exists>r w'. neb_evdp_queue_foreach_start (Some a) cb w = Inr (r, w') \<and> queue_ok r0 p0 w'"
proof -
  note I = qinvD [OF inv]
  consider "in_foreach (queue w)" | f where "\<not> in_foreach (queue w)" "foreach_s (queue w) = Some f"
    | "\<not> in_foreach (queue w)" "foreach_s (queue w) = None" by (cases "foreach_s (queue w)") auto
  then show ?thesis
  proof cases
    case 1
    then show ?thesis using I(1) queue_okI [OF inv] by (auto simp: neb_evdp_queue_foreach_start_def evm_simps)
  next
    case (2 f)
    then show ?thesis using foreach_start_again_ok [OF inv 2, of "Some a" cb] queue_okI by blast
  next
    case 3
    let ?t = "blank_source\<lparr>src_type := SOURCE_NONE, q_in_use := Some (q_self (queue w)), s_on_remove := RemoveDel\<rparr>"
    let ?q = "(queue w)\<lparr>foreach_s := Some a\<rparr>"
    define w1 where "w1 = w\<lparr>srcs := (srcs w)(a \<mapsto> ?t), queue := ?q\<rparr>"
    have da: "data (srcs w) a = None" using a by (simp add: data_def)
    have "dinv ?q ((data (srcs w))(a \<mapsto> unlinked ?t)) r0 p0 rs ps"
      by (rule dinv_new_marker [OF I(5) 3(2) da]) (simp_all add: blank_source_def)
    moreover have "a \<notin> set (r0 # p0 # rs @ ps)" using dinv_unattached_notin [OF I(5), of a] da by auto
    ultimately have q1: "qinv w1 r0 p0 rs ps" using I qlists_other by (simp add: qinv_def w1_def)
    have "neb_evdp_queue_foreach_start (Some a) cb w = neb_evdp_queue_foreach_start (Some a) cb w1"
      using 3 I(1) by (simp add: neb_evdp_queue_foreach_start_def evm_simps evdp_source_new_empty_def alloc_src_def w1_def)
    then show ?thesis using foreach_start_again_ok [OF q1, of a "Some a" cb] 3 queue_okI by (auto simp: w1_def)
  qed
qed

lemma foreach_end_ok:
  assumes inv: "qinv w r0 p0 rs ps"
  shows "\<exists>w'. neb_evdp_queue_foreach_set_end w = Inr ((), w') \<and> queue_ok r0 p0 w'"
proof (cases "in_foreach (queue w)")
  case True
  moreover have "foreach_s (queue w) \<noteq> None" using dinvD(6) [OF qinvD(5) [OF inv]] True by (auto split: option.splits)
  ultimately show ?thesis using foreach_set_end_ok [OF inv] queue_okI by blast
next
  case False
  then show ?thesis using qinvD(1) [OF inv] queue_okI [OF inv] by (simp add: neb_evdp_queue_foreach_set_end_def evm_simps)
qed

lemma evdp_call_safe:
  assumes ok: "queue_ok r0 p0 w" and l: "legal_evdp k w a" and rem: "remover_ok rem"
  shows "\<exists>r w'. run_evdp k rem a w = Inr (r, w') \<and> queue_ok r0 p0 w'"
proof -
  obtain rs ps where inv: "qinv w r0 p0 rs ps" using ok by (auto simp: queue_ok_def)
  have mem: "x \<in> set rs \<union> set ps" "types (srcs w) x = Some OS_FD"
    if "srcs w x = Some s" "src_type s = OS_FD" "q_in_use s = Some (q_self (queue w))" for x s
    using that attached_member [OF inv that(1,3)] by (auto simp: types_def)
  show ?thesis
  proof (cases a)
    case (CallAttach x)
    then show ?thesis using attach_call_ok [OF inv] l by simp
  next
    case (CallDetach x c)
    then show ?thesis using detach_call_ok [OF inv _ rem, of k x c] l by simp
  next
    case (CallDel x)
    then obtain s where s: "srcs w x = Some s" using l by auto
    show ?thesis
    proof (cases "q_in_use s")
      case None
      then show ?thesis using source_del_unattached [OF inv s, of k] CallDel queue_okI by auto
    next
      case (Some qp)
      then show ?thesis using s CallDel ok by (simp add: neb_evdp_source_del_def evm_simps)
    qed
  next
    case (CallNewRoFd p fd rf hf)
    then show ?thesis using new_call_ok [OF inv, of p] l creates_fd(1) by (simp add: neb_evdp_source_new_ro_fd_def)
  next
    case (CallNewOsFd p fd hf)
    then show ?thesis using new_call_ok [OF inv, of p] l creates_fd(2) by (simp add: neb_evdp_source_new_os_fd_def)
  next
    case (CallNewItimerS p i v h)
    then show ?thesis using new_call_ok [OF inv, of p] l creates_itimer by (simp add: neb_evdp_source_new_itimer_s_def)
  next
    case (CallNewItimerMs p i v h)
    then show ?thesis using new_call_ok [OF inv, of p] l creates_itimer by (simp add: neb_evdp_source_new_itimer_ms_def)
  next
    case (CallNextRead x h)
    then obtain s where s: "srcs w x = Some s" "src_type s = OS_FD" "q_in_use s = Some (q_self (queue w))"
      using l by (auto split: option.splits)
    then show ?thesis using CallNextRead next_read_write_ok(1) [OF inv mem [OF s], of k h] rearranged_queue_ok by auto
  next
    case (CallNextWrite x h)
    then obtain s where s: "srcs w x = Some s" "src_type s = OS_FD" "q_in_use s = Some (q_self (queue w))"
      using l by (auto split: option.splits)
    then show ?thesis using CallNextWrite next_read_write_ok(2) [OF inv mem [OF s], of k h] rearranged_queue_ok by auto
  next
    case (CallForeachStart p cb)
    then show ?thesis using foreach_start_ok [OF inv] l by simp
  next
    case CallForeachEnd
    then show ?thesis using foreach_end_ok [OF inv] by (auto simp: evm_simps)
  next
    case CallFlush
    have "length ps < nat (stats_pending (queue w))" using dinvD(8) [OF qinvD(5) [OF inv]] by simp
    then obtain ret w' where f: "evdp_queue_flush_pending_sources k (nat (stats_pending (queue w))) w = Inr (ret, w')"
      "ret = 0 \<and> qinv w' r0 p0 (rev ps @ rs) [] \<or> ret = -1" using flush_ok [OF inv] by blast
    then show ?thesis using CallFlush l queue_okI by auto
  qed
qed

text \<open>The usual \<open>on_remove\<close> callback deletes the source.\<close>

lemma remover_del_ok: "remover_ok (\<lambda>h s. neb_evdp_source_del k s)"
  unfolding remover_ok_def
proof (intro allI impI, elim conjE)
  fix h x w r0 p0 rs ps t
  assume a: "qinv w r0 p0 rs ps" "srcs w x = Some t" "q_in_use t = None"
  have "x \<notin> set (r0 # p0 # rs @ ps)" using qinv_unattached_notin [OF a(1,2)] a(3) by simp
  then have "\<forall>y \<in> set rs \<union> set ps. types ((srcs w)(x := None)) y = types (srcs w) y" by auto
  then show "\<exists>r w'. neb_evdp_source_del k x w = Inr (r, w') \<and> qinv w' r0 p0 rs ps \<and> queue w' = queue w \<and>
      (\<forall>y \<in> set rs \<union> set ps. types (srcs w') y = types (srcs w) y)"
    using source_del_unattached [OF a, of k] by metis
qed

interpretation evdp_api: safe_api "run_evdp k (\<lambda>h s. neb_evdp_source_del k s)" "legal_evdp k" "queue_ok r0 p0" for k r0 p0
  using evdp_call_safe [OF _ _ remover_del_ok] by unfold_locales

section \<open>A queue with one ready source\<close>

definition sample_head :: neb_evdp_source where
  "sample_head = blank_source\<lparr>q_in_use := Some 100, s_on_remove := RemoveDel\<rparr>"

definition sample_ro :: neb_evdp_source where
  "sample_ro = blank_source\<lparr>s_prev := Some 1, q_in_use := Some 100, src_type := RO_FD,
     s_conf := Some (ConfRoFd 5 7 8), s_context := Some empty_context\<rparr>"

definition sample_world :: world where
  "sample_world = \<lparr>queue_live = True,
     queue = (blank_queue 100)\<lparr>running_qs := Some 1, pending_qs := Some 2, stats_running := 2, stats_pending := 1,
       q_context := Some \<lparr>ep_fd = 9, ee = [(EPOLLIN, Some 3)]\<rparr>, nevents := 1\<rparr>,
     srcs = [1 \<mapsto> sample_head\<lparr>s_next := Some 3\<rparr>, 2 \<mapsto> sample_head, 3 \<mapsto> sample_ro], trace = [], thread_events = 0\<rparr>"

lemmas sample_defs = sample_world_def sample_head_def sample_ro_def blank_source_def blank_queue_def

lemma sample_data: "data (srcs sample_world) =
    [1 \<mapsto> unlinked sample_head, 2 \<mapsto> unlinked sample_head, 3 \<mapsto> unlinked sample_ro]"
  by (auto simp: data_def sample_world_def fun_eq_iff)

lemma sample_qinv: "qinv sample_world 1 2 [3] []"
proof -
  have "qlists (srcs sample_world) 1 2 [3] []" by (simp add: qlists_def sample_defs)
  moreover have "dinv (queue sample_world) (data (srcs sample_world)) 1 2 [3] []"
    unfolding sample_data dinv_def
    by (auto simp: sample_defs member_ok_def empty_ok_def events_ok_def src_wf_def unlinked_def split: if_splits)
  ultimately show ?thesis by (simp add: qinv_def) (simp add: sample_defs)
qed

lemma sample_looping: "looping 1 2 0 1 sample_world"
proof -
  have "todo_ok (queue sample_world) 0 (set [3])" "plain_events sample_world 0"
    by (auto simp: todo_ok_def plain_events_def event_at_def types_def sample_defs)
  then show ?thesis using sample_qinv unfolding looping_def by (intro exI [of _ "[3]"] exI [of _ "[]"]) (simp add: sample_defs)
qed

definition quiet :: callbacks where "quiet h s = eret CB_CONTINUE"

lemma quiet_ok: "callbacks_ok quiet"
  by (auto simp: callbacks_ok_def quiet_def evm_simps)

definition sample_kernel :: kernel where
  "sample_kernel tr c = (case c of EpollCreate \<Rightarrow> SysFd 9 | TimerfdCreate \<Rightarrow> SysFd 11 | _ \<Rightarrow> SysOk)"

definition no_world :: world where
  "no_world = \<lparr>queue_live = False, queue = blank_queue 0, srcs = Map.empty, trace = [], thread_events = 0\<rparr>"

section \<open>Properties\<close>


definition sample_w1 :: world where
  "sample_w1 = (case neb_evdp_queue_create sample_kernel (\<lambda>h s. eret 0) (Some 100) (Some 1) (Some 2) True (Some []) 0 no_world of
     Inr (ok, w) \<Rightarrow> w | Inl e \<Rightarrow> no_world)"

definition sample_calls :: "evdp_call list" where
  "sample_calls = [CallNewRoFd 3 5 7 8, CallNewOsFd 4 6 9, CallAttach 3, CallAttach 4, CallNextRead 4 (Some 1), CallForeachStart 5 0, CallFlush,
     CallDetach 3 False, CallForeachEnd, CallDel 3, CallDel 4]"




text \<open>C6. Detaching an attached source unlinks it, runs its \<open>on_remove\<close> callback, keeps the
  invariant, and cancels exactly its fetched but unhandled events.\<close>

theorem evdp_detach_cancels_events:
  assumes "qinv w r0 p0 rs ps" "x \<in> set rs \<union> set ps" "foreach_s (queue w) \<noteq> Some x" "remover_ok rem"
  shows "\<exists>w'. do_detach_from_queue k rem x to_close w = Inr ((), w') \<and> qinv w' r0 p0 (remove1 x rs) (remove1 x ps) \<and>
    (\<forall>i s. event_at (queue w') i s \<longleftrightarrow> event_at (queue w) i s \<and> s \<noteq> x)"
  using detach_ok [OF assms, of k to_close] by (auto simp: detached_queue_def)

theorem evdp_detach_cancels_events_witness:
  "\<exists>w'. do_detach_from_queue sample_kernel (\<lambda>h s. neb_evdp_source_del sample_kernel s) 3 False sample_world = Inr ((), w') \<and>
    qinv w' 1 2 (remove1 3 [3]) (remove1 3 []) \<and> (\<forall>i s. event_at (queue w') i s \<longleftrightarrow> event_at (queue sample_world) i s \<and> s \<noteq> 3)"
  by (rule evdp_detach_cancels_events [OF sample_qinv]) (simp_all add: remover_del_ok sample_defs)



text \<open>C18. Attaching an unattached source puts it at the front of the pending list when it waits for
  events (a one-shot descriptor without armed direction goes to the running list), or fails and leaves the lists as
  they were.\<close>

theorem evdp_attach_places:
  assumes "qinv w r0 p0 rs ps" "srcs w x = Some s" "q_in_use s = None" "src_wf s" "src_type s \<noteq> SOURCE_NONE"
    "\<not> destroying (queue w)"
  shows "\<exists>ret w'. neb_evdp_queue_attach k x w = Inr (ret, w') \<and>
    (ret = 0 \<and> (if wants_events s then qinv w' r0 p0 rs (x # ps) else qinv w' r0 p0 (x # rs) ps) \<or>
     ret = -1 \<and> qinv w' r0 p0 rs ps)"
  by (rule attach_ok [OF assms])

definition sample_free :: neb_evdp_source where
  "sample_free = blank_source\<lparr>src_type := OS_FD, s_conf := Some (ConfFd 6 7 None None), s_context := Some empty_context\<rparr>"

theorem evdp_attach_places_witness:
  "\<exists>ret w'. neb_evdp_queue_attach sample_kernel 4 (sample_world\<lparr>srcs := (srcs sample_world)(4 \<mapsto> sample_free)\<rparr>) = Inr (ret, w') \<and>
    (ret = 0 \<and> (if wants_events sample_free then qinv w' 1 2 [3] [4] else qinv w' 1 2 [4, 3] []) \<or>
     ret = -1 \<and> qinv w' 1 2 [3] [])"
  by (rule evdp_attach_places, rule qinv_fresh [OF sample_qinv])
    (simp_all add: sample_defs sample_free_def src_wf_def)

text \<open>C19. Flushing with enough steps either moves every pending source to the running list, in
  order, or reports the failed system call.\<close>

theorem evdp_flush_moves_all:
  assumes "qinv w r0 p0 rs ps" "length ps < fuel"
  shows "\<exists>ret w'. evdp_queue_flush_pending_sources k fuel w = Inr (ret, w') \<and>
    (ret = 0 \<and> qinv w' r0 p0 (rev ps @ rs) [] \<or> ret = -1)"
  by (rule flush_ok [OF assms])

theorem evdp_flush_moves_all_witness:
  "\<exists>ret w'. evdp_queue_flush_pending_sources sample_kernel 1 sample_world = Inr (ret, w') \<and>
    (ret = 0 \<and> qinv w' 1 2 (rev [] @ [3]) [] \<or> ret = -1)"
  by (rule evdp_flush_moves_all [OF sample_qinv]) simp



text \<open>When the first wakeup time of a new absolute timer cannot be computed, the constructor
  returns no source but keeps the allocated one.\<close>

theorem new_abstimer_leaks:
  assumes "k (trace w) TimerfdCreate = SysFd fd" "nearest sec_of_day = None" "0 \<le> sec_of_day" "sec_of_day < TOTAL_DAY_SECONDS"
  shows "\<exists>w'. neb_evdp_source_new_abstimer k nearest (Some a) True True ident sec_of_day tf w = Inr (None, w') \<and>
    (\<exists>x. srcs w' a = Some x \<and> src_type x = ABSTIMER \<and> s_context x \<noteq> None)"
  using assms
  by (simp add: neb_evdp_source_new_abstimer_def new_source_def evm_simps alloc_src_def evdp_create_source_abstimer_context_def
      evdp_source_abstimer_regulate_def blank_source_def)

theorem new_abstimer_leaks_witness:
  "\<exists>w'. neb_evdp_source_new_abstimer sample_kernel (\<lambda>_. None) (Some 4) True True 1 3600 None sample_world = Inr (None, w') \<and>
    (\<exists>x. srcs w' 4 = Some x \<and> src_type x = ABSTIMER \<and> s_context x \<noteq> None)"
  by (rule new_abstimer_leaks) (simp_all add: sample_kernel_def TOTAL_DAY_SECONDS_def)

text \<open>C25. Without an event handler the run loop obeys the thread events at once: an abort ends it with
  -1, a quit with 0, and the queue is not touched.\<close>

theorem evdp_run_obeys_quit:
  assumes "queue_live w" "event_call (queue w) = None" "thread_events w AND (T_E_QUIT OR T_E_ABRT) \<noteq> 0"
  shows "neb_evdp_queue_run k rem call qcall tm fuel (Suc n) w =
    Inr (if thread_events w AND T_E_ABRT \<noteq> 0 then -1 else 0, w)"
proof -
  have "thread_events w \<noteq> 0" "thread_events w AND T_E_ABRT \<noteq> 0 \<or> thread_events w AND T_E_QUIT \<noteq> 0"
    using assms(3) by (auto simp: bit.conj_disj_distrib)
  then show ?thesis using assms(1,2)
    by (auto simp: evm_simps run_round_def check_thread_events_def get_thread_events_def)
qed

theorem evdp_run_obeys_quit_witness:
  "neb_evdp_queue_run sample_kernel (\<lambda>h s. eret 0) quiet (\<lambda>h. eret CB_CONTINUE) None 5 (Suc 0) (sample_world\<lparr>thread_events := T_E_QUIT\<rparr>) =
    Inr (if thread_events (sample_world\<lparr>thread_events := T_E_QUIT\<rparr>) AND T_E_ABRT \<noteq> 0 then -1 else 0, sample_world\<lparr>thread_events := T_E_QUIT\<rparr>)"
  by (rule evdp_run_obeys_quit) (simp_all add: sample_defs T_E_QUIT_def T_E_ABRT_def)

end
