(* ===== verification/Neb_Rbtree.thy ===== *)
theory Neb_Rbtree
  imports Neb_Prelude
begin

text \<open>
  The interface through which components use the red-black tree of
  \<^verbatim>\<open>src/compat/rbtree\<close>: a sequence of nodes in the order of a comparison function of the
  component. Insertion finds the node with an equal key or puts the new one at its place, and the successor is
  the next node of the sequence.
\<close>

fun seq_insert :: "('k \<Rightarrow> 'k \<Rightarrow> int) \<Rightarrow> ('n \<Rightarrow> 'k) \<Rightarrow> 'n \<Rightarrow> 'n list \<Rightarrow> 'n \<times> 'n list" where
  "seq_insert cmp key n [] = (n, [n])"
| "seq_insert cmp key n (x # xs) =
     (if cmp (key x) (key n) = 0 then (x, x # xs)
      else if cmp (key x) (key n) < 0 then (case seq_insert cmp key n xs of (r, ys) \<Rightarrow> (r, x # ys))
      else (n, n # x # xs))"

fun seq_next :: "'n \<Rightarrow> 'n list \<Rightarrow> 'n option" where
  "seq_next n [] = None"
| "seq_next n (x # xs) = (if x = n then (case xs of [] \<Rightarrow> None | y # ys \<Rightarrow> Some y) else seq_next n xs)"

definition seq_find :: "('d \<Rightarrow> 'k \<Rightarrow> int) \<Rightarrow> ('n \<Rightarrow> 'd) \<Rightarrow> 'k \<Rightarrow> 'n list \<Rightarrow> 'n option" where
  "seq_find cmp_key node k ns = find (\<lambda>n. cmp_key (node n) k = 0) ns"

text \<open>What the tree asks of a comparison function.\<close>

locale rb_order =
  fixes cmp :: "'k \<Rightarrow> 'k \<Rightarrow> int"
  assumes cmp_swap: "cmp x y < 0 \<longleftrightarrow> 0 < cmp y x"
    and cmp_trans: "cmp x y < 0 \<Longrightarrow> cmp y z < 0 \<Longrightarrow> cmp x z < 0"
begin

definition ordered_by :: "('n \<Rightarrow> 'k) \<Rightarrow> 'n list \<Rightarrow> bool" where
  "ordered_by key ns \<longleftrightarrow> sorted_wrt (\<lambda>a b. cmp (key a) (key b) < 0) ns"

lemma ordered_by_Cons: "ordered_by key (x # xs) \<longleftrightarrow> (\<forall>y \<in> set xs. cmp (key x) (key y) < 0) \<and> ordered_by key xs"
  by (simp add: ordered_by_def)

lemma cmp_neq: "cmp x y < 0 \<Longrightarrow> cmp y x \<noteq> 0"
  using cmp_swap by fastforce

lemma cmp_irrefl: "\<not> cmp x x < 0"
  using cmp_swap [of x x] by linarith

lemma insert_spec:
  assumes "ordered_by key ns" "n \<notin> set ns" "seq_insert cmp key n ns = (r, ns')"
  shows "if (\<exists>x \<in> set ns. cmp (key x) (key n) = 0) then r \<in> set ns \<and> cmp (key r) (key n) = 0 \<and> ns' = ns
    else r = n \<and> set ns' = insert n (set ns) \<and> ordered_by key ns'"
  using assms
proof (induction ns arbitrary: ns')
  case Nil
  then show ?case by (auto simp: ordered_by_def)
next
  case (Cons x xs)
  consider "cmp (key x) (key n) = 0" | "cmp (key x) (key n) < 0" | "0 < cmp (key x) (key n)" by linarith
  then show ?case
  proof cases
    case 1
    then show ?thesis using Cons.prems(3) by auto
  next
    case 2
    obtain ys where ys: "seq_insert cmp key n xs = (r, ys)" "ns' = x # ys"
      using Cons.prems(3) 2 by (auto split: prod.splits)
    have "if (\<exists>x \<in> set xs. cmp (key x) (key n) = 0) then r \<in> set xs \<and> cmp (key r) (key n) = 0 \<and> ys = xs
        else r = n \<and> set ys = insert n (set xs) \<and> ordered_by key ys"
      by (rule Cons.IH [OF _ _ ys(1)]) (use Cons.prems in \<open>auto simp: ordered_by_Cons\<close>)
    then show ?thesis using Cons.prems(1) 2 ys(2) by (auto simp: ordered_by_Cons split: if_splits)
  next
    case 3
    then have nx: "cmp (key n) (key x) < 0" using cmp_swap by blast
    have lt: "\<forall>y \<in> set (x # xs). cmp (key n) (key y) < 0"
      using nx Cons.prems(1) cmp_trans by (auto simp: ordered_by_Cons)
    then have "\<not> (\<exists>y \<in> set (x # xs). cmp (key y) (key n) = 0)" using cmp_neq by blast
    moreover have "r = n" "ns' = n # x # xs" using Cons.prems(3) 3 by auto
    ultimately show ?thesis using lt Cons.prems(1) by (auto simp: ordered_by_Cons)
  qed
qed

lemma ordered_by_distinct: "ordered_by key ns \<Longrightarrow> distinct ns"
proof (induction ns)
  case (Cons n ns)
  then show ?case using cmp_irrefl by (auto simp: ordered_by_Cons)
qed simp

lemma ordered_by_remove1: "ordered_by key ns \<Longrightarrow> ordered_by key (remove1 n ns)"
proof (induction ns)
  case (Cons a ns)
  then show ?case using set_remove1_subset [of n ns] by (auto simp: ordered_by_Cons)
qed simp

lemma ordered_by_cong: "(\<And>x. x \<in> set ns \<Longrightarrow> key x = key' x) \<Longrightarrow> ordered_by key ns = ordered_by key' ns"
  by (induction ns) (auto simp: ordered_by_Cons ordered_by_def)

text \<open>Nodes with different places in the order have different keys.\<close>

lemma ordered_by_inj: "ordered_by key ns \<Longrightarrow> x \<in> set ns \<Longrightarrow> y \<in> set ns \<Longrightarrow> cmp (key x) (key y) = 0 \<Longrightarrow> x = y"
proof (induction ns)
  case (Cons a ns)
  then show ?case using cmp_neq by (fastforce simp: ordered_by_Cons)
qed simp

end

text \<open>Search by halves also needs that equal keys are on the same side of every other key.\<close>

locale rb_total_order = rb_order +
  assumes cmp_zero: "cmp x y = 0 \<Longrightarrow> cmp z x < 0 \<longleftrightarrow> cmp z y < 0"
begin

lemma cmp_zero_left: "cmp x y = 0 \<Longrightarrow> cmp y x = 0"
  using cmp_swap [of x y] cmp_swap [of y x] by linarith

lemma cmp_along: "cmp a b < 0 \<Longrightarrow> (cmp b x \<le> 0 \<longrightarrow> cmp a x < 0) \<and> (0 \<le> cmp a x \<longrightarrow> 0 < cmp b x)"
proof -
  assume ab: "cmp a b < 0"
  have "cmp b x \<le> 0 \<Longrightarrow> cmp a x < 0"
    using cmp_trans [OF ab, of x] cmp_zero [of b x a] ab by (cases "cmp b x = 0") auto
  then show ?thesis using cmp_trans [OF ab, of x] by linarith
qed

end

end
