(* ===== verification/Neb_Timer.thy ===== *)
theory Neb_Timer
  imports Neb_Rbtree Neb_Time
begin

text \<open>
  Model of \<^verbatim>\<open>src/src/evdp/timer.c\<close>: the timer of an event queue, a tree of points in
  time with a list of callbacks for each. The red-black tree is used through its interface, an
  ordered sequence of nodes; the intrusive callback lists are lists of addresses, and every list node knows
  the list it is linked in, as its back pointer does in the source. Nodes come from two caches or from the
  allocator, whose answer is an argument. User callbacks are an argument too: they map a handler and its
  data to a computation on the timer.
\<close>

section \<open>State\<close>

datatype list_id = InKeep | InNode nat

record evdp_timer_cblist_node =
  ln_list :: "list_id option"
  on_timeout :: nat
  ln_udata :: nat
  ln_running :: bool
  ref_tnode :: "nat option"

record evdp_timer_rbtree_node =
  tn_ts :: timespec
  cblist :: "nat list"
  no_auto_del :: bool

record neb_evdp_timer =
  rbtree :: "nat list"
  tcache_nodes :: "nat list"
  tcache_size :: int
  lcache_nodes :: "nat list"
  lcache_size :: int
  keeplist :: "nat list"
  tns :: "nat \<Rightarrow> evdp_timer_rbtree_node option"
  lns :: "nat \<Rightarrow> evdp_timer_cblist_node option"

datatype timeout_ret = TIMEOUT_FREE | TIMEOUT_KEEP

type_synonym 'a tcomp = "('a, neb_evdp_timer) comp"

definition get_tn :: "nat \<Rightarrow> evdp_timer_rbtree_node tcomp" where
  "get_tn n t = (case tns t n of None \<Rightarrow> Inl UseAfterFree | Some x \<Rightarrow> Inr (x, t))"
definition upd_tn :: "nat \<Rightarrow> (evdp_timer_rbtree_node \<Rightarrow> evdp_timer_rbtree_node) \<Rightarrow> unit tcomp" where
  "upd_tn n f t = (case tns t n of None \<Rightarrow> Inl UseAfterFree | Some x \<Rightarrow> Inr ((), t\<lparr>tns := (tns t)(n \<mapsto> f x)\<rparr>))"
definition get_ln :: "nat \<Rightarrow> evdp_timer_cblist_node tcomp" where
  "get_ln n t = (case lns t n of None \<Rightarrow> Inl UseAfterFree | Some x \<Rightarrow> Inr (x, t))"
definition upd_ln :: "nat \<Rightarrow> (evdp_timer_cblist_node \<Rightarrow> evdp_timer_cblist_node) \<Rightarrow> unit tcomp" where
  "upd_ln n f t = (case lns t n of None \<Rightarrow> Inl UseAfterFree | Some x \<Rightarrow> Inr ((), t\<lparr>lns := (lns t)(n \<mapsto> f x)\<rparr>))"
definition get_timer :: "neb_evdp_timer tcomp" where "get_timer t = Inr (t, t)"
definition upd_timer :: "(neb_evdp_timer \<Rightarrow> neb_evdp_timer) \<Rightarrow> unit tcomp" where "upd_timer f t = Inr ((), f t)"

section \<open>Nodes\<close>

definition evdp_timer_cblist_node_new :: "nat option \<Rightarrow> nat \<Rightarrow> nat \<Rightarrow> nat option tcomp" where
  "evdp_timer_cblist_node_new a cb udata =
     (let x = \<lparr>ln_list = None, on_timeout = cb, ln_udata = udata, ln_running = False, ref_tnode = None\<rparr> in
      ebind get_timer (\<lambda>t. case lcache_nodes t of
        n # ns \<Rightarrow> eseq (upd_timer (\<lambda>t. t\<lparr>lcache_nodes := ns\<rparr>)) (eseq (upd_ln n (\<lambda>_. x)) (eret (Some n)))
      | [] \<Rightarrow> (case a of None \<Rightarrow> eret None
             | Some n \<Rightarrow> eseq (upd_timer (\<lambda>t. t\<lparr>lns := (lns t)(n \<mapsto> x)\<rparr>)) (eret (Some n)))))"

text \<open>\<open>cached\<close> tells whether the timer was passed, so that the node may go to its cache.\<close>

definition evdp_timer_cblist_node_free :: "bool \<Rightarrow> nat \<Rightarrow> unit tcomp" where
  "evdp_timer_cblist_node_free cached n =
     eseq (ebind (get_ln n) (\<lambda>_. eret ()))
    (ebind get_timer (\<lambda>t.
       if cached \<and> int (length (lcache_nodes t)) < lcache_size t
       then upd_timer (\<lambda>t. t\<lparr>lcache_nodes := n # lcache_nodes t\<rparr>)
       else upd_timer (\<lambda>t. t\<lparr>lns := (lns t)(n := None)\<rparr>)))"

definition evdp_timer_rbtree_node_new :: "nat option \<Rightarrow> timespec \<Rightarrow> nat option tcomp" where
  "evdp_timer_rbtree_node_new a abs_ts =
     (let x = \<lparr>tn_ts = abs_ts, cblist = [], no_auto_del = False\<rparr> in
      ebind get_timer (\<lambda>t. case tcache_nodes t of
        n # ns \<Rightarrow> eseq (upd_timer (\<lambda>t. t\<lparr>tcache_nodes := ns\<rparr>)) (eseq (upd_tn n (\<lambda>_. x)) (eret (Some n)))
      | [] \<Rightarrow> (case a of None \<Rightarrow> eret None
             | Some n \<Rightarrow> eseq (upd_timer (\<lambda>t. t\<lparr>tns := (tns t)(n \<mapsto> x)\<rparr>)) (eret (Some n)))))"

fun free_nodes :: "bool \<Rightarrow> nat list \<Rightarrow> unit tcomp" where
  "free_nodes cached [] = eret ()"
| "free_nodes cached (n # ns) = eseq (evdp_timer_cblist_node_free cached n) (free_nodes cached ns)"

definition evdp_timer_rbtree_node_del :: "bool \<Rightarrow> nat \<Rightarrow> unit tcomp" where
  "evdp_timer_rbtree_node_del cached n =
     ebind (get_tn n) (\<lambda>x.
     eseq (free_nodes cached (cblist x))
    (eseq (upd_tn n (\<lambda>x. x\<lparr>cblist := []\<rparr>))
    (ebind get_timer (\<lambda>t.
       if cached \<and> int (length (tcache_nodes t)) < tcache_size t
       then upd_timer (\<lambda>t. t\<lparr>tcache_nodes := n # tcache_nodes t\<rparr>)
       else upd_timer (\<lambda>t. t\<lparr>tns := (tns t)(n := None)\<rparr>)))))"

section \<open>The tree\<close>

definition CMP :: "int \<Rightarrow> int \<Rightarrow> int" where
  "CMP v1 v2 = (if v1 < v2 then -1 else if v1 = v2 then 0 else 1)"

definition evdp_timer_rbtree_cmp_key :: "timespec \<Rightarrow> timespec \<Rightarrow> int" where
  "evdp_timer_rbtree_cmp_key e ts =
     (if tv_sec e = tv_sec ts then CMP (tv_nsec e) (tv_nsec ts) else CMP (tv_sec e) (tv_sec ts))"

definition evdp_timer_rbtree_cmp_node :: "evdp_timer_rbtree_node \<Rightarrow> evdp_timer_rbtree_node \<Rightarrow> int" where
  "evdp_timer_rbtree_cmp_node e p =
     (if tv_sec (tn_ts e) = tv_sec (tn_ts p) then CMP (tv_nsec (tn_ts e)) (tv_nsec (tn_ts p))
      else CMP (tv_sec (tn_ts e)) (tv_sec (tn_ts p)))"

definition tree_alive :: "neb_evdp_timer \<Rightarrow> bool" where
  "tree_alive t = list_all (\<lambda>n. tns t n \<noteq> None) (rbtree t)"

definition timer_insert_node :: "nat \<Rightarrow> nat tcomp" where
  "timer_insert_node n =
     ebind (get_tn n) (\<lambda>_. ebind get_timer (\<lambda>t.
       if \<not> tree_alive t then efail UseAfterFree
       else case seq_insert evdp_timer_rbtree_cmp_node (\<lambda>a. the (tns t a)) n (rbtree t) of
              (r, ns) \<Rightarrow> eseq (upd_timer (\<lambda>t. t\<lparr>rbtree := ns\<rparr>)) (eret r)))"

definition timer_remove_node :: "nat \<Rightarrow> unit tcomp" where
  "timer_remove_node n =
     ebind get_timer (\<lambda>t.
       if \<not> tree_alive t then efail UseAfterFree
       else if n \<notin> set (rbtree t) then efail NotLinked
       else upd_timer (\<lambda>t. t\<lparr>rbtree := remove1 n (rbtree t)\<rparr>))"

definition RB_TREE_MIN :: "neb_evdp_timer \<Rightarrow> nat option" where
  "RB_TREE_MIN t = (case rbtree t of [] \<Rightarrow> None | n # ns \<Rightarrow> Some n)"

section \<open>Callback lists\<close>

definition LIST_REMOVE :: "nat \<Rightarrow> unit tcomp" where
  "LIST_REMOVE n =
     ebind (get_ln n) (\<lambda>x. case ln_list x of
       None \<Rightarrow> efail NotLinked
     | Some InKeep \<Rightarrow> eseq (upd_timer (\<lambda>t. t\<lparr>keeplist := remove1 n (keeplist t)\<rparr>)) (upd_ln n (\<lambda>x. x\<lparr>ln_list := None\<rparr>))
     | Some (InNode tn) \<Rightarrow> eseq (upd_tn tn (\<lambda>y. y\<lparr>cblist := remove1 n (cblist y)\<rparr>)) (upd_ln n (\<lambda>x. x\<lparr>ln_list := None\<rparr>)))"

definition LIST_INSERT_HEAD_cblist :: "nat \<Rightarrow> nat \<Rightarrow> unit tcomp" where
  "LIST_INSERT_HEAD_cblist tn n =
     eseq (upd_tn tn (\<lambda>y. y\<lparr>cblist := n # cblist y\<rparr>)) (upd_ln n (\<lambda>x. x\<lparr>ln_list := Some (InNode tn)\<rparr>))"

definition LIST_INSERT_HEAD_keeplist :: "nat \<Rightarrow> unit tcomp" where
  "LIST_INSERT_HEAD_keeplist n =
     eseq (upd_timer (\<lambda>t. t\<lparr>keeplist := n # keeplist t\<rparr>)) (upd_ln n (\<lambda>x. x\<lparr>ln_list := Some InKeep\<rparr>))"

section \<open>Operations\<close>

definition evdp_timer_rbtree_node_check_del :: "nat \<Rightarrow> unit tcomp" where
  "evdp_timer_rbtree_node_check_del n =
     ebind (get_tn n) (\<lambda>x.
       if no_auto_del x then eret ()
       else ewhen (cblist x = []) (eseq (timer_remove_node n) (evdp_timer_rbtree_node_del True n)))"

text \<open>\<open>dt_ok\<close>, \<open>tc_ok\<close> and \<open>lc_ok\<close> are the answers of the allocator for
  the timer and its two caches.\<close>

definition neb_evdp_timer_create :: "bool \<Rightarrow> bool \<Rightarrow> bool \<Rightarrow> int \<Rightarrow> int \<Rightarrow> neb_evdp_timer option" where
  "neb_evdp_timer_create dt_ok tc_ok lc_ok tsize lsize =
     (if dt_ok \<and> tc_ok \<and> lc_ok
      then Some \<lparr>rbtree = [], tcache_nodes = [], tcache_size = tsize, lcache_nodes = [], lcache_size = lsize,
                 keeplist = [], tns = Map.empty, lns = Map.empty\<rparr>
      else None)"

fun destroy_tree :: "nat list \<Rightarrow> unit tcomp" where
  "destroy_tree [] = eret ()"
| "destroy_tree (n # ns) =
     eseq (timer_remove_node n) (eseq (evdp_timer_rbtree_node_del False n) (destroy_tree ns))"

definition neb_evdp_timer_destroy :: "unit tcomp" where
  "neb_evdp_timer_destroy =
     ebind get_timer (\<lambda>t.
     eseq (destroy_tree (rbtree t))
    (eseq (free_nodes True (keeplist t))
          (upd_timer (\<lambda>t. t\<lparr>lns := foldl (\<lambda>h n. h(n := None)) (lns t) (lcache_nodes t),
                            tns := foldl (\<lambda>h n. h(n := None)) (tns t) (tcache_nodes t),
                            lcache_nodes := [], tcache_nodes := []\<rparr>))))"

definition neb_evdp_timer_new_point :: "nat option \<Rightarrow> nat option \<Rightarrow> timespec \<Rightarrow> nat \<Rightarrow> nat \<Rightarrow> nat option tcomp" where
  "neb_evdp_timer_new_point a1 a2 abs_ts cb udata =
     ebind (evdp_timer_rbtree_node_new a1 abs_ts) (\<lambda>r. case r of
       None \<Rightarrow> eret None
     | Some tn0 \<Rightarrow>
         ebind (timer_insert_node tn0) (\<lambda>tn.
         eseq (ewhen (tn \<noteq> tn0) (evdp_timer_rbtree_node_del True tn0))
        (ebind (evdp_timer_cblist_node_new a2 cb udata) (\<lambda>r. case r of
           None \<Rightarrow> eret None
         | Some ln \<Rightarrow>
             eseq (upd_ln ln (\<lambda>x. x\<lparr>ref_tnode := Some tn\<rparr>))
            (eseq (LIST_INSERT_HEAD_cblist tn ln) (eret (Some ln)))))))"

definition neb_evdp_timer_del_point :: "nat \<Rightarrow> unit tcomp" where
  "neb_evdp_timer_del_point ln =
     ebind (get_ln ln) (\<lambda>x.
       if ln_running x then upd_ln ln (\<lambda>x. x\<lparr>ref_tnode := None\<rparr>)
       else eseq (LIST_REMOVE ln)
           (eseq (evdp_timer_cblist_node_free True ln)
                 (case ref_tnode x of None \<Rightarrow> eret () | Some tn \<Rightarrow> evdp_timer_rbtree_node_check_del tn)))"

definition neb_evdp_timer_point_reset :: "nat option \<Rightarrow> nat \<Rightarrow> timespec \<Rightarrow> int tcomp" where
  "neb_evdp_timer_point_reset a ln abs_ts =
     ebind (evdp_timer_rbtree_node_new a abs_ts) (\<lambda>r. case r of
       None \<Rightarrow> eret (-1)
     | Some tn0 \<Rightarrow>
         ebind (timer_insert_node tn0) (\<lambda>tn.
         eseq (ewhen (tn \<noteq> tn0) (evdp_timer_rbtree_node_del True tn0))
        (ebind (get_ln ln) (\<lambda>x.
           if tn \<noteq> tn0 \<and> ref_tnode x = Some tn then eret 0
           else if ln_running x then eseq (upd_ln ln (\<lambda>x. x\<lparr>ref_tnode := Some tn\<rparr>)) (eret 0)
           else eseq (LIST_REMOVE ln)
               (eseq (case ref_tnode x of None \<Rightarrow> eret () | Some old_tn \<Rightarrow> evdp_timer_rbtree_node_check_del old_tn)
               (eseq (upd_ln ln (\<lambda>x. x\<lparr>ref_tnode := Some tn\<rparr>))
               (eseq (LIST_INSERT_HEAD_cblist tn ln) (eret 0))))))))"

definition evdp_timer_fetch_neareast_ts :: "timespec \<Rightarrow> timespec option tcomp" where
  "evdp_timer_fetch_neareast_ts cur_ts =
     ebind get_timer (\<lambda>t. case RB_TREE_MIN t of
       None \<Rightarrow> eret None
     | Some n \<Rightarrow> ebind (get_tn n) (\<lambda>x.
         eret (Some (if \<not> neb_timespeccmp (tn_ts x) cur_ts (>) then neb_timespecclear cur_ts
                     else neb_timespecsub (tn_ts x) cur_ts))))"

text \<open>What happens to a point after its callback.\<close>

definition settle_point :: "nat \<Rightarrow> nat \<Rightarrow> timeout_ret \<Rightarrow> unit tcomp" where
  "settle_point tn ln tret =
     ebind (get_ln ln) (\<lambda>x. case ref_tnode x of
       None \<Rightarrow> evdp_timer_cblist_node_free True ln
     | Some rt \<Rightarrow> (case tret of
         TIMEOUT_FREE \<Rightarrow> eseq (upd_ln ln (\<lambda>x. x\<lparr>ref_tnode := None\<rparr>)) (evdp_timer_cblist_node_free True ln)
       | TIMEOUT_KEEP \<Rightarrow>
           if rt = tn then eseq (upd_ln ln (\<lambda>x. x\<lparr>ref_tnode := None\<rparr>)) (LIST_INSERT_HEAD_keeplist ln)
           else LIST_INSERT_HEAD_cblist rt ln))"

type_synonym timeout_handlers = "nat \<Rightarrow> nat \<Rightarrow> timeout_ret tcomp"

definition run_point :: "timeout_handlers \<Rightarrow> nat \<Rightarrow> nat \<Rightarrow> unit tcomp" where
  "run_point call tn ln =
     eseq (LIST_REMOVE ln)
    (eseq (upd_ln ln (\<lambda>x. x\<lparr>ln_running := True\<rparr>))
    (ebind (get_ln ln) (\<lambda>x.
     ebind (call (on_timeout x) (ln_udata x)) (\<lambda>tret.
     eseq (upd_ln ln (\<lambda>x. x\<lparr>ln_running := False\<rparr>))
          (settle_point tn ln tret)))))"

fun run_points :: "timeout_handlers \<Rightarrow> nat \<Rightarrow> nat \<Rightarrow> int \<Rightarrow> int tcomp" where
  "run_points call tn 0 cnt = efail NoEnd"
| "run_points call tn (Suc fuel) cnt =
     ebind (get_tn tn) (\<lambda>y. case cblist y of
       [] \<Rightarrow> eret cnt
     | ln # lns' \<Rightarrow> eseq (run_point call tn ln) (run_points call tn fuel (cnt + 1)))"

fun run_nodes :: "timeout_handlers \<Rightarrow> nat \<Rightarrow> timespec \<Rightarrow> nat option \<Rightarrow> nat \<Rightarrow> int \<Rightarrow> int tcomp" where
  "run_nodes call fuel abs_ts p 0 cnt = efail NoEnd"
| "run_nodes call fuel abs_ts p (Suc n) cnt =
     (case p of
        None \<Rightarrow> eret cnt
      | Some tn \<Rightarrow>
          ebind (get_tn tn) (\<lambda>y.
            if neb_timespeccmp (tn_ts y) abs_ts (>) then eret cnt
            else eseq (upd_tn tn (\<lambda>y. y\<lparr>no_auto_del := True\<rparr>))
                (ebind (run_points call tn fuel cnt) (\<lambda>cnt.
                 eseq (upd_tn tn (\<lambda>y. y\<lparr>no_auto_del := False\<rparr>))
                (ebind get_timer (\<lambda>t.
                   let nxt = seq_next tn (rbtree t) in
                   eseq (timer_remove_node tn)
                  (eseq (evdp_timer_rbtree_node_del True tn)
                        (run_nodes call fuel abs_ts nxt n cnt))))))))"

definition evdp_timer_run_until :: "timeout_handlers \<Rightarrow> nat \<Rightarrow> timespec \<Rightarrow> int tcomp" where
  "evdp_timer_run_until call fuel abs_ts =
     ebind get_timer (\<lambda>t. run_nodes call fuel abs_ts (RB_TREE_MIN t) fuel 0)"

section \<open>Evaluation\<close>

lemma get_tn_Some [evm_simps]: "tns t n = Some x \<Longrightarrow> get_tn n t = Inr (x, t)" by (simp add: get_tn_def)
lemma upd_tn_Some [evm_simps]: "tns t n = Some x \<Longrightarrow> upd_tn n f t = Inr ((), t\<lparr>tns := (tns t)(n \<mapsto> f x)\<rparr>)" by (simp add: upd_tn_def)
lemma get_ln_Some [evm_simps]: "lns t n = Some x \<Longrightarrow> get_ln n t = Inr (x, t)" by (simp add: get_ln_def)
lemma upd_ln_Some [evm_simps]: "lns t n = Some x \<Longrightarrow> upd_ln n f t = Inr ((), t\<lparr>lns := (lns t)(n \<mapsto> f x)\<rparr>)" by (simp add: upd_ln_def)
lemma get_timer_app [evm_simps]: "get_timer t = Inr (t, t)" by (simp add: get_timer_def)
lemma upd_timer_app [evm_simps]: "upd_timer f t = Inr ((), f t)" by (simp add: upd_timer_def)

section \<open>Order of points in time\<close>

definition ts_less :: "timespec \<Rightarrow> timespec \<Rightarrow> bool" where
  "ts_less a b \<longleftrightarrow> tv_sec a < tv_sec b \<or> tv_sec a = tv_sec b \<and> tv_nsec a < tv_nsec b"

lemma cmp_node_less: "evdp_timer_rbtree_cmp_node x y < 0 \<longleftrightarrow> ts_less (tn_ts x) (tn_ts y)"
  and cmp_node_eq: "evdp_timer_rbtree_cmp_node x y = 0 \<longleftrightarrow> tn_ts x = tn_ts y"
  by (auto simp: evdp_timer_rbtree_cmp_node_def CMP_def ts_less_def intro: timespec.equality)

lemma timespeccmp_less: "neb_timespeccmp a b (>) \<longleftrightarrow> ts_less b a"
  by (auto simp: neb_timespeccmp_def ts_less_def)

lemma ts_less_trans: "ts_less a b \<Longrightarrow> ts_less b c \<Longrightarrow> ts_less a c"
  by (auto simp: ts_less_def)
lemma ts_less_irrefl [simp]: "\<not> ts_less a a"
  by (simp add: ts_less_def)
lemma ts_less_asym: "ts_less a b \<Longrightarrow> \<not> ts_less b a"
  by (auto simp: ts_less_def)
lemma ts_less_total: "ts_less a b \<or> a = b \<or> ts_less b a"
  by (auto simp: ts_less_def intro: timespec.equality)

text \<open>The tree of the timer is ordered by time.\<close>

interpretation timer_order: rb_total_order evdp_timer_rbtree_cmp_node
proof
  fix x y z
  show "evdp_timer_rbtree_cmp_node x y < 0 \<longleftrightarrow> 0 < evdp_timer_rbtree_cmp_node y x"
    by (auto simp: evdp_timer_rbtree_cmp_node_def CMP_def)
  show "evdp_timer_rbtree_cmp_node x y < 0 \<Longrightarrow> evdp_timer_rbtree_cmp_node y z < 0 \<Longrightarrow> evdp_timer_rbtree_cmp_node x z < 0"
    using ts_less_trans by (simp add: cmp_node_less)
  show "evdp_timer_rbtree_cmp_node x y = 0 \<Longrightarrow> evdp_timer_rbtree_cmp_node z x < 0 \<longleftrightarrow> evdp_timer_rbtree_cmp_node z y < 0"
    by (simp add: cmp_node_less cmp_node_eq)
qed

definition ordered :: "('n \<Rightarrow> timespec) \<Rightarrow> 'n list \<Rightarrow> bool" where
  "ordered ts ns \<longleftrightarrow> sorted_wrt (\<lambda>a b. ts_less (ts a) (ts b)) ns"

lemma ordered_by_time: "timer_order.ordered_by key ns = ordered (\<lambda>a. tn_ts (key a)) ns"
  by (simp add: timer_order.ordered_by_def ordered_def cmp_node_less)

lemma ordered_Cons: "ordered ts (x # xs) \<longleftrightarrow> (\<forall>y \<in> set xs. ts_less (ts x) (ts y)) \<and> ordered ts xs"
  by (simp add: ordered_def)

lemma ordered_Nil [simp]: "ordered ts []"
  by (simp add: ordered_def)

lemma ordered_distinct: "ordered ts ns \<Longrightarrow> distinct ns"
  by (induction ns) (auto simp: ordered_Cons)

lemma ordered_remove1: "ordered ts ns \<Longrightarrow> ordered ts (remove1 n ns)"
  using timer_order.ordered_by_remove1 [of "\<lambda>a. \<lparr>tn_ts = ts a, cblist = [], no_auto_del = False\<rparr>"] by (simp add: ordered_by_time)

lemma ordered_cong: "(\<And>x. x \<in> set ns \<Longrightarrow> ts x = ts' x) \<Longrightarrow> ordered ts ns = ordered ts' ns"
  by (induction ns) (auto simp: ordered_Cons)

lemmas seq_insert_spec = timer_order.insert_spec [unfolded ordered_by_time cmp_node_eq]

end
