(* ===== verification/Neb_Timer_Inv.thy ===== *)
theory Neb_Timer_Inv
  imports Neb_Timer
begin

text \<open>
  The invariant of the timer of \<open>Neb_Timer\<close>: the tree holds its live nodes in strict order of
  time, every point is in exactly the list its reference names, and the caches hold the released nodes. The
  lemmas show what each list and node operation keeps of it, and how it changes the schedule, the abstract view of the timer.
\<close>

section \<open>The invariant\<close>

definition ts_of :: "neb_evdp_timer \<Rightarrow> nat \<Rightarrow> timespec" where "ts_of t n = tn_ts (the (tns t n))"
definition cbs :: "neb_evdp_timer \<Rightarrow> nat \<Rightarrow> nat list" where "cbs t n = cblist (the (tns t n))"

text \<open>The tree holds live nodes in strict order, apart from the cached ones; \<open>cur\<close> is the node
  whose callbacks run.\<close>

definition tree_inv :: "nat option \<Rightarrow> neb_evdp_timer \<Rightarrow> bool" where
  "tree_inv cur t \<longleftrightarrow> distinct (tcache_nodes t) \<and> set (rbtree t) \<inter> set (tcache_nodes t) = {} \<and>
     (\<forall>n \<in> set (rbtree t) \<union> set (tcache_nodes t). tns t n \<noteq> None) \<and> ordered (ts_of t) (rbtree t) \<and>
     (\<forall>n \<in> set (rbtree t). no_auto_del (the (tns t n)) = (cur = Some n)) \<and> (\<forall>c. cur = Some c \<longrightarrow> c \<in> set (rbtree t))"

text \<open>Every allocated point that is not cached is in the list its reference tells.\<close>

definition point_ok :: "neb_evdp_timer \<Rightarrow> nat \<Rightarrow> evdp_timer_cblist_node \<Rightarrow> bool" where
  "point_ok t l x \<longleftrightarrow> \<not> ln_running x \<and> (case ref_tnode x of
     None \<Rightarrow> l \<in> set (keeplist t) \<and> ln_list x = Some InKeep
   | Some n \<Rightarrow> n \<in> set (rbtree t) \<and> l \<in> set (cbs t n) \<and> ln_list x = Some (InNode n))"

definition in_list :: "neb_evdp_timer \<Rightarrow> nat option \<Rightarrow> nat \<Rightarrow> bool" where
  "in_list t r l \<longleftrightarrow> l \<notin> set (lcache_nodes t) \<and> (\<exists>x. lns t l = Some x \<and> ref_tnode x = r)"

text \<open>\<open>ex\<close> are the points taken out of their list, such as the one whose callback runs.\<close>

definition point_inv :: "nat set \<Rightarrow> neb_evdp_timer \<Rightarrow> bool" where
  "point_inv ex t \<longleftrightarrow> distinct (keeplist t) \<and> distinct (lcache_nodes t) \<and> (\<forall>l \<in> set (lcache_nodes t). lns t l \<noteq> None) \<and>
     (\<forall>n \<in> set (rbtree t). distinct (cbs t n) \<and> (\<forall>l \<in> set (cbs t n). in_list t (Some n) l \<and> l \<notin> ex)) \<and>
     (\<forall>l \<in> set (keeplist t). in_list t None l \<and> l \<notin> ex) \<and>
     (\<forall>l \<in> ex. lns t l \<noteq> None \<and> l \<notin> set (lcache_nodes t)) \<and>
     (\<forall>l x. lns t l = Some x \<longrightarrow> l \<notin> set (lcache_nodes t) \<longrightarrow> l \<notin> ex \<longrightarrow> point_ok t l x)"

definition tinv :: "nat set \<Rightarrow> nat option \<Rightarrow> neb_evdp_timer \<Rightarrow> bool" where
  "tinv ex cur t \<longleftrightarrow> tree_inv cur t \<and> point_inv ex t"

text \<open>What the allocator may answer.\<close>

definition fresh :: "(nat \<Rightarrow> 'a option) \<Rightarrow> nat option \<Rightarrow> bool" where
  "fresh h a = (case a of None \<Rightarrow> True | Some n \<Rightarrow> h n = None)"

text \<open>The abstract timer: the points in lists and when they are due, \<open>None\<close> for a kept one.\<close>

definition sched :: "nat set \<Rightarrow> neb_evdp_timer \<Rightarrow> nat \<Rightarrow> timespec option option" where
  "sched ex t l = (case lns t l of None \<Rightarrow> None
     | Some x \<Rightarrow> if l \<in> set (lcache_nodes t) \<or> l \<in> ex then None else Some (map_option (ts_of t) (ref_tnode x)))"

lemma tree_alive_inv: "tree_inv cur t \<Longrightarrow> tree_alive t"
  by (auto simp: tree_alive_def tree_inv_def list_all_iff)

lemma tree_live: "tree_inv cur t \<Longrightarrow> n \<in> set (rbtree t) \<Longrightarrow> \<exists>x. tns t n = Some x"
  by (auto simp: tree_inv_def)

lemma ts_of_key: "tn_ts (the (tns t a)) = ts_of t a"
  by (simp add: ts_of_def)

section \<open>Nodes of the tree\<close>

lemma rbtree_node_new_ok:
  assumes inv: "tree_inv cur t" and a: "fresh (tns t) a"
  shows "evdp_timer_rbtree_node_new a ts t = Inr (None, t) \<or>
    (\<exists>n c. evdp_timer_rbtree_node_new a ts t =
        Inr (Some n, t\<lparr>tcache_nodes := c, tns := (tns t)(n \<mapsto> \<lparr>tn_ts = ts, cblist = [], no_auto_del = False\<rparr>)\<rparr>) \<and>
      n \<notin> set (rbtree t) \<and> n \<notin> set c \<and> distinct c \<and> set c \<subseteq> set (tcache_nodes t))"
proof (cases "tcache_nodes t")
  case Nil
  have "a = Some n \<Longrightarrow> n \<notin> set (rbtree t)" for n using a tree_live [OF inv] by (fastforce simp: fresh_def)
  moreover have "t\<lparr>tcache_nodes := []\<rparr> = t" using Nil by simp
  ultimately show ?thesis using Nil
    by (cases a) (auto simp: evdp_timer_rbtree_node_new_def evm_simps Let_def intro!: exI [of _ "[]"])
next
  case (Cons n ns)
  then obtain x where "tns t n = Some x" using inv by (auto simp: tree_inv_def)
  then show ?thesis using Cons inv by (auto simp: evdp_timer_rbtree_node_new_def evm_simps Let_def tree_inv_def)
qed

lemma node_del_empty:
  assumes "tns t n = Some x" "cblist x = []"
  shows "\<exists>c' h. evdp_timer_rbtree_node_del True n t = Inr ((), t\<lparr>tns := h, tcache_nodes := c'\<rparr>) \<and>
    (\<forall>m. m \<noteq> n \<longrightarrow> h m = tns t m) \<and> (c' = tcache_nodes t \<or> c' = n # tcache_nodes t \<and> h n \<noteq> None)"
proof (cases "int (length (tcache_nodes t)) < tcache_size t")
  case True
  then show ?thesis using assms
    by (intro exI [of _ "n # tcache_nodes t"] exI [of _ "(tns t)(n \<mapsto> x\<lparr>cblist := []\<rparr>)"])
      (simp add: evdp_timer_rbtree_node_del_def evm_simps)
next
  case False
  then show ?thesis using assms
    by (intro exI [of _ "tcache_nodes t"] exI [of _ "(tns t)(n := None)"])
      (simp add: evdp_timer_rbtree_node_del_def evm_simps)
qed

text \<open>Changes of the timer that the points do not see.\<close>

lemma point_inv_tree:
  assumes "point_inv ex t" "lns t' = lns t" "keeplist t' = keeplist t" "lcache_nodes t' = lcache_nodes t"
    and "\<And>n l. n \<in> set (rbtree t) \<Longrightarrow> l \<in> set (cbs t n) \<Longrightarrow> n \<in> set (rbtree t') \<and> cbs t' n = cbs t n"
    and "\<And>n. n \<in> set (rbtree t') \<Longrightarrow> n \<notin> set (rbtree t) \<or> cbs t n = [] \<Longrightarrow> cbs t' n = []"
  shows "point_inv ex t'"
proof -
  have il: "in_list t' = in_list t" using assms(2,4) by (simp add: in_list_def fun_eq_iff)
  have "point_ok t' l x" if "point_ok t l x" for l x
    using that assms(3) assms(5) [of "the (ref_tnode x)" l] by (auto simp: point_ok_def split: option.splits)
  moreover have "distinct (cbs t' n) \<and> (\<forall>l \<in> set (cbs t' n). in_list t (Some n) l \<and> l \<notin> ex)" if "n \<in> set (rbtree t')" for n
  proof (cases "n \<in> set (rbtree t) \<and> cbs t n \<noteq> []")
    case True
    then have "cbs t' n = cbs t n" using assms(5) [of n "hd (cbs t n)"] by simp
    then show ?thesis using assms(1) True by (auto simp: point_inv_def)
  next
    case False
    then show ?thesis using assms(6) [OF that] by auto
  qed
  ultimately show ?thesis using assms(1) unfolding point_inv_def il assms(2-4) by auto
qed

lemma sched_tree:
  assumes "point_inv ex t" "lns t' = lns t" "lcache_nodes t' = lcache_nodes t"
    and "\<And>n l. n \<in> set (rbtree t) \<Longrightarrow> l \<in> set (cbs t n) \<Longrightarrow> ts_of t' n = ts_of t n"
  shows "sched ex t' = sched ex t"
proof
  fix l
  show "sched ex t' l = sched ex t l"
  proof (cases "lns t l")
    case (Some x)
    then have "l \<notin> set (lcache_nodes t) \<Longrightarrow> l \<notin> ex \<Longrightarrow> point_ok t l x" using assms(1) by (auto simp: point_inv_def)
    then show ?thesis using Some assms(2,3) assms(4) [of "the (ref_tnode x)" l] by (auto simp: sched_def point_ok_def split: option.splits)
  qed (simp add: sched_def assms(2))
qed

text \<open>The timer \<open>t'\<close> has the node \<open>n\<close> for the time \<open>ts\<close> and is otherwise
  as \<open>t\<close> for its points; \<open>n0\<close> is the node made for the search.\<close>

definition found :: "nat set \<Rightarrow> nat option \<Rightarrow> neb_evdp_timer \<Rightarrow> timespec \<Rightarrow> nat \<Rightarrow> nat \<Rightarrow> neb_evdp_timer \<Rightarrow> bool" where
  "found ex cur t ts n0 n t' \<longleftrightarrow> tinv ex cur t' \<and> sched ex t' = sched ex t \<and> n \<in> set (rbtree t') \<and> ts_of t' n = ts \<and>
     lns t' = lns t \<and> lcache_nodes t' = lcache_nodes t \<and> set (rbtree t) \<subseteq> set (rbtree t') \<and>
     (n = n0 \<longleftrightarrow> n \<notin> set (rbtree t))"

lemma find_node_ok:
  assumes inv: "tinv ex cur t" and a: "fresh (tns t) a"
  shows "evdp_timer_rbtree_node_new a ts t = Inr (None, t) \<or>
    (\<exists>n0 t1 n t2 t3. evdp_timer_rbtree_node_new a ts t = Inr (Some n0, t1) \<and> timer_insert_node n0 t1 = Inr (n, t2) \<and>
      ewhen (n \<noteq> n0) (evdp_timer_rbtree_node_del True n0) t2 = Inr ((), t3) \<and> found ex cur t ts n0 n t3)"
proof -
  have ti: "tree_inv cur t" and pi: "point_inv ex t" using inv by (simp_all add: tinv_def)
  show ?thesis
  proof (cases "evdp_timer_rbtree_node_new a ts t = Inr (None, t)")
    case False
    let ?x = "\<lparr>tn_ts = ts, cblist = [], no_auto_del = False\<rparr>"
    obtain n0 c where n0: "evdp_timer_rbtree_node_new a ts t = Inr (Some n0, t\<lparr>tcache_nodes := c, tns := (tns t)(n0 \<mapsto> ?x)\<rparr>)"
      "n0 \<notin> set (rbtree t)" "n0 \<notin> set c" "distinct c" "set c \<subseteq> set (tcache_nodes t)"
      using rbtree_node_new_ok [OF ti a] False by blast
    define t1 where "t1 = t\<lparr>tcache_nodes := c, tns := (tns t)(n0 \<mapsto> ?x)\<rparr>"
    have ts1: "ts_of t1 n = (if n = n0 then ts else ts_of t n)" "cbs t1 n = (if n = n0 then [] else cbs t n)" for n
      by (simp_all add: ts_of_def cbs_def t1_def)
    have "ordered (ts_of t1) (rbtree t) = ordered (ts_of t) (rbtree t)"
      by (rule ordered_cong) (use n0(2) ts1(1) in auto)
    then have ord1: "ordered (ts_of t1) (rbtree t)" using ti by (simp add: tree_inv_def)
    obtain n ns where ins: "seq_insert evdp_timer_rbtree_cmp_node (\<lambda>a. the (tns t1 a)) n0 (rbtree t) = (n, ns)" by fastforce
    have spec: "if (\<exists>x \<in> set (rbtree t). ts_of t1 x = ts) then n \<in> set (rbtree t) \<and> ts_of t1 n = ts \<and> ns = rbtree t
        else n = n0 \<and> set ns = insert n0 (set (rbtree t)) \<and> ordered (ts_of t1) ns"
      using seq_insert_spec [OF _ n0(2) ins] ord1 ts1(1) [of n0] unfolding ts_of_key by simp
    let ?t2 = "t1\<lparr>rbtree := ns\<rparr>"
    have alive: "tree_alive t1" using ti by (auto simp: tree_alive_def tree_inv_def list_all_iff t1_def)
    have rb: "timer_insert_node n0 t1 = Inr (n, ?t2)"
      using alive ins by (simp add: timer_insert_node_def evm_simps t1_def)
    show ?thesis
    proof (cases "n = n0")
      case True
      then have sp: "set ns = insert n0 (set (rbtree t))" "ordered (ts_of t1) ns"
        using spec n0(2) by (auto split: if_splits)
      have "ts_of ?t2 = ts_of t1" by (simp add: ts_of_def fun_eq_iff)
      then have o2: "ordered (ts_of ?t2) ns" using sp(2) by simp
      have "tree_inv cur ?t2"
        using ti n0 sp(1) o2 unfolding tree_inv_def by (auto simp: t1_def)
      moreover have "point_inv ex ?t2"
        by (rule point_inv_tree [OF pi]) (use n0(2) sp(1) ts1(2) in \<open>auto simp: t1_def cbs_def\<close>)
      moreover have "sched ex ?t2 = sched ex t"
        by (rule sched_tree [OF pi]) (use n0(2) ts1(1) in \<open>auto simp: t1_def ts_of_def\<close>)
      moreover have "ts_of ?t2 n = ts" using ts1(1) [of n] True by (simp add: ts_of_def)
      ultimately have "found ex cur t ts n0 n ?t2" using n0(2) True sp(1) by (simp add: found_def tinv_def) (auto simp: t1_def)
      moreover have "ewhen (n \<noteq> n0) (evdp_timer_rbtree_node_del True n0) ?t2 = Inr ((), ?t2)" using True by (simp add: evm_simps)
      ultimately show ?thesis using n0(1) rb unfolding t1_def [symmetric] by blast
    next
      case False
      then have sp: "n \<in> set (rbtree t)" "ts_of t1 n = ts" "ns = rbtree t" using spec by (auto split: if_splits)
      have "tns ?t2 n0 = Some ?x" "cblist ?x = []" by (simp_all add: t1_def)
      from node_del_empty [OF this]
      obtain c' h where del: "evdp_timer_rbtree_node_del True n0 ?t2 = Inr ((), ?t2\<lparr>tns := h, tcache_nodes := c'\<rparr>)"
        "\<And>m. m \<noteq> n0 \<Longrightarrow> h m = tns t1 m" "c' = c \<or> c' = n0 # c \<and> h n0 \<noteq> None" by (auto simp: t1_def)
      define t3 where "t3 = ?t2\<lparr>tns := h, tcache_nodes := c'\<rparr>"
      have h: "m \<noteq> n0 \<Longrightarrow> h m = tns t m" for m using del(2) by (simp add: t1_def)
      have ne: "m \<in> set (rbtree t) \<Longrightarrow> m \<noteq> n0" for m using n0(2) by auto
      have ts3: "m \<in> set (rbtree t) \<Longrightarrow> ts_of t3 m = ts_of t m \<and> cbs t3 m = cbs t m" for m
        using h ne by (simp add: ts_of_def cbs_def t3_def)
      have "tree_inv cur t3"
      proof -
        have "ordered (ts_of t3) (rbtree t)" using ti ts3 ordered_cong [of "rbtree t" "ts_of t3" "ts_of t"] by (auto simp: tree_inv_def)
        moreover have "tns t3 m \<noteq> None" if "m \<in> set (rbtree t) \<union> set c'" for m
          using that del(3) h ti n0(3,5) ne by (cases "m = n0") (auto simp: tree_inv_def t3_def)
        ultimately show ?thesis using ti n0 sp(3) del(3) h ne unfolding tree_inv_def by (auto simp: t3_def t1_def)
      qed
      moreover have "point_inv ex t3"
        by (rule point_inv_tree [OF pi]) (use ts3 sp(3) in \<open>auto simp: t3_def t1_def\<close>)
      moreover have "sched ex t3 = sched ex t"
        by (rule sched_tree [OF pi]) (use ts3 in \<open>auto simp: t3_def t1_def\<close>)
      moreover have "ts_of t3 n = ts" using ts3 [OF sp(1)] sp(2) ts1(1) [of n] False by simp
      ultimately have "found ex cur t ts n0 n t3" using n0(2) False sp by (simp add: found_def tinv_def) (auto simp: t1_def t3_def)
      moreover have "ewhen (n \<noteq> n0) (evdp_timer_rbtree_node_del True n0) ?t2 = Inr ((), t3)" using False del(1) by (simp add: evm_simps t3_def)
      ultimately show ?thesis using n0(1) rb unfolding t1_def [symmetric] by blast
    qed
  qed simp
qed

section \<open>Points\<close>

lemma tinvD:
  assumes "tinv ex cur t"
  shows "tree_inv cur t" "point_inv ex t"
  using assms by (simp_all add: tinv_def)

lemma view_upd [simp]:
  "cbs (t\<lparr>lns := h\<rparr>) = cbs t" "cbs (t\<lparr>keeplist := k\<rparr>) = cbs t" "cbs (t\<lparr>lcache_nodes := c\<rparr>) = cbs t"
  "cbs (t\<lparr>rbtree := r\<rparr>) = cbs t" "cbs (t\<lparr>tcache_nodes := c\<rparr>) = cbs t"
  "ts_of (t\<lparr>lns := h\<rparr>) = ts_of t" "ts_of (t\<lparr>keeplist := k\<rparr>) = ts_of t" "ts_of (t\<lparr>lcache_nodes := c\<rparr>) = ts_of t"
  "ts_of (t\<lparr>rbtree := r\<rparr>) = ts_of t" "ts_of (t\<lparr>tcache_nodes := c\<rparr>) = ts_of t"
  by (auto simp: cbs_def ts_of_def fun_eq_iff)

lemma in_list_ref: "in_list t r l \<Longrightarrow> lns t l = Some x \<Longrightarrow> ref_tnode x = r"
  by (auto simp: in_list_def)

lemma point_invI:
  assumes "distinct (keeplist t)" "distinct (lcache_nodes t)" "\<And>l. l \<in> set (lcache_nodes t) \<Longrightarrow> lns t l \<noteq> None"
    and "\<And>n. n \<in> set (rbtree t) \<Longrightarrow> distinct (cbs t n)"
    and "\<And>n l. n \<in> set (rbtree t) \<Longrightarrow> l \<in> set (cbs t n) \<Longrightarrow> in_list t (Some n) l \<and> l \<notin> ex"
    and "\<And>l. l \<in> set (keeplist t) \<Longrightarrow> in_list t None l \<and> l \<notin> ex"
    and "\<And>l. l \<in> ex \<Longrightarrow> lns t l \<noteq> None \<and> l \<notin> set (lcache_nodes t)"
    and "\<And>l x. lns t l = Some x \<Longrightarrow> l \<notin> set (lcache_nodes t) \<Longrightarrow> l \<notin> ex \<Longrightarrow> point_ok t l x"
  shows "point_inv ex t"
  using assms by (simp add: point_inv_def)

lemma point_invD:
  assumes "tinv ex cur t"
  shows "distinct (keeplist t)" "distinct (lcache_nodes t)" "l \<in> set (lcache_nodes t) \<Longrightarrow> lns t l \<noteq> None"
    and "n \<in> set (rbtree t) \<Longrightarrow> distinct (cbs t n)"
    and "n \<in> set (rbtree t) \<Longrightarrow> l \<in> set (cbs t n) \<Longrightarrow> in_list t (Some n) l \<and> l \<notin> ex"
    and "l \<in> set (keeplist t) \<Longrightarrow> in_list t None l \<and> l \<notin> ex"
    and "l \<in> ex \<Longrightarrow> lns t l \<noteq> None \<and> l \<notin> set (lcache_nodes t)"
    and "lns t l = Some x \<Longrightarrow> l \<notin> set (lcache_nodes t) \<Longrightarrow> l \<notin> ex \<Longrightarrow> point_ok t l x"
  using assms unfolding tinv_def point_inv_def by blast+

lemma point_ok_view:
  assumes "set (keeplist t') = set (keeplist t)" "set (rbtree t') = set (rbtree t)" "cbs t' = cbs t"
  shows "point_ok t' = point_ok t"
  using assms by (intro ext) (simp add: point_ok_def split: option.split)

text \<open>A point out of all lists is only seen through its own node.\<close>

lemma point_inv_upd_out:
  assumes inv: "tinv ex cur t" and l: "l \<in> ex"
  shows "tinv ex cur (t\<lparr>lns := (lns t)(l \<mapsto> x)\<rparr>) \<and> sched ex (t\<lparr>lns := (lns t)(l \<mapsto> x)\<rparr>) = sched ex t"
proof -
  let ?t = "t\<lparr>lns := (lns t)(l \<mapsto> x)\<rparr>"
  note P = tinvD(2) [OF inv, unfolded point_inv_def]
  have il: "l' \<noteq> l \<Longrightarrow> in_list ?t r l' = in_list t r l'" for l' r by (simp add: in_list_def)
  have po: "point_ok ?t = point_ok t" by (rule point_ok_view) simp_all
  have "tree_inv cur ?t" using tinvD(1) [OF inv] by (simp add: tree_inv_def)
  moreover have "point_inv ex ?t"
  proof (rule point_invI)
    fix n l' assume "n \<in> set (rbtree ?t)" "l' \<in> set (cbs ?t n)"
    then have "in_list t (Some n) l' \<and> l' \<notin> ex" by (intro point_invD(5) [OF inv]) simp_all
    then show "in_list ?t (Some n) l' \<and> l' \<notin> ex" using il l by metis
  next
    fix l' assume "l' \<in> set (keeplist ?t)"
    then have "in_list t None l' \<and> l' \<notin> ex" by (intro point_invD(6) [OF inv]) simp
    then show "in_list ?t None l' \<and> l' \<notin> ex" using il l by metis
  qed (use point_invD [OF inv] l in \<open>auto simp: po split: if_splits\<close>)
  moreover have "sched ex ?t = sched ex t" using l by (auto simp: sched_def fun_eq_iff split: option.split)
  ultimately show ?thesis by (simp add: tinv_def)
qed

lemma upd_ln_out:
  assumes inv: "tinv ex cur t" and l: "l \<in> ex"
  shows "\<exists>x. lns t l = Some x \<and> upd_ln l f t = Inr ((), t\<lparr>lns := (lns t)(l \<mapsto> f x)\<rparr>) \<and>
    tinv ex cur (t\<lparr>lns := (lns t)(l \<mapsto> f x)\<rparr>) \<and> sched ex (t\<lparr>lns := (lns t)(l \<mapsto> f x)\<rparr>) = sched ex t"
proof -
  obtain x where "lns t l = Some x" using tinvD(2) [OF inv] l by (auto simp: point_inv_def)
  then show ?thesis using point_inv_upd_out [OF inv l] by (auto simp: evm_simps)
qed

text \<open>Taking a point out of its list.\<close>

lemma list_remove_ok:
  assumes inv: "tinv {} cur t" and l: "sched {} t l \<noteq> None"
  shows "\<exists>t' x. LIST_REMOVE l t = Inr ((), t') \<and> lns t l = Some x \<and> lns t' l = Some (x\<lparr>ln_list := None\<rparr>) \<and> tinv {l} cur t' \<and>
    sched {l} t' = (sched {} t)(l := None) \<and> rbtree t' = rbtree t \<and> (\<forall>n. ts_of t' n = ts_of t n \<and> (cbs t n = [] \<longrightarrow> cbs t' n = [])) \<and>
    (\<forall>n. ref_tnode x = Some n \<longrightarrow> cbs t' n = remove1 l (cbs t n)) \<and>
    (\<forall>n. ref_tnode x \<noteq> Some n \<longrightarrow> cbs t' n = cbs t n) \<and> \<not> ln_running x \<and> (\<forall>l'. l' \<noteq> l \<longrightarrow> lns t' l' = lns t l')"
proof -
  note P = tinvD(2) [OF inv, unfolded point_inv_def] and T = tinvD(1) [OF inv]
  obtain x where x: "lns t l = Some x" "l \<notin> set (lcache_nodes t)" using l by (auto simp: sched_def split: option.splits if_splits)
  then have ok: "point_ok t l x" using P by auto
  have nrun: "\<not> ln_running x" using ok by (simp add: point_ok_def)
  show ?thesis
  proof (cases "ref_tnode x")
    case None
    then have k: "l \<in> set (keeplist t)" "ln_list x = Some InKeep" using ok by (simp_all add: point_ok_def)
    let ?t = "t\<lparr>keeplist := remove1 l (keeplist t), lns := (lns t)(l \<mapsto> x\<lparr>ln_list := None\<rparr>)\<rparr>"
    have run: "LIST_REMOVE l t = Inr ((), ?t)" using x k by (simp add: LIST_REMOVE_def evm_simps)
    have il: "l' \<noteq> l \<Longrightarrow> in_list ?t r l' = in_list t r l'" for l' r by (simp add: in_list_def)
    have nin: "l \<notin> set (cbs t n)" if "n \<in> set (rbtree t)" for n
      using P that x None in_list_ref [of t "Some n" l x] by auto
    have po: "l' \<noteq> l \<Longrightarrow> point_ok t l' y \<Longrightarrow> point_ok ?t l' y" for l' y
      by (auto simp: point_ok_def in_set_remove1 split: option.splits)
    have "tree_inv cur ?t" using T by (simp add: tree_inv_def)
    moreover have "point_inv {l} ?t"
    proof (rule point_invI)
      fix m l' assume m: "m \<in> set (rbtree ?t)" "l' \<in> set (cbs ?t m)"
      then have "in_list t (Some m) l' \<and> l' \<noteq> l" using point_invD(5) [OF inv] nin by auto
      then show "in_list ?t (Some m) l' \<and> l' \<notin> {l}" using il by simp
    next
      fix l' assume "l' \<in> set (keeplist ?t)"
      then have "in_list t None l' \<and> l' \<noteq> l" using point_invD(1,6) [OF inv] by (simp add: set_remove1_eq)
      then show "in_list ?t None l' \<and> l' \<notin> {l}" using il by simp
    qed (use point_invD [OF inv] x po in \<open>auto split: if_splits\<close>)
    moreover have "sched {l} ?t = (sched {} t)(l := None)"
      by (auto simp: sched_def fun_eq_iff split: option.split)
    ultimately show ?thesis using run x None nrun by (intro exI [of _ ?t] exI [of _ x]) (simp add: tinv_def ts_of_def cbs_def)
  next
    case (Some n)
    then have k: "n \<in> set (rbtree t)" "l \<in> set (cbs t n)" "ln_list x = Some (InNode n)" using ok by (simp_all add: point_ok_def)
    obtain y where y: "tns t n = Some y" using tree_live [OF T k(1)] by blast
    let ?t = "t\<lparr>tns := (tns t)(n \<mapsto> y\<lparr>cblist := remove1 l (cblist y)\<rparr>), lns := (lns t)(l \<mapsto> x\<lparr>ln_list := None\<rparr>)\<rparr>"
    have run: "LIST_REMOVE l t = Inr ((), ?t)" using x k y by (simp add: LIST_REMOVE_def evm_simps)
    have cb: "cbs ?t m = (if m = n then remove1 l (cbs t n) else cbs t m)" for m using y by (simp add: cbs_def)
    have ts: "ts_of ?t = ts_of t" using y by (auto simp: ts_of_def fun_eq_iff)
    note cbi = cb [simplified] and tsi = ts [simplified]
    have fl: "no_auto_del (the (tns ?t m)) = no_auto_del (the (tns t m))" for m using y by simp
    have il: "l' \<noteq> l \<Longrightarrow> in_list ?t r l' = in_list t r l'" for l' r by (simp add: in_list_def)
    have nin: "l \<notin> set (keeplist t)" "m \<in> set (rbtree t) \<Longrightarrow> m \<noteq> n \<Longrightarrow> l \<notin> set (cbs t m)" for m
      using P x Some in_list_ref [of t None l x] in_list_ref [of t "Some m" l x] by auto
    have po: "l' \<noteq> l \<Longrightarrow> point_ok t l' z \<Longrightarrow> point_ok ?t l' z" for l' z
      using cb by (auto simp: point_ok_def in_set_remove1 split: option.splits)
    have "tree_inv cur ?t"
      using T y unfolding tree_inv_def ts fl by auto
    moreover have "point_inv {l} ?t"
    proof (rule point_invI)
      fix m l' assume m: "m \<in> set (rbtree ?t)" "l' \<in> set (cbs ?t m)"
      then have "in_list t (Some m) l' \<and> l' \<noteq> l"
        using point_invD(4,5) [OF inv] nin(2) k(1) unfolding cb by (auto simp: set_remove1_eq split: if_splits)
      then show "in_list ?t (Some m) l' \<and> l' \<notin> {l}" using il by simp
    next
      fix l' assume "l' \<in> set (keeplist ?t)"
      then have "in_list t None l' \<and> l' \<noteq> l" using point_invD(6) [OF inv] nin(1) by auto
      then show "in_list ?t None l' \<and> l' \<notin> {l}" using il by simp
    qed (use point_invD [OF inv] x po in \<open>auto simp: cbi split: if_splits\<close>)
    moreover have "sched {l} ?t = (sched {} t)(l := None)"
      by (auto simp: sched_def fun_eq_iff tsi split: option.split)
    ultimately show ?thesis using run x Some cb ts nrun by (intro exI [of _ ?t] exI [of _ x]) (simp add: tinv_def)
  qed
qed

text \<open>Putting a point into a list.\<close>

lemma link_cblist_ok:
  assumes inv: "tinv {l} cur t" and x: "lns t l = Some x" "ref_tnode x = Some n" "\<not> ln_running x" and n: "n \<in> set (rbtree t)"
  shows "\<exists>t'. LIST_INSERT_HEAD_cblist n l t = Inr ((), t') \<and> tinv {} cur t' \<and> sched {} t' = (sched {l} t)(l \<mapsto> Some (ts_of t n)) \<and>
    rbtree t' = rbtree t"
proof -
  note P = tinvD(2) [OF inv, unfolded point_inv_def] and T = tinvD(1) [OF inv]
  obtain y where y: "tns t n = Some y" using tree_live [OF T n] by blast
  let ?t = "t\<lparr>tns := (tns t)(n \<mapsto> y\<lparr>cblist := l # cblist y\<rparr>), lns := (lns t)(l \<mapsto> x\<lparr>ln_list := Some (InNode n)\<rparr>)\<rparr>"
  have run: "LIST_INSERT_HEAD_cblist n l t = Inr ((), ?t)" using x y by (simp add: LIST_INSERT_HEAD_cblist_def evm_simps)
  have cb: "cbs ?t m = (if m = n then l # cbs t n else cbs t m)" for m using y by (simp add: cbs_def)
  have ts: "ts_of ?t = ts_of t" using y by (auto simp: ts_of_def fun_eq_iff)
  note cbi = cb [simplified] and tsi = ts [simplified]
  have fl: "no_auto_del (the (tns ?t m)) = no_auto_del (the (tns t m))" for m using y by simp
  have il: "l' \<noteq> l \<Longrightarrow> in_list ?t r l' = in_list t r l'" "in_list ?t (Some n) l" for l' r
    using P x by (simp_all add: in_list_def)
  have po: "l' \<noteq> l \<Longrightarrow> point_ok t l' z \<Longrightarrow> point_ok ?t l' z" for l' z
    using cb by (auto simp: point_ok_def split: option.splits)
  have pl: "point_ok ?t l (x\<lparr>ln_list := Some (InNode n)\<rparr>)" using x n cb by (simp add: point_ok_def)
  have "tree_inv cur ?t" using T y unfolding tree_inv_def ts fl by auto
  moreover have "point_inv {} ?t"
  proof (rule point_invI)
    fix m l' assume m: "m \<in> set (rbtree ?t)" "l' \<in> set (cbs ?t m)"
    then have "l' = l \<and> m = n \<or> l' \<noteq> l \<and> in_list t (Some m) l'"
      using point_invD(5) [OF inv, of m l'] unfolding cb by (auto split: if_splits)
    then show "in_list ?t (Some m) l' \<and> l' \<notin> {}" using il by auto
  next
    fix m assume "m \<in> set (rbtree ?t)"
    then show "distinct (cbs ?t m)" using point_invD(4,5) [OF inv, of m] unfolding cb by auto
  next
    fix l' assume "l' \<in> set (keeplist ?t)"
    then have "in_list t None l' \<and> l' \<noteq> l" using point_invD(6) [OF inv] by auto
    then show "in_list ?t None l' \<and> l' \<notin> {}" using il by simp
  qed (use point_invD [OF inv] x po pl in \<open>auto split: if_splits\<close>)
  moreover have "sched {} ?t = (sched {l} t)(l \<mapsto> Some (ts_of t n))"
    using x P by (auto simp: sched_def fun_eq_iff tsi split: option.split)
  ultimately show ?thesis using run by (intro exI [of _ ?t]) (simp add: tinv_def)
qed

lemma link_keeplist_ok:
  assumes inv: "tinv {l} cur t" and x: "lns t l = Some x" "ref_tnode x = None" "\<not> ln_running x"
  shows "\<exists>t'. LIST_INSERT_HEAD_keeplist l t = Inr ((), t') \<and> tinv {} cur t' \<and> sched {} t' = (sched {l} t)(l \<mapsto> None) \<and> rbtree t' = rbtree t \<and>
    (\<forall>n. ts_of t' n = ts_of t n \<and> cbs t' n = cbs t n) \<and> (\<forall>l'. l' \<noteq> l \<longrightarrow> lns t' l' = lns t l')"
proof -
  note P = tinvD(2) [OF inv, unfolded point_inv_def] and T = tinvD(1) [OF inv]
  let ?t = "t\<lparr>keeplist := l # keeplist t, lns := (lns t)(l \<mapsto> x\<lparr>ln_list := Some InKeep\<rparr>)\<rparr>"
  have run: "LIST_INSERT_HEAD_keeplist l t = Inr ((), ?t)" using x by (simp add: LIST_INSERT_HEAD_keeplist_def evm_simps)
  have il: "l' \<noteq> l \<Longrightarrow> in_list ?t r l' = in_list t r l'" "in_list ?t None l" for l' r
    using P x by (simp_all add: in_list_def)
  have po: "l' \<noteq> l \<Longrightarrow> point_ok t l' z \<Longrightarrow> point_ok ?t l' z" for l' z
    by (auto simp: point_ok_def split: option.splits)
  have pl: "point_ok ?t l (x\<lparr>ln_list := Some InKeep\<rparr>)" using x by (simp add: point_ok_def)
  have "tree_inv cur ?t" using T by (simp add: tree_inv_def)
  moreover have "point_inv {} ?t"
  proof (rule point_invI)
    fix m l' assume m: "m \<in> set (rbtree ?t)" "l' \<in> set (cbs ?t m)"
    then have "l' \<noteq> l \<and> in_list t (Some m) l'" using point_invD(5) [OF inv, of m l'] by auto
    then show "in_list ?t (Some m) l' \<and> l' \<notin> {}" using il by auto
  next
    fix l' assume "l' \<in> set (keeplist ?t)"
    then have "l' = l \<or> l' \<noteq> l \<and> in_list t None l'" using point_invD(6) [OF inv] by auto
    then show "in_list ?t None l' \<and> l' \<notin> {}" using il by auto
  next
    show "distinct (keeplist ?t)" using point_invD(1,6) [OF inv] by auto
  qed (use point_invD [OF inv] x po pl in \<open>auto split: if_splits\<close>)
  moreover have "sched {} ?t = (sched {l} t)(l \<mapsto> None)"
    using x P by (auto simp: sched_def fun_eq_iff split: option.split)
  ultimately show ?thesis using run by (intro exI [of _ ?t]) (simp add: tinv_def ts_of_def cbs_def)
qed

text \<open>Releasing a point.\<close>

lemma free_point_ok:
  assumes inv: "tinv {l} cur t"
  shows "\<exists>t'. evdp_timer_cblist_node_free True l t = Inr ((), t') \<and> tinv {} cur t' \<and> sched {} t' = sched {l} t \<and> rbtree t' = rbtree t \<and>
    (\<forall>n. ts_of t' n = ts_of t n \<and> cbs t' n = cbs t n) \<and> (\<forall>l'. l' \<noteq> l \<longrightarrow> lns t' l' = lns t l')"
proof -
  note P = tinvD(2) [OF inv, unfolded point_inv_def] and T = tinvD(1) [OF inv]
  obtain x where x: "lns t l = Some x" "l \<notin> set (lcache_nodes t)" using P by auto
  let ?c = "int (length (lcache_nodes t)) < lcache_size t"
  let ?t = "if ?c then t\<lparr>lcache_nodes := l # lcache_nodes t\<rparr> else t\<lparr>lns := (lns t)(l := None)\<rparr>"
  have run: "evdp_timer_cblist_node_free True l t = Inr ((), ?t)" using x by (simp add: evdp_timer_cblist_node_free_def evm_simps)
  have il: "l' \<noteq> l \<Longrightarrow> in_list ?t r l' = in_list t r l'" for l' r by (simp add: in_list_def)
  have cb: "cbs ?t = cbs t" "ts_of ?t = ts_of t" "rbtree ?t = rbtree t" "keeplist ?t = keeplist t" by (auto simp: cbs_def ts_of_def fun_eq_iff)
  have po: "point_ok ?t = point_ok t" by (rule point_ok_view) (simp_all add: cb)
  have "tree_inv cur ?t" using T unfolding tree_inv_def cb by (cases ?c) simp_all
  moreover have "point_inv {} ?t"
  proof (rule point_invI)
    fix m l' assume "m \<in> set (rbtree ?t)" "l' \<in> set (cbs ?t m)"
    then have "in_list t (Some m) l' \<and> l' \<noteq> l" using point_invD(5) [OF inv] unfolding cb by auto
    then show "in_list ?t (Some m) l' \<and> l' \<notin> {}" using il by simp
  next
    fix l' assume "l' \<in> set (keeplist ?t)"
    then have "in_list t None l' \<and> l' \<noteq> l" using point_invD(6) [OF inv] unfolding cb by auto
    then show "in_list ?t None l' \<and> l' \<notin> {}" using il by simp
  qed (use point_invD [OF inv] x in \<open>auto simp: po cb split: if_splits\<close>)
  moreover have "sched {} ?t = sched {l} t"
    using x by (cases ?c) (auto simp: sched_def fun_eq_iff split: option.split)
  ultimately show ?thesis using run cb by (intro exI [of _ ?t]) (simp add: tinv_def)
qed

lemma cblist_node_new_ok:
  assumes inv: "tinv {} cur t" and a: "fresh (lns t) a"
  shows "evdp_timer_cblist_node_new a cb u t = Inr (None, t) \<or>
    (\<exists>l t' x. evdp_timer_cblist_node_new a cb u t = Inr (Some l, t') \<and> tinv {l} cur t' \<and> sched {l} t' = sched {} t \<and> sched {} t l = None \<and>
      lns t' l = Some x \<and> \<not> ln_running x \<and> rbtree t' = rbtree t \<and> (\<forall>n. ts_of t' n = ts_of t n))"
proof -
  let ?x = "\<lparr>ln_list = None, on_timeout = cb, ln_udata = u, ln_running = False, ref_tnode = None\<rparr>"
  note D = point_invD [OF inv]
  have main: "tinv {l} cur u' \<and> sched {l} u' = sched {} t \<and> sched {} t l = None"
    if t: "u' = t\<lparr>lcache_nodes := c, lns := (lns t)(l \<mapsto> ?x)\<rparr>" and c: "distinct c" "l \<notin> set c" "set c \<subseteq> set (lcache_nodes t)"
      "set (lcache_nodes t) \<subseteq> insert l (set c)" and l: "l \<in> set (lcache_nodes t) \<or> lns t l = None" for u' c l
  proof -
    have il: "in_list u' r l' = in_list t r l'" if "l' \<noteq> l" for r l' using c that unfolding t by (auto simp: in_list_def)
    have nl: "\<not> in_list t r l" for r using l by (auto simp: in_list_def)
    have po: "point_ok u' = point_ok t" unfolding t by (rule point_ok_view) simp_all
    have "tree_inv cur u'" using tinvD(1) [OF inv] unfolding t by (simp add: tree_inv_def)
    moreover have "point_inv {l} u'"
    proof (rule point_invI)
      fix m l' assume "m \<in> set (rbtree u')" "l' \<in> set (cbs u' m)"
      then have "in_list t (Some m) l'" using D(5) unfolding t by auto
      then show "in_list u' (Some m) l' \<and> l' \<notin> {l}" using il nl by (cases "l' = l") auto
    next
      fix l' assume "l' \<in> set (keeplist u')"
      then have "in_list t None l'" using D(6) unfolding t by auto
      then show "in_list u' None l' \<and> l' \<notin> {l}" using il nl by (cases "l' = l") auto
    next
      fix l' y assume "lns u' l' = Some y" "l' \<notin> set (lcache_nodes u')" "l' \<notin> {l}"
      then show "point_ok u' l' y" unfolding po using D(8) c unfolding t by (auto split: if_splits)
    qed (use D c in \<open>auto simp: t split: if_splits\<close>)
    moreover have "sched {l} u' = sched {} t" "sched {} t l = None"
      using c l unfolding t by (auto simp: sched_def fun_eq_iff split: option.splits)
    ultimately show ?thesis by (simp add: tinv_def)
  qed
  show ?thesis
  proof (cases "lcache_nodes t")
    case Nil
    show ?thesis
    proof (cases a)
      case (Some l)
      have t: "t\<lparr>lcache_nodes := []\<rparr> = t" using Nil by simp
      have "evdp_timer_cblist_node_new a cb u t = Inr (Some l, t\<lparr>lcache_nodes := [], lns := (lns t)(l \<mapsto> ?x)\<rparr>)"
        using Nil Some t by (simp add: evdp_timer_cblist_node_new_def evm_simps Let_def)
      then show ?thesis using main [OF refl, of "[]" l] Nil a Some
        by (intro disjI2 exI [of _ l] exI [of _ "t\<lparr>lcache_nodes := [], lns := (lns t)(l \<mapsto> ?x)\<rparr>"] exI [of _ ?x]) (simp add: fresh_def)
    qed (use Nil in \<open>simp add: evdp_timer_cblist_node_new_def evm_simps Let_def\<close>)
  next
    case (Cons l ls)
    then obtain y where y: "lns t l = Some y" using D(3) by auto
    have "evdp_timer_cblist_node_new a cb u t = Inr (Some l, t\<lparr>lcache_nodes := ls, lns := (lns t)(l \<mapsto> ?x)\<rparr>)"
      using Cons y by (simp add: evdp_timer_cblist_node_new_def evm_simps Let_def)
    then show ?thesis using main [OF refl, of ls l] Cons D(2)
      by (intro disjI2 exI [of _ l] exI [of _ "t\<lparr>lcache_nodes := ls, lns := (lns t)(l \<mapsto> ?x)\<rparr>"] exI [of _ ?x]) auto
  qed
qed

text \<open>Taking an empty node out of the tree.\<close>

lemma drop_node_ok:
  assumes inv: "tinv ex cur t" and n: "n \<in> set (rbtree t)" "cbs t n = []" "cur \<noteq> Some n"
  shows "\<exists>t1 t'. timer_remove_node n t = Inr ((), t1) \<and> evdp_timer_rbtree_node_del True n t1 = Inr ((), t') \<and>
    tinv ex cur t' \<and> sched ex t' = sched ex t \<and> lns t' = lns t \<and> rbtree t' = remove1 n (rbtree t) \<and>
    (\<forall>m. m \<noteq> n \<longrightarrow> ts_of t' m = ts_of t m \<and> cbs t' m = cbs t m)"
proof -
  note T = tinvD(1) [OF inv] and P = tinvD(2) [OF inv]
  obtain x where x: "tns t n = Some x" using tree_live [OF T n(1)] by blast
  let ?t1 = "t\<lparr>rbtree := remove1 n (rbtree t)\<rparr>"
  have r: "timer_remove_node n t = Inr ((), ?t1)" using tree_alive_inv [OF T] n(1) by (simp add: timer_remove_node_def evm_simps)
  have "tns ?t1 n = Some x" "cblist x = []" using x n(2) by (simp_all add: cbs_def)
  from node_del_empty [OF this] obtain c h where del: "evdp_timer_rbtree_node_del True n ?t1 = Inr ((), ?t1\<lparr>tns := h, tcache_nodes := c\<rparr>)"
    "\<And>m. m \<noteq> n \<Longrightarrow> h m = tns t m" "c = tcache_nodes t \<or> c = n # tcache_nodes t \<and> h n \<noteq> None" by auto
  define t' where "t' = ?t1\<lparr>tns := h, tcache_nodes := c\<rparr>"
  have fld: "lns t' = lns t" "keeplist t' = keeplist t" "lcache_nodes t' = lcache_nodes t" "rbtree t' = remove1 n (rbtree t)" "tns t' = h"
    "tcache_nodes t' = c" by (simp_all add: t'_def)
  have v: "m \<noteq> n \<Longrightarrow> ts_of t' m = ts_of t m \<and> cbs t' m = cbs t m" for m using del(2) by (simp add: fld ts_of_def cbs_def)
  have dist: "distinct (rbtree t)" using T ordered_distinct by (auto simp: tree_inv_def)
  then have rs: "set (rbtree t') = set (rbtree t) - {n}" by (simp add: fld set_remove1_eq)
  have "ordered (ts_of t') (rbtree t') = ordered (ts_of t) (rbtree t')" by (rule ordered_cong) (use v rs in auto)
  then have o: "ordered (ts_of t') (rbtree t')" using T by (simp add: fld tree_inv_def ordered_remove1)
  have live: "tns t' m \<noteq> None" if "m \<in> set (rbtree t') \<union> set c" for m
    using that del(2,3) T rs n(1) by (cases "m = n") (auto simp: tree_inv_def fld)
  have cd: "distinct c" "set (rbtree t') \<inter> set c = {}" using T del(3) rs n(1) by (auto simp: tree_inv_def)
  have "no_auto_del (the (tns t' m)) = (cur = Some m)" if "m \<in> set (rbtree t')" for m
    using that T rs del(2) by (simp add: tree_inv_def fld)
  moreover have "\<forall>m. cur = Some m \<longrightarrow> m \<in> set (rbtree t')" using T rs n(3) by (auto simp: tree_inv_def)
  ultimately have "tree_inv cur t'" using o live cd unfolding tree_inv_def fld(6) by blast
  moreover have "point_inv ex t'"
  proof (rule point_inv_tree [OF P fld(1-3)])
    fix m l assume "m \<in> set (rbtree t)" "l \<in> set (cbs t m)"
    then show "m \<in> set (rbtree t') \<and> cbs t' m = cbs t m" using v rs n(2) by (cases "m = n") auto
  qed (use v rs in auto)
  moreover have "sched ex t' = sched ex t"
  proof (rule sched_tree [OF P fld(1,3)])
    fix m l assume "l \<in> set (cbs t m)"
    then show "ts_of t' m = ts_of t m" using v n(2) by (cases "m = n") auto
  qed
  ultimately show ?thesis using r del(1) v unfolding t'_def [symmetric] by (intro exI [of _ ?t1] exI [of _ t']) (simp add: fld tinv_def)
qed

lemma check_del_ok:
  assumes inv: "tinv ex cur t" and n: "n \<in> set (rbtree t)"
  shows "\<exists>t'. evdp_timer_rbtree_node_check_del n t = Inr ((), t') \<and> tinv ex cur t' \<and> sched ex t' = sched ex t \<and> lns t' = lns t \<and>
    (\<forall>m \<in> set (rbtree t) - {n}. m \<in> set (rbtree t') \<and> ts_of t' m = ts_of t m)"
proof -
  obtain x where x: "tns t n = Some x" using tree_live [OF tinvD(1) [OF inv] n] by blast
  show ?thesis
  proof (cases "no_auto_del x \<or> cblist x \<noteq> []")
    case True
    then show ?thesis using x inv by (auto simp: evdp_timer_rbtree_node_check_del_def evm_simps)
  next
    case False
    then have e: "cbs t n = []" "cur \<noteq> Some n" using x tinvD(1) [OF inv] n by (auto simp: cbs_def tree_inv_def)
    from drop_node_ok [OF inv n e] show ?thesis using False x
      by (auto simp: evdp_timer_rbtree_node_check_del_def evm_simps in_set_remove1)
  qed
qed

end
