(* ===== verification/Neb_Text.thy ===== *)
theory Neb_Text
  imports Neb_Prelude
begin

text \<open>
  What the sources use of the C library's text functions: decimal output with \<open>snprintf\<close> into a
  buffer, and \<open>strtol\<close> and \<open>atoi\<close> in base 10. Text is a list of characters without
  the final null byte; a buffer is an array of characters.
\<close>

section \<open>Functions\<close>

abbreviation nul :: char where "nul \<equiv> CHR 0x00"

text \<open>\<open>\<^verbatim>\<open>%u\<close>\<close> prints a decimal number; \<open>snprintf\<close> writes at most the given size, ends
  what it wrote with a null byte, and returns the length of the whole text.\<close>

fun fmt_u :: "nat \<Rightarrow> string" where
  "fmt_u n = (if n < 10 then [] else fmt_u (n div 10)) @ [char_of (48 + n mod 10 :: nat)]"

declare fmt_u.simps [simp del]

definition snprintf :: "string \<Rightarrow> nat \<Rightarrow> string \<Rightarrow> (nat \<times> string) outcome" where
  "snprintf buf sz txt =
     obind (if sz = 0 then Inr buf else array_copy buf 0 (take (sz - 1) txt @ [nul])) (\<lambda>buf. Inr (length txt, buf))"

definition is_digit :: "char \<Rightarrow> bool" where "is_digit c = (48 \<le> (of_char c :: nat) \<and> (of_char c :: nat) \<le> 57)"
definition is_space :: "char \<Rightarrow> bool" where "is_space c = (of_char c \<in> {9::nat, 10, 11, 12, 13, 32})"
definition digit :: "char \<Rightarrow> int" where "digit c = int (of_char c) - 48"

definition dec_val :: "string \<Rightarrow> int" where "dec_val ds = foldl (\<lambda>v c. v * 10 + digit c) 0 ds"

text \<open>\<open>strtol\<close> in base 10: leading space, a sign, digits; the value, limited to the range of
  \<open>long\<close>, and the rest of the text, the whole text when there is no digit.\<close>

definition strtol :: "string \<Rightarrow> int \<times> string" where
  "strtol s =
     (let s1 = dropWhile is_space s;
          neg = (case s1 of c # _ \<Rightarrow> c = CHR ''-'' | [] \<Rightarrow> False);
          s2 = (case s1 of c # r \<Rightarrow> if c = CHR ''-'' \<or> c = CHR ''+'' then r else s1 | [] \<Rightarrow> s1);
          ds = takeWhile is_digit s2;
          v = (if neg then - dec_val ds else dec_val ds) in
      if ds = [] then (0, s)
      else (max (-9223372036854775808) (min 9223372036854775807 v), dropWhile is_digit s2))"

text \<open>\<open>atoi\<close> is \<open>strtol\<close> converted to \<open>int\<close>.\<close>

definition atoi :: "string \<Rightarrow> int" where
  "atoi s = (fst (strtol s) + 2147483648) mod 4294967296 - 2147483648"

text \<open>The text in a buffer ends before its first null byte.\<close>

definition cstr :: "string \<Rightarrow> string" where "cstr buf = takeWhile (\<lambda>c. c \<noteq> nul) buf"

section \<open>Lemmas\<close>

lemma u8_lt: "unat (b :: u8) < 256"
proof -
  have "unat b < 2 ^ LENGTH(8)" by (rule unsigned_less)
  then show ?thesis by simp
qed

text \<open>Decimal numbers.\<close>

lemma fmt_u_small: "n < 10 \<Longrightarrow> fmt_u n = [char_of (48 + n)]"
  by (simp add: fmt_u.simps)

lemma fmt_u_step: "\<not> n < 10 \<Longrightarrow> fmt_u n = fmt_u (n div 10) @ [char_of (48 + n mod 10)]"
  by (subst fmt_u.simps) simp

lemma digit_char: "n < 10 \<Longrightarrow> of_char (char_of (48 + n) :: char) = (48 + n :: nat)"
  by (simp add: of_char_of)

lemma fmt_u_digits: "c \<in> set (fmt_u n) \<Longrightarrow> 48 \<le> (of_char c :: nat) \<and> (of_char c :: nat) < 58"
proof (induction n rule: fmt_u.induct)
  case (1 n)
  have "n mod 10 < 10" by simp
  then show ?case using 1 digit_char [of "n mod 10"] digit_char [of n] by (cases "n < 10") (auto simp: fmt_u_small fmt_u_step)
qed

lemma fmt_u_nodot: "CHR ''.'' \<notin> set (fmt_u n)"
  using fmt_u_digits [of "CHR ''.''" n] by auto

lemma fmt_u_length: "n < 256 \<Longrightarrow> length (fmt_u n) \<le> 3"
proof -
  assume "n < 256"
  moreover have "m < 10 \<Longrightarrow> length (fmt_u m) = 1" for m by (simp add: fmt_u_small)
  moreover have "m < 100 \<Longrightarrow> length (fmt_u m) \<le> 2" for m
    by (cases "m < 10") (simp_all add: fmt_u_small fmt_u_step)
  moreover have "n < 256 \<Longrightarrow> n div 10 < 100" by simp
  moreover have "\<not> n < 100 \<Longrightarrow> fmt_u n = fmt_u (n div 10) @ [char_of (48 + n mod 10)]" by (rule fmt_u_step) simp
  ultimately show ?thesis by (cases "n < 100") fastforce+
qed

definition read_dec :: "string \<Rightarrow> nat" where "read_dec s = foldl (\<lambda>v c. v * 10 + (of_char c - 48)) 0 s"

lemma read_dec_fmt_u: "read_dec (fmt_u n) = n"
proof (induction n rule: fmt_u.induct)
  case (1 n)
  have "n mod 10 < 10" by simp
  then show ?case using 1 digit_char [of "n mod 10"] digit_char [of n]
    by (cases "n < 10") (auto simp: fmt_u_small fmt_u_step read_dec_def)
qed

lemma dec_val_fmt_u: "dec_val (fmt_u n) = int n"
proof (induction n rule: fmt_u.induct)
  case (1 n)
  have d: "m < 10 \<Longrightarrow> digit (char_of (48 + m :: nat)) = int m" for m
    using digit_char [of m] by (simp add: digit_def)
  then show ?case using 1 by (cases "n < 10") (auto simp: fmt_u_small fmt_u_step dec_val_def zdiv_int zmod_int)
qed

lemma fmt_u_nonempty: "fmt_u n \<noteq> []"
  by (subst fmt_u.simps) simp

lemma fmt_u_is_digit: "c \<in> set (fmt_u n) \<Longrightarrow> is_digit c"
  using fmt_u_digits [of c n] by (auto simp: is_digit_def)

lemma strtol_fmt_u:
  assumes "n \<le> 2147483647"
  shows "strtol (fmt_u n) = (int n, [])"
proof -
  obtain c r where c: "fmt_u n = c # r" using fmt_u_nonempty by (cases "fmt_u n") auto
  then have "is_digit c" using fmt_u_is_digit [of c n] by simp
  then have ns: "\<not> is_space c" "c \<noteq> CHR ''-''" "c \<noteq> CHR ''+''" by (auto simp: is_digit_def is_space_def)
  have "takeWhile is_digit (fmt_u n) = fmt_u n" "dropWhile is_digit (fmt_u n) = []"
    using fmt_u_is_digit by (auto simp: takeWhile_eq_all_conv dropWhile_eq_Nil_conv)
  then show ?thesis using ns c dec_val_fmt_u [of n] assms by (simp add: strtol_def Let_def)
qed

lemma strtol_empty: "strtol [] = (0, [])"
  by (simp add: strtol_def)

lemma atoi_fmt_u: "n \<le> 2147483647 \<Longrightarrow> atoi (fmt_u n) = int n"
  by (simp add: atoi_def strtol_fmt_u)

lemma fmt_u_no_nul: "nul \<notin> set (fmt_u n)"
  using fmt_u_digits [of nul n] by auto

lemma cstr_fmt_u: "cstr (fmt_u n @ nul # r) = fmt_u n"
  using fmt_u_no_nul [of n] by (auto simp: cstr_def takeWhile_append takeWhile_eq_all_conv)

lemma fmt_u_length_bound: "0 < k \<Longrightarrow> n < 10 ^ k \<Longrightarrow> length (fmt_u n) \<le> k"
proof (induction k arbitrary: n)
  case (Suc k)
  show ?case
  proof (cases "n < 10")
    case False
    then have "0 < k" using Suc.prems(2) by (cases k) auto
    moreover have "n div 10 < 10 ^ k" using Suc.prems(2) by (simp add: less_mult_imp_div_less mult.commute)
    ultimately show ?thesis using Suc.IH [of "n div 10"] False by (simp add: fmt_u_step)
  qed (simp add: fmt_u_small)
qed simp

end
