(* ===== verification/Neb_Ipaddr.thy ===== *)
theory Neb_Ipaddr
  imports Neb_Text
begin

text \<open>
  Model of \<^verbatim>\<open>src/src/net/ipaddr.c\<close>: reverse lookup names, the next address, parsing of
  networks (the Linux branch) and masks. Addresses and socket addresses are the bytes in memory, buffers are arrays with checked
  writes. \<open>inet_pton\<close> and \<open>inet_net_pton\<close> are arguments.
\<close>

section \<open>Reverse lookup names\<close>

definition NEB_INET_ARPASTRLEN :: nat where "NEB_INET_ARPASTRLEN = 16 + 1 + 12"
definition NEB_INET6_ARPASTRLEN :: nat where "NEB_INET6_ARPASTRLEN = 8 * 4 * 2 + 8 + 1"

definition neb_ipv4_arpa_domain :: string where "neb_ipv4_arpa_domain = ''in-addr.arpa''"
definition neb_ipv6_arpa_domain :: string where "neb_ipv6_arpa_domain = ''ip6.arpa''"

definition hexmap :: string where "hexmap = ''0123456789abcdef''"

function ipv6_arpa_loop :: "u8 list \<Rightarrow> nat \<Rightarrow> string \<Rightarrow> string outcome" where
  "ipv6_arpa_loop addr i arpa =
     (if i < 16 then
        (let off = 64 - 4 - i * 4 in
         obind (array_get addr i) (\<lambda>b.
         obind (array_set arpa off (hexmap ! unat (b AND 0x0F))) (\<lambda>arpa.
         obind (array_set arpa (off + 2) (hexmap ! unat (drop_bit 4 b AND 0x0F))) (\<lambda>arpa.
         ipv6_arpa_loop addr (i + 1) arpa))))
      else Inr arpa)"
  by pat_completeness auto
termination
  by (relation "measure (\<lambda>(addr, i, arpa). 16 - i)") auto

declare ipv6_arpa_loop.simps [simp del]

definition ipv6_addr_to_arpa :: "u8 list \<Rightarrow> string \<Rightarrow> string outcome" where
  "ipv6_addr_to_arpa addr arpa =
     obind (array_copy arpa 0 (replicate 64 CHR ''.'')) (\<lambda>arpa.
     obind (ipv6_arpa_loop addr 0 arpa) (\<lambda>arpa.
     obind (array_copy arpa 64 neb_ipv6_arpa_domain) (\<lambda>arpa.
     array_set arpa (NEB_INET6_ARPASTRLEN - 1) nul)))"

definition ipv4_addr_to_arpa :: "u8 list \<Rightarrow> string \<Rightarrow> string outcome" where
  "ipv4_addr_to_arpa addr arpa =
     obind (array_get addr 3) (\<lambda>a3. obind (array_get addr 2) (\<lambda>a2.
     obind (array_get addr 1) (\<lambda>a1. obind (array_get addr 0) (\<lambda>a0.
     obind (snprintf arpa NEB_INET_ARPASTRLEN
       (fmt_u (unat a3) @ ''.'' @ fmt_u (unat a2) @ ''.'' @ fmt_u (unat a1) @ ''.'' @ fmt_u (unat a0) @ ''.'' @ neb_ipv4_arpa_domain))
     (\<lambda>(len, arpa). array_set arpa len nul)))))"

datatype family = AF_INET | AF_INET6 | AF_OTHER

definition neb_netinet_addr_to_arpa :: "family \<Rightarrow> u8 list \<Rightarrow> string \<Rightarrow> string outcome" where
  "neb_netinet_addr_to_arpa family addr arpa =
     (case family of AF_INET \<Rightarrow> ipv4_addr_to_arpa addr arpa
      | AF_INET6 \<Rightarrow> ipv6_addr_to_arpa addr arpa
      | AF_OTHER \<Rightarrow> array_set arpa 0 nul)"

section \<open>The next address\<close>

text \<open>Values in network byte order at an offset of a structure in memory. A \<open>sockaddr_in\<close> has its
  address at offset 4, a \<open>sockaddr_in6\<close> at offset 8, after the family, the port and the flow information.\<close>

fun be_val :: "u8 list \<Rightarrow> nat" where
  "be_val [] = 0"
| "be_val (b # bs) = unat b * 256 ^ length bs + be_val bs"

definition be_bytes :: "u32 \<Rightarrow> u8 list" where
  "be_bytes w = [ucast (drop_bit 24 w), ucast (drop_bit 16 w), ucast (drop_bit 8 w), ucast w]"

definition load_be32 :: "u8 list \<Rightarrow> nat \<Rightarrow> u32 outcome" where
  "load_be32 m off = (if off + 4 \<le> length m then Inr (of_nat (be_val (take 4 (drop off m)))) else Inl OutOfBounds)"

definition store_be32 :: "u8 list \<Rightarrow> nat \<Rightarrow> u32 \<Rightarrow> u8 list outcome" where
  "store_be32 m off w = array_copy m off (be_bytes w)"

definition ipv4_addr_next :: "u8 list \<Rightarrow> u8 list outcome" where
  "ipv4_addr_next addr = obind (load_be32 addr 4) (\<lambda>t. store_be32 addr 4 (t + 1))"

text \<open>The loop over the four words of \<open>p\<close>; \<open>n\<close> counts the words left.\<close>

fun ipv6_next_loop :: "nat \<Rightarrow> u8 list \<Rightarrow> u8 list outcome" where
  "ipv6_next_loop 0 p = Inr p"
| "ipv6_next_loop (Suc i) p =
     obind (load_be32 p (4 * i)) (\<lambda>t.
       if t \<noteq> 0xFFFFFFFF then store_be32 p (4 * i) (t + 1)
       else obind (store_be32 p (4 * i) 0) (\<lambda>p. ipv6_next_loop i p))"

definition ipv6_addr_next :: "u8 list \<Rightarrow> u8 list outcome" where
  "ipv6_addr_next addr = ipv6_next_loop 4 addr"

definition neb_netinet_addr_next :: "family \<Rightarrow> u8 list \<Rightarrow> u8 list outcome" where
  "neb_netinet_addr_next sa_family ipaddr =
     (case sa_family of AF_INET \<Rightarrow> ipv4_addr_next ipaddr | AF_INET6 \<Rightarrow> ipv6_addr_next ipaddr | AF_OTHER \<Rightarrow> Inr ipaddr)"

section \<open>Networks\<close>

definition INET6_ADDRSTRLEN :: nat where "INET6_ADDRSTRLEN = 46"

text \<open>The result has the family specific answer: the address bytes and the prefix length put into the port.\<close>

definition ipv6_net_pton :: "(string \<Rightarrow> u8 list option) \<Rightarrow> string \<Rightarrow> (u8 list \<times> int) option" where
  "ipv6_net_pton inet_pton pres =
     (case dropWhile (\<lambda>c. c \<noteq> CHR ''/'') pres of
        [] \<Rightarrow> map_option (\<lambda>a. (a, 128)) (inet_pton pres)
      | d # r \<Rightarrow>
          (let len = length (takeWhile (\<lambda>c. c \<noteq> CHR ''/'') pres) in
           if len \<ge> INET6_ADDRSTRLEN then None
           else (case strtol r of (prefix, endptr) \<Rightarrow>
             if endptr \<noteq> [] then None
             else if prefix < 0 \<or> prefix > 128 then None
             else map_option (\<lambda>a. (a, prefix)) (inet_pton (take len pres)))))"

definition neb_netinet_net_pton ::
  "(string \<Rightarrow> (u8 list \<times> int) option) \<Rightarrow> (string \<Rightarrow> u8 list option) \<Rightarrow> family \<Rightarrow> string \<Rightarrow> (u8 list \<times> u16) option" where
  "neb_netinet_net_pton inet_net_pton inet_pton sa_family pres =
     (case sa_family of
        AF_INET \<Rightarrow> map_option (\<lambda>(a, bits). (a, of_int bits)) (inet_net_pton pres)
      | AF_INET6 \<Rightarrow> map_option (\<lambda>(a, bits). (a, of_int bits)) (ipv6_net_pton inet_pton pres)
      | AF_OTHER \<Rightarrow> None)"

text \<open>The mask is written from \<open>off\<close> on; a shift by more than the width of \<open>int\<close> is
  undefined.\<close>

function neb_netinet_fill_mask :: "u8 list \<Rightarrow> nat \<Rightarrow> int \<Rightarrow> u8 list outcome" where
  "neb_netinet_fill_mask addr off prefix =
     (if prefix > 8 then obind (array_set addr off 0xFF) (\<lambda>addr. neb_netinet_fill_mask addr (off + 1) (prefix - 8))
      else if prefix < - 15 then Inl SignedOverflow
      else array_set addr off (word_of_int (255 * 2 ^ nat (8 - prefix))))"
  by pat_completeness auto
termination
  by (relation "measure (\<lambda>(addr, off, prefix). nat prefix)") auto

declare neb_netinet_fill_mask.simps [simp del]

section \<open>Reverse lookup names are exact\<close>

text \<open>The name of an IPv6 address: its nibbles, lowest first, each followed by a dot.\<close>

definition arpa6_byte :: "u8 \<Rightarrow> string" where
  "arpa6_byte b = [hexmap ! (unat b mod 16), CHR ''.'', hexmap ! (unat b div 16), CHR ''.'']"

definition arpa6_name :: "u8 list \<Rightarrow> string" where
  "arpa6_name addr = concat (map arpa6_byte (rev addr)) @ neb_ipv6_arpa_domain"

lemma patch4: "(replicate k d @ [d, d, d, d] @ c)[k := x, k + 2 := y] = replicate k d @ [x, d, y, d] @ c"
  by (simp add: list_update_append numeral_2_eq_2)

lemma nibbles: "unat (b AND 0x0F :: u8) = unat b mod 16" "unat (drop_bit 4 b AND 0x0F :: u8) = unat b div 16"
proof -
  show "unat (b AND 0x0F) = unat b mod 16" by (simp add: and_low4 unat_take_bit_mod)
  have "unat b div 16 < 16" using u8_lt [of b] by simp
  then show "unat (drop_bit 4 b AND 0x0F) = unat b div 16" by (simp add: and_low4 unat_take_bit_mod unat_drop_bit_div)
qed

lemma arpa6_loop_ok:
  assumes "length addr = 16" "i \<le> 16" "arpa = replicate (64 - 4 * i) CHR ''.'' @ concat (map arpa6_byte (rev (take i addr))) @ rest"
  shows "ipv6_arpa_loop addr i arpa = Inr (concat (map arpa6_byte (rev addr)) @ rest)"
  using assms
proof (induction addr i arpa rule: ipv6_arpa_loop.induct)
  case (1 addr i arpa)
  show ?case
  proof (cases "i < 16")
    case True
    let ?off = "60 - 4 * i" and ?C = "concat (map arpa6_byte (rev (take i addr))) @ rest"
    let ?a1 = "arpa[?off := hexmap ! unat (addr ! i AND 0x0F)]"
    let ?a2 = "?a1[?off + 2 := hexmap ! unat (drop_bit 4 (addr ! i) AND 0x0F)]"
    have "64 - 4 * i = ?off + 4" using True by simp
    then have a: "arpa = replicate ?off CHR ''.'' @ ''....'' @ ?C"
      using "1.prems"(3) replicate_add [of ?off 4 "CHR ''.''"] by (simp add: numeral_eq_Suc)
    have a2: "?a2 = replicate (64 - 4 * (i + 1)) CHR ''.'' @ arpa6_byte (addr ! i) @ ?C"
      using patch4 [of ?off "CHR ''.''" ?C] unfolding a nibbles(2) unfolding nibbles(1) arpa6_byte_def by simp
    have len: "?off + 2 < length arpa" unfolding a by simp
    have step: "ipv6_arpa_loop addr i arpa = ipv6_arpa_loop addr (i + 1) ?a2"
      using True "1.prems"(1) len by (subst ipv6_arpa_loop.simps) (simp add: Let_def mult.commute)
    have tk: "take (i + 1) addr = take i addr @ [addr ! i]" using True "1.prems"(1) by (simp add: take_Suc_conv_app_nth)
    show ?thesis unfolding step
      by (rule "1.IH" [OF True refl "1.prems"(1)]) (use True a2 tk in simp_all)
  next
    case False
    then have "i = 16" using "1.prems"(2) by simp
    then show ?thesis using "1.prems" by (simp add: ipv6_arpa_loop.simps)
  qed
qed

lemma ipv6_addr_to_arpa_ok:
  assumes "length addr = 16" "NEB_INET6_ARPASTRLEN \<le> length buf"
  shows "ipv6_addr_to_arpa addr buf = Inr (arpa6_name addr @ [nul] @ drop NEB_INET6_ARPASTRLEN buf)"
proof -
  let ?D = "concat (map arpa6_byte (rev addr))"
  have len: "length ?D = 64" using assms(1) by (simp add: length_concat o_def arpa6_byte_def sum_list_triv)
  have l: "73 \<le> length buf" using assms(2) by (simp add: NEB_INET6_ARPASTRLEN_def)
  have "ipv6_arpa_loop addr 0 (replicate 64 CHR ''.'' @ drop 64 buf) = Inr (?D @ drop 64 buf)"
    by (rule arpa6_loop_ok) (use assms(1) in simp_all)
  moreover obtain x r where "drop 72 buf = x # r" using l by (cases "drop 72 buf") auto
  moreover from this have "drop 73 buf = r" using drop_Suc [of 72 buf] by (simp add: tl_drop [symmetric] drop_Suc numeral_eq_Suc)
  ultimately show ?thesis using l len
    by (simp add: ipv6_addr_to_arpa_def NEB_INET6_ARPASTRLEN_def arpa6_name_def neb_ipv6_arpa_domain_def list_update_append)
qed

text \<open>Reading a name back: the parts up to the dots.\<close>

definition dot_head :: "string \<Rightarrow> string" where "dot_head s = takeWhile (\<lambda>c. c \<noteq> CHR ''.'') s"
definition dot_tail :: "string \<Rightarrow> string" where "dot_tail s = tl (dropWhile (\<lambda>c. c \<noteq> CHR ''.'') s)"

lemma dot_fmt_u [simp]: "dot_head (fmt_u n @ CHR ''.'' # r) = fmt_u n" "dot_tail (fmt_u n @ CHR ''.'' # r) = r"
  using fmt_u_nodot [of n] by (auto simp: dot_head_def dot_tail_def takeWhile_append dropWhile_append dropWhile_eq_Nil_conv)

definition read_arpa4 :: "string \<Rightarrow> u8 list" where
  "read_arpa4 s = (let f = (\<lambda>s. of_nat (read_dec (dot_head s))) in
     [f (dot_tail (dot_tail (dot_tail s))), f (dot_tail (dot_tail s)), f (dot_tail s), f s])"

definition arpa4_name :: "u8 list \<Rightarrow> string" where
  "arpa4_name addr = fmt_u (unat (addr ! 3)) @ ''.'' @ fmt_u (unat (addr ! 2)) @ ''.'' @ fmt_u (unat (addr ! 1)) @ ''.'' @
     fmt_u (unat (addr ! 0)) @ ''.'' @ neb_ipv4_arpa_domain"

lemma read_arpa4_name: "length addr = 4 \<Longrightarrow> read_arpa4 (arpa4_name addr) = addr"
proof -
  assume "length addr = 4"
  then obtain a b c d where "addr = [a, b, c, d]" by (auto simp: length_Suc_conv numeral_eq_Suc)
  then show ?thesis by (simp add: read_arpa4_def arpa4_name_def Let_def read_dec_fmt_u)
qed

lemma arpa4_name_length: "length (arpa4_name addr) < NEB_INET_ARPASTRLEN"
  using fmt_u_length [OF u8_lt, of "addr ! 0"] fmt_u_length [OF u8_lt, of "addr ! 1"] fmt_u_length [OF u8_lt, of "addr ! 2"] fmt_u_length [OF u8_lt, of "addr ! 3"]
  by (simp add: arpa4_name_def neb_ipv4_arpa_domain_def NEB_INET_ARPASTRLEN_def)

lemma ipv4_addr_to_arpa_ok:
  assumes "length addr = 4" "NEB_INET_ARPASTRLEN \<le> length buf"
  shows "ipv4_addr_to_arpa addr buf = Inr (arpa4_name addr @ [nul] @ drop (length (arpa4_name addr) + 1) buf)"
proof -
  let ?t = "arpa4_name addr"
  have l: "length ?t < NEB_INET_ARPASTRLEN" by (rule arpa4_name_length)
  have "snprintf buf NEB_INET_ARPASTRLEN ?t = Inr (length ?t, ?t @ [nul] @ drop (length ?t + 1) buf)"
    using l assms(2) by (simp add: snprintf_def NEB_INET_ARPASTRLEN_def)
  then show ?thesis using assms(1) by (simp add: ipv4_addr_to_arpa_def arpa4_name_def [symmetric] list_update_append) (simp add: arpa4_name_def list_update_append)
qed

text \<open>The value of a hexadecimal digit, and an IPv6 name read back.\<close>

definition hex_val :: "char \<Rightarrow> nat" where
  "hex_val c = length (takeWhile (\<lambda>d. d \<noteq> c) hexmap)"

fun read_nibbles :: "string \<Rightarrow> u8 list" where
  "read_nibbles (l # d1 # h # d2 # r) = read_nibbles r @ [of_nat (16 * hex_val h + hex_val l)]"
| "read_nibbles _ = []"

lemma hex_val_map: "n < 16 \<Longrightarrow> hex_val (hexmap ! n) = n"
proof -
  assume "n < 16"
  then have "n \<in> set [0..<16]" by simp
  moreover have "list_all (\<lambda>n. hex_val (hexmap ! n) = n) [0..<16]" by code_simp
  ultimately show ?thesis by (simp only: list_all_iff)
qed

lemma read_nibbles_name: "read_nibbles (concat (map arpa6_byte (rev addr))) = addr"
proof (induction addr rule: rev_induct)
  case (snoc b addr)
  have "unat b div 16 < 16" "unat b mod 16 < 16" using u8_lt [of b] by simp_all
  then show ?case using snoc by (simp add: arpa6_byte_def hex_val_map)
qed simp

section \<open>Numbers in network byte order\<close>

lemma be_val_less: "be_val bs < 256 ^ length bs"
proof (induction bs)
  case (Cons b bs)
  have "unat b * 256 ^ length bs + be_val bs < (unat b + 1) * 256 ^ length bs" using Cons by simp
  also have "\<dots> \<le> 256 * 256 ^ length bs" using u8_lt [of b] by (intro mult_le_mono1) simp
  finally show ?case by simp
qed simp

lemma be_val_append: "be_val (xs @ ys) = be_val xs * 256 ^ length ys + be_val ys"
  by (induction xs) (simp_all add: power_add algebra_simps)

lemma be_val_zeros: "be_val (replicate n 0) = 0"
  by (induction n) simp_all

lemma unat_ucast8: "unat (ucast (drop_bit k w :: u32) :: u8) = unat w div 2 ^ k mod 256"
  by (simp add: unsigned_ucast_eq unat_drop_bit_div take_bit_nat_def)

lemma be_val_be_bytes: "be_val (be_bytes w) = unat w"
proof -
  define n where "n = unat w"
  have "unat w < 2 ^ LENGTH(32)" by (rule unsigned_less)
  then have "n div 256 div 256 div 256 < 256" by (simp add: n_def)
  then have q: "n div 16777216 mod 256 = n div 256 div 256 div 256" "n div 65536 = n div 256 div 256" by (simp_all flip: div_mult2_eq)
  have "be_val (be_bytes w) = n div 256 div 256 div 256 * 16777216 + n div 256 div 256 mod 256 * 65536 + n div 256 mod 256 * 256 + n mod 256"
    using unat_ucast8 [of 0 w] by (simp add: be_bytes_def unat_ucast8 n_def [symmetric] q)
  also have "\<dots> = n"
    using div_mult_mod_eq [of n 256] div_mult_mod_eq [of "n div 256" 256] div_mult_mod_eq [of "n div 256 div 256" 256] by linarith
  finally show ?thesis by (simp add: n_def)
qed

lemma length_be_bytes [simp]: "length (be_bytes w) = 4"
  by (simp add: be_bytes_def)

lemma load_be32_ok:
  assumes "off + 4 \<le> length m"
  shows "\<exists>t. load_be32 m off = Inr t \<and> unat t = be_val (take 4 (drop off m))"
proof -
  have "be_val (take 4 (drop off m)) < 256 ^ 4" using be_val_less [of "take 4 (drop off m)"] assms by simp
  then have "unat (of_nat (be_val (take 4 (drop off m))) :: u32) = be_val (take 4 (drop off m))" by (simp add: unat_of_nat)
  then show ?thesis using assms by (simp add: load_be32_def)
qed

lemma store_be32_ok: "off + 4 \<le> length m \<Longrightarrow> store_be32 m off w = Inr (take off m @ be_bytes w @ drop (off + 4) m)"
  by (simp add: store_be32_def)

lemma unat_Suc_mod: "unat (t + 1 :: u32) = (unat t + 1) mod 2 ^ 32"
  by (simp add: unat_word_ariths)

lemma ipv4_next_ok:
  assumes "8 \<le> length sa"
  shows "\<exists>sa'. ipv4_addr_next sa = Inr sa' \<and> take 4 sa' = take 4 sa \<and> drop 8 sa' = drop 8 sa \<and>
    be_val (take 4 (drop 4 sa')) = (be_val (take 4 (drop 4 sa)) + 1) mod 2 ^ 32"
proof -
  obtain t where t: "load_be32 sa 4 = Inr t" "unat t = be_val (take 4 (drop 4 sa))" using load_be32_ok [of 4 sa] assms by auto
  then show ?thesis using assms store_be32_ok [of 4 sa "t + 1"] unat_Suc_mod [of t] by (simp add: ipv4_addr_next_def be_val_be_bytes)
qed

text \<open>The loop adds one to the big endian number in the first \<open>n\<close> words.\<close>

lemma ipv6_next_loop_ok:
  assumes "4 * n \<le> length p" "0 < n"
  shows "\<exists>r. ipv6_next_loop n p = Inr r \<and> length r = length p \<and> drop (4 * n) r = drop (4 * n) p \<and>
    be_val (take (4 * n) r) = (be_val (take (4 * n) p) + 1) mod 256 ^ (4 * n)"
  using assms
proof (induction n arbitrary: p)
  case (Suc i)
  have l: "4 * i + 4 \<le> length p" using Suc.prems by simp
  define A where "A = take (4 * i) p"
  define B where "B = take 4 (drop (4 * i) p)"
  define R where "R = drop (4 * i + 4) p"
  have p: "p = A @ B @ R" unfolding A_def B_def R_def by (metis add.commute append_take_drop_id drop_drop)
  have len: "length A = 4 * i" "length B = 4" using l by (simp_all add: A_def B_def)
  obtain t where t: "load_be32 p (4 * i) = Inr t" "unat t = be_val B" using load_be32_ok [OF l] by (auto simp: B_def)
  have st: "store_be32 p (4 * i) w = Inr (A @ be_bytes w @ R)" for w using store_be32_ok [OF l] by (simp add: A_def R_def)
  have tk: "take (4 * Suc i) (A @ be_bytes w @ R) = A @ be_bytes w" "take (4 * Suc i) p = A @ B" "drop (4 * Suc i) p = R" "drop (4 * Suc i) (A @ be_bytes w @ R) = R" "length (A @ be_bytes w @ R) = length p" for w
    using len by (simp_all add: p)
  have pw: "(256::nat) ^ (4 * Suc i) = 256 ^ (4 * i) * 4294967296" by (simp add: power_add)
  have Ab: "be_val A < 256 ^ (4 * i)" using be_val_less [of A] len by simp
  show ?case
  proof (cases "t = 0xFFFFFFFF")
    case False
    then have "unat t \<noteq> unat (0xFFFFFFFF :: u32)" by (metis word_unat_eq_iff)
    then have "unat t \<noteq> 4294967295" by simp
    moreover have "unat t < 2 ^ LENGTH(32)" by (rule unsigned_less)
    ultimately have ut: "unat (t + 1) = unat t + 1" "unat t + 1 < 4294967296" using unat_Suc_mod [of t] by simp_all
    have v: "be_val (A @ be_bytes (t + 1)) = be_val (A @ B) + 1" using ut t(2) len by (simp add: be_val_append be_val_be_bytes)
    have "(be_val A + 1) * 4294967296 \<le> 256 ^ (4 * i) * 4294967296" using Ab by (intro mult_le_mono1) simp
    then have "be_val (A @ B) + 1 < 256 ^ (4 * Suc i)" using ut(2) t(2) len unfolding pw by (simp add: be_val_append)
    then have "be_val (take (4 * Suc i) (A @ be_bytes (t + 1) @ R)) = (be_val (take (4 * Suc i) p) + 1) mod 256 ^ (4 * Suc i)"
      unfolding tk(1,2) v by simp
    then show ?thesis using False t(1) st [of "t + 1"] tk(3) tk(4,5) [of "t + 1"] by (intro exI [of _ "A @ be_bytes (t + 1) @ R"]) simp
  next
    case True
    then have B: "be_val B = 4294967295" using t(2) by simp
    let ?p = "A @ be_bytes 0 @ R"
    have step: "ipv6_next_loop (Suc i) p = ipv6_next_loop i ?p" using True t(1) st by simp
    have AB: "be_val (A @ B) + 1 = (be_val A + 1) * 4294967296" using B len by (simp add: be_val_append)
    show ?thesis
    proof (cases "i = 0")
      case True
      then have "A = []" using len by simp
      then show ?thesis using step True AB len by (simp add: be_val_be_bytes p)
    next
      case False
      obtain r where r: "ipv6_next_loop i ?p = Inr r" "length r = length ?p" "drop (4 * i) r = be_bytes 0 @ R"
        "be_val (take (4 * i) r) = (be_val A + 1) mod 256 ^ (4 * i)" using Suc.IH [of ?p] False len by auto
      have r': "r = take (4 * i) r @ be_bytes 0 @ R" using r(3) by (metis append_take_drop_id)
      have lr: "length (take (4 * i) r) = 4 * i" using r(2) len by simp
      have tr: "take (4 * Suc i) r = take (4 * i) r @ be_bytes 0" "drop (4 * Suc i) r = R"
        using lr by (subst r', simp)+
      have "be_val (take (4 * Suc i) r) = (be_val A + 1) mod 256 ^ (4 * i) * 4294967296"
        unfolding tr be_val_append using r(4) by (simp add: be_val_be_bytes)
      also have "\<dots> = (be_val (A @ B) + 1) mod 256 ^ (4 * Suc i)" unfolding AB pw by (rule mult_mod_left)
      finally show ?thesis using step r(1,2) tr tk(2,3) len by (simp add: p del: mult_Suc_right)
    qed
  qed
qed simp

section \<open>Masks\<close>

lemma fill_mask_byte:
  assumes "0 \<le> p" "p \<le> 8"
  shows "unat (word_of_int (255 * 2 ^ nat (8 - p)) :: u8) = (2 ^ nat p - 1) * 2 ^ (8 - nat p)"
proof -
  have "nat p \<in> set [0..<9]" using assms by auto
  moreover have "list_all (\<lambda>k. unat (word_of_int (255 * 2 ^ (8 - k)) :: u8) = (2 ^ k - 1) * 2 ^ (8 - k)) [0..<9]" by code_simp
  ultimately have "unat (word_of_int (255 * 2 ^ (8 - nat p)) :: u8) = (2 ^ nat p - 1) * 2 ^ (8 - nat p)" by (simp only: list_all_iff)
  moreover have "nat (8 - p) = 8 - nat p" using assms by simp
  ultimately show ?thesis by simp
qed

lemma set_at_head:
  assumes "drop off xs = x # r"
  shows "off < length xs" "array_set xs off y = Inr (take off xs @ y # r)"
proof -
  show l: "off < length xs" using assms by (cases "off < length xs") simp_all
  have "drop (Suc off) xs = r" using assms by (metis drop_Suc list.sel(3) tl_drop)
  then show "array_set xs off y = Inr (take off xs @ y # r)" using l by (simp add: upd_conv_take_nth_drop)
qed

lemma fill_mask_ok:
  assumes "drop off addr = replicate (Suc n) 0" "0 \<le> prefix" "prefix \<le> 8 * int (Suc n)"
  shows "\<exists>m. neb_netinet_fill_mask addr off prefix = Inr (take off addr @ m) \<and> length m = Suc n \<and>
    be_val m = (2 ^ nat prefix - 1) * 2 ^ (8 * Suc n - nat prefix)"
  using assms
proof (induction n arbitrary: addr off prefix)
  case 0
  then have "drop off addr = [0]" by simp
  then have "neb_netinet_fill_mask addr off prefix = Inr (take off addr @ [word_of_int (255 * 2 ^ nat (8 - prefix))])"
    using 0 by (subst neb_netinet_fill_mask.simps) (simp only: set_at_head, simp)
  then show ?case using fill_mask_byte [of prefix] 0 by (intro exI [of _ "[word_of_int (255 * 2 ^ nat (8 - prefix))]"]) (simp del: of_int_mult of_int_power)
next
  case (Suc n)
  have d: "drop off addr = 0 # replicate (Suc n) 0" using Suc.prems by simp
  show ?case
  proof (cases "prefix > 8")
    case False
    let ?b = "word_of_int (255 * 2 ^ nat (8 - prefix)) :: u8"
    have e: "8 * Suc (Suc n) - nat prefix = (8 - nat prefix) + 8 * Suc n" using False Suc.prems by simp
    have "(256::nat) ^ Suc n = 2 ^ (8 * Suc n)" by (subst power_mult) simp
    then have "be_val (?b # replicate (Suc n) 0) = (2 ^ nat prefix - 1) * 2 ^ (8 * Suc (Suc n) - nat prefix)"
      unfolding e power_add using fill_mask_byte [of prefix] False Suc.prems(2) be_val_zeros [of "Suc n"] by (simp del: replicate_Suc power_Suc mult_Suc_right)
    moreover have "neb_netinet_fill_mask addr off prefix = Inr (take off addr @ ?b # replicate (Suc n) 0)"
      using False Suc.prems(2) set_at_head(2) [OF d, of ?b] by (subst neb_netinet_fill_mask.simps) simp
    ultimately show ?thesis by (intro exI [of _ "?b # replicate (Suc n) 0"]) simp
  next
    case True
    let ?a = "take off addr @ 255 # replicate (Suc n) 0"
    have step: "neb_netinet_fill_mask addr off prefix = neb_netinet_fill_mask ?a (off + 1) (prefix - 8)"
      using True set_at_head(2) [OF d, of 255] by (subst neb_netinet_fill_mask.simps) simp
    have lo: "length (take off addr) = off" using set_at_head(1) [OF d] by simp
    then have "drop (off + 1) ?a = replicate (Suc n) 0" by simp
    from Suc.IH [OF this, of "prefix - 8"] True Suc.prems(3) obtain m where
      m: "neb_netinet_fill_mask ?a (off + 1) (prefix - 8) = Inr (take (off + 1) ?a @ m)" "length m = Suc n"
        "be_val m = (2 ^ nat (prefix - 8) - 1) * 2 ^ (8 * Suc n - nat (prefix - 8))" by auto
    define k where "k = nat (prefix - 8)"
    define e where "e = 8 * Suc n - k"
    have k: "nat prefix = k + 8" "8 * Suc n = k + e" "8 * Suc (Suc n) - nat prefix = e" using True Suc.prems(3) by (auto simp: k_def e_def)
    have "(256::nat) ^ Suc n = 2 ^ (8 * Suc n)" by (subst power_mult) simp
    then have pw: "(256::nat) ^ Suc n = 2 ^ k * 2 ^ e" unfolding k(2) power_add .
    have u: "unat (255 :: u8) = 255" by simp
    have "be_val (255 # m) = 255 * (2 ^ k * 2 ^ e) + (2 ^ k - 1) * 2 ^ e"
      unfolding be_val.simps m(2,3) u pw k_def [symmetric] e_def [symmetric] ..
    also have "\<dots> = (2 ^ (k + 8) - 1) * 2 ^ e"
    proof -
      have "(1::nat) \<le> 2 ^ k" by simp
      then obtain j where "(2::nat) ^ k = Suc j" by (metis not0_implies_Suc not_one_le_zero)
      then show ?thesis by (simp add: power_add algebra_simps)
    qed
    finally show ?thesis using step m(1,2) lo k(1,3) by (intro exI [of _ "255 # m"]) (simp del: mult_Suc_right)
  qed
qed

lemma fill_mask_oob: "8 * int (length addr - off) < prefix \<Longrightarrow> neb_netinet_fill_mask addr off prefix = Inl OutOfBounds"
proof (induction addr off prefix rule: neb_netinet_fill_mask.induct)
  case (1 addr off prefix)
  show ?case
  proof (cases "off < length addr")
    case True
    then have "8 < prefix" using "1.prems" by linarith
    then show ?thesis using 1(1) [of "addr[off := 255]"] "1.prems" True by (subst neb_netinet_fill_mask.simps) (simp add: array_set_def)
  next
    case False
    then show ?thesis using "1.prems" by (subst neb_netinet_fill_mask.simps) (simp add: array_set_def)
  qed
qed

section \<open>Networks\<close>

lemma split_slash:
  assumes "CHR ''/'' \<notin> set a"
  shows "dropWhile (\<lambda>c. c \<noteq> CHR ''/'') (a @ CHR ''/'' # r) = CHR ''/'' # r" "takeWhile (\<lambda>c. c \<noteq> CHR ''/'') (a @ CHR ''/'' # r) = a"
  using assms by (auto simp: dropWhile_append takeWhile_append dropWhile_eq_Nil_conv)

section \<open>Properties\<close>

text \<open>C29. The reverse lookup name fits its buffer, is ended by a null byte, leaves the rest of the buffer alone, and can be read
  back to the address: four decimal numbers in reverse for IPv4, thirty two nibbles in reverse for IPv6.\<close>

theorem arpa_roundtrip:
  assumes "length a4 = 4" "length a6 = 16" "NEB_INET_ARPASTRLEN \<le> length buf4" "NEB_INET6_ARPASTRLEN \<le> length buf6"
  shows "\<exists>s4 s6. neb_netinet_addr_to_arpa AF_INET a4 buf4 = Inr (s4 @ [nul] @ drop (length s4 + 1) buf4) \<and>
    length s4 < NEB_INET_ARPASTRLEN \<and> read_arpa4 s4 = a4 \<and>
    neb_netinet_addr_to_arpa AF_INET6 a6 buf6 = Inr (s6 @ [nul] @ drop (length s6 + 1) buf6) \<and>
    length s6 = NEB_INET6_ARPASTRLEN - 1 \<and> read_nibbles (take 64 s6) = a6 \<and> drop 64 s6 = neb_ipv6_arpa_domain"
proof -
  have len: "length (concat (map arpa6_byte (rev a6))) = 64" using assms(2) by (simp add: length_concat o_def arpa6_byte_def sum_list_triv)
  then have l6: "length (arpa6_name a6) = NEB_INET6_ARPASTRLEN - 1" "length (arpa6_name a6) + 1 = NEB_INET6_ARPASTRLEN"
    "take 64 (arpa6_name a6) = concat (map arpa6_byte (rev a6))" "drop 64 (arpa6_name a6) = neb_ipv6_arpa_domain"
    by (simp_all add: arpa6_name_def neb_ipv6_arpa_domain_def NEB_INET6_ARPASTRLEN_def)
  show ?thesis
    using ipv4_addr_to_arpa_ok [OF assms(1,3)] ipv6_addr_to_arpa_ok [OF assms(2,4)] l6 read_nibbles_name [of a6] read_arpa4_name [OF assms(1)] arpa4_name_length [of a4]
    by (intro exI [of _ "arpa4_name a4"] exI [of _ "arpa6_name a6"]) (simp add: neb_netinet_addr_to_arpa_def)
qed

theorem arpa_roundtrip_witness:
  "\<exists>s4 s6. neb_netinet_addr_to_arpa AF_INET [192, 168, 0, 1] (replicate 29 nul) = Inr (s4 @ [nul] @ drop (length s4 + 1) (replicate 29 nul)) \<and>
    length s4 < NEB_INET_ARPASTRLEN \<and> read_arpa4 s4 = [192, 168, 0, 1] \<and>
    neb_netinet_addr_to_arpa AF_INET6 (replicate 15 0 @ [1]) (replicate 80 nul) = Inr (s6 @ [nul] @ drop (length s6 + 1) (replicate 80 nul)) \<and>
    length s6 = NEB_INET6_ARPASTRLEN - 1 \<and> read_nibbles (take 64 s6) = replicate 15 0 @ [1] \<and> drop 64 s6 = neb_ipv6_arpa_domain"
  by (rule arpa_roundtrip) (simp_all add: NEB_INET_ARPASTRLEN_def NEB_INET6_ARPASTRLEN_def)

text \<open>C30. The next IPv4 address is the address plus one, modulo 2 to the 32. For IPv6 the code adds one to the first sixteen bytes
  of the socket address, not to the address: the low half of the address never changes, so the result is never the
  next address.\<close>

theorem addr_next_values:
  assumes "16 \<le> length sa4" "length sa6 = 28"
  shows "\<exists>r4 r6. neb_netinet_addr_next AF_INET sa4 = Inr r4 \<and> take 4 r4 = take 4 sa4 \<and> drop 8 r4 = drop 8 sa4 \<and>
    be_val (take 4 (drop 4 r4)) = (be_val (take 4 (drop 4 sa4)) + 1) mod 2 ^ 32 \<and>
    neb_netinet_addr_next AF_INET6 sa6 = Inr r6 \<and> drop 16 r6 = drop 16 sa6 \<and>
    be_val (take 16 r6) = (be_val (take 16 sa6) + 1) mod 2 ^ 128 \<and>
    be_val (take 16 (drop 8 r6)) \<noteq> (be_val (take 16 (drop 8 sa6)) + 1) mod 2 ^ 128"
proof -
  obtain r6 where r6: "ipv6_next_loop 4 sa6 = Inr r6" "length r6 = 28" "drop 16 r6 = drop 16 sa6"
    "be_val (take 16 r6) = (be_val (take 16 sa6) + 1) mod 256 ^ 16" using ipv6_next_loop_ok [of 4 sa6] assms(2) by auto
  have low: "be_val (take 16 (drop 8 s)) mod 2 ^ 64 = be_val (take 8 (drop 16 s))" if "length s = 28" for s
  proof -
    have "take 16 (drop 8 s) = take 8 (drop 8 s) @ take 8 (drop 16 s)" using take_add [of 8 8 "drop 8 s"] by simp
    moreover have "length (take 8 (drop 16 s)) = 8" using that by simp
    moreover from this have "be_val (take 8 (drop 16 s)) < 2 ^ 64" using be_val_less [of "take 8 (drop 16 s)"] by simp
    ultimately show ?thesis by (simp add: be_val_append)
  qed
  have "be_val (take 16 (drop 8 r6)) \<noteq> (be_val (take 16 (drop 8 sa6)) + 1) mod 2 ^ 128"
  proof
    assume "be_val (take 16 (drop 8 r6)) = (be_val (take 16 (drop 8 sa6)) + 1) mod 2 ^ 128"
    then have "be_val (take 16 (drop 8 r6)) mod 2 ^ 64 = (be_val (take 16 (drop 8 sa6)) + 1) mod 2 ^ 64"
      using mod_mod_cancel [OF le_imp_power_dvd [of 64 128 "2 :: nat"], of "be_val (take 16 (drop 8 sa6)) + 1"] by simp
    then have "be_val (take 16 (drop 8 sa6)) mod 2 ^ 64 = (be_val (take 16 (drop 8 sa6)) + 1) mod 2 ^ 64"
      using low [OF r6(2)] low [OF assms(2)] r6(3) by simp
    then show False using mod_Suc_eq [of "be_val (take 16 (drop 8 sa6))" "2 ^ 64"] by (simp add: mod_Suc split: if_splits)
  qed
  then show ?thesis using ipv4_next_ok [of sa4] assms(1) r6 by (auto simp: neb_netinet_addr_next_def ipv6_addr_next_def)
qed

theorem addr_next_values_witness:
  "\<exists>r4 r6. neb_netinet_addr_next AF_INET (replicate 16 255) = Inr r4 \<and> neb_netinet_addr_next AF_INET6 (replicate 28 255) = Inr r6 \<and>
    be_val (take 16 (drop 8 r6)) \<noteq> (be_val (take 16 (drop 8 (replicate 28 255))) + 1) mod 2 ^ 128"
  using addr_next_values [of "replicate 16 255" "replicate 28 255"] by auto

text \<open>C31. On an all zero address of \<open>n\<close> bytes the mask of every prefix that fits has exactly the
  leading bits set; a longer prefix writes behind the address.\<close>

theorem fill_mask_exact:
  assumes "0 < n" "0 \<le> prefix"
  shows "if prefix \<le> 8 * int n
    then \<exists>m. neb_netinet_fill_mask (replicate n 0) 0 prefix = Inr m \<and> length m = n \<and> be_val m = (2 ^ nat prefix - 1) * 2 ^ (8 * n - nat prefix)
    else neb_netinet_fill_mask (replicate n 0) 0 prefix = Inl OutOfBounds"
proof -
  obtain k where "n = Suc k" using assms(1) gr0_implies_Suc by blast
  then show ?thesis using fill_mask_ok [of 0 "replicate n 0" k prefix] fill_mask_oob [of "replicate n 0" 0 prefix] assms(2)
    by (simp del: replicate_Suc mult_Suc_right)
qed

theorem fill_mask_exact_witness:
  "\<exists>m. neb_netinet_fill_mask (replicate 4 0) 0 20 = Inr m \<and> length m = 4 \<and> be_val m = (2 ^ 20 - 1) * 2 ^ 12"
  using fill_mask_exact [of 4 20] by simp

text \<open>C32. An IPv6 network given as an address, a slash and a prefix length up to 128 in decimal is accepted exactly when the
  address is, with that prefix length; without a slash the prefix length is 128. An empty prefix length is accepted as
  zero, and whatever is accepted has a prefix length of at most 128.\<close>

theorem net_pton6_exact:
  assumes "CHR ''/'' \<notin> set a" "length a < INET6_ADDRSTRLEN" "n \<le> 128"
  shows "neb_netinet_net_pton f g AF_INET6 (a @ ''/'' @ fmt_u n) = map_option (\<lambda>x. (x, of_nat n)) (g a) \<and>
    neb_netinet_net_pton f g AF_INET6 a = map_option (\<lambda>x. (x, 128)) (g a) \<and>
    neb_netinet_net_pton f g AF_INET6 (a @ ''/'') = map_option (\<lambda>x. (x, 0)) (g a) \<and>
    (\<forall>s x p. neb_netinet_net_pton f g AF_INET6 s = Some (x, p) \<longrightarrow> p \<le> 128)"
proof -
  have dw: "dropWhile (\<lambda>c. c \<noteq> CHR ''/'') a = []" using assms(1) by (auto simp: dropWhile_eq_Nil_conv)
  have 1: "neb_netinet_net_pton f g AF_INET6 a = map_option (\<lambda>x. (x, 128)) (g a)"
    unfolding neb_netinet_net_pton_def ipv6_net_pton_def dw by (simp add: option.map_comp o_def)
  have 2: "neb_netinet_net_pton f g AF_INET6 (a @ CHR ''/'' # r) = map_option (\<lambda>x. (x, of_nat m)) (g a)"
    if "strtol r = (int m, [])" "m \<le> 128" for r m
    using that assms(2) split_slash [OF assms(1), of r] by (simp add: neb_netinet_net_pton_def ipv6_net_pton_def option.map_comp o_def Let_def)
  have b: "p \<le> (128 :: u16)" if pb: "0 \<le> b" "b \<le> 128" "p = of_int b" for b :: int and p
  proof -
    obtain k where "b = int k" using pb(1) nonneg_int_cases by blast
    then have p: "p = of_nat k" "k \<le> 128" using pb by simp_all
    have "unat (of_nat k :: u16) = k" using p(2) by (simp add: unat_of_nat)
    then show ?thesis unfolding p(1) word_le_nat_alt using p(2) by simp
  qed
  have "\<exists>q. ipv6_net_pton g s = Some (x, q) \<and> p = of_int q" if "neb_netinet_net_pton f g AF_INET6 s = Some (x, p)" for s x p
    using that by (auto simp: neb_netinet_net_pton_def)
  moreover have "0 \<le> q \<and> q \<le> 128" if "ipv6_net_pton g s = Some (x, q)" for s x q
    using that by (auto simp: ipv6_net_pton_def Let_def split: list.splits prod.splits if_splits)
  ultimately have "\<forall>s x p. neb_netinet_net_pton f g AF_INET6 s = Some (x, p) \<longrightarrow> p \<le> 128" using b by metis
  then show ?thesis using 1 2 [OF strtol_fmt_u assms(3)] assms(3) 2 [of "[]" 0] strtol_empty by simp
qed

theorem net_pton6_exact_witness:
  "neb_netinet_net_pton (\<lambda>s. None) (\<lambda>s. if s = ''::1'' then Some (replicate 15 0 @ [1]) else None) AF_INET6 (''::1'' @ ''/'' @ fmt_u 64) =
     Some (replicate 15 0 @ [1], 64)"
  using net_pton6_exact [of "''::1''" 64 "\<lambda>s. None" "\<lambda>s. if s = ''::1'' then Some (replicate 15 0 @ [1]) else None"]
  by (simp add: INET6_ADDRSTRLEN_def)

end
