(* ===== verification/Neb_Copy.thy ===== *)
theory Neb_Copy
  imports Neb_Prelude
begin

text \<open>
  Model of \<^verbatim>\<open>src/src/file/copy.c\<close> (Linux with \<open>sendfile\<close> and
  \<open>copy_file_range\<close>): copying between two files with fallbacks from one system call to
  the next. The state is what the two descriptors refer to; an argument decides, for every system call, its error or how many bytes it transfers.
\<close>

section \<open>Files and system calls\<close>

record copy_io =
  in_data :: "u8 list"
  in_pos :: nat
  out_data :: "u8 list"

datatype copy_call = Read nat | Write nat | LseekCur | LseekSet int | Sendfile nat | CopyRange nat

datatype copy_err = ENOSYS | EINVAL | EXDEV | EOTHER

type_synonym copy_kernel = "copy_io \<Rightarrow> copy_call \<Rightarrow> copy_err + nat"

definition NEB_FILE_COPY_BUFFER_SIZE :: nat where "NEB_FILE_COPY_BUFFER_SIZE = 262144"

text \<open>Writing the buffer: \<open>nr\<close> bytes are left, \<open>offset\<close> bytes were written.\<close>

function write_loop :: "copy_kernel \<Rightarrow> u8 list \<Rightarrow> nat \<Rightarrow> int \<Rightarrow> copy_io \<Rightarrow> bool \<times> copy_io" where
  "write_loop k buf offset nr w =
     (if nr > 0 then
        (case k w (Write (nat nr)) of
           Inl e \<Rightarrow> (False, w)
         | Inr nw \<Rightarrow> if nw = 0 then (False, w)
             else write_loop k buf (offset + nw) (nr - int nw)
                    (w\<lparr>out_data := out_data w @ take nw (drop offset buf)\<rparr>))
      else (True, w))"
  by pat_completeness auto
termination
  by (relation "measure (\<lambda>(k, buf, offset, nr, w). nat nr)") auto

declare write_loop.simps [simp del]

text \<open>The loop of the buffered copy: a kernel that answers more bytes than were asked for has written behind the
  buffer.\<close>

function buffered_loop :: "copy_kernel \<Rightarrow> nat \<Rightarrow> nat \<Rightarrow> copy_io \<Rightarrow> (int \<times> copy_io) outcome" where
  "buffered_loop k cnt left w =
     (if left > 0 then
        (let tr = min left NEB_FILE_COPY_BUFFER_SIZE in
         case k w (Read tr) of
           Inl e \<Rightarrow> Inr (int cnt - int left, w)
         | Inr nr \<Rightarrow>
             if nr = 0 then Inr (int cnt - int left, w)
             else if nr > tr then Inl OutOfBounds
             else (case write_loop k (take nr (drop (in_pos w) (in_data w))) 0 (int nr) (w\<lparr>in_pos := in_pos w + nr\<rparr>) of
                     (ok, w') \<Rightarrow> if ok then buffered_loop k cnt (left - nr) w' else Inr (-1, w')))
      else Inr (int cnt, w))"
  by pat_completeness auto
termination
  by (relation "measure (\<lambda>(k, cnt, left, w). left)") auto

declare buffered_loop.simps [simp del]

definition neb_file_buffered_copy :: "copy_kernel \<Rightarrow> nat \<Rightarrow> copy_io \<Rightarrow> (int \<times> copy_io) outcome" where
  "neb_file_buffered_copy k cnt w = buffered_loop k cnt cnt w"

definition lseek_set :: "copy_kernel \<Rightarrow> int \<Rightarrow> copy_io \<Rightarrow> copy_io option" where
  "lseek_set k off w = (if off < 0 then None else case k w (LseekSet off) of Inl e \<Rightarrow> None | Inr _ \<Rightarrow> Some (w\<lparr>in_pos := nat off\<rparr>))"

text \<open>The optional offset is passed by reference; the result has its new value.\<close>

definition neb_file_buffered_copy_with_offset ::
  "copy_kernel \<Rightarrow> int option \<Rightarrow> nat \<Rightarrow> copy_io \<Rightarrow> (int \<times> int option \<times> copy_io) outcome" where
  "neb_file_buffered_copy_with_offset k offset cnt w =
     (case offset of
        Some off \<Rightarrow>
          (let old_offset = (case k w LseekCur of Inl e \<Rightarrow> -1 | Inr _ \<Rightarrow> int (in_pos w)) in
           case lseek_set k off w of
             None \<Rightarrow> Inr (-1, offset, w)
           | Some w1 \<Rightarrow>
               obind (neb_file_buffered_copy k cnt w1) (\<lambda>(nc, w2).
                 let off' = (if nc > 0 then off + nc else off) in
                 case lseek_set k old_offset w2 of
                   None \<Rightarrow> Inr (-1, Some off', w2)
                 | Some w3 \<Rightarrow> Inr (nc, Some off', w3)))
      | None \<Rightarrow> obind (neb_file_buffered_copy k cnt w) (\<lambda>(nc, w'). Inr (nc, None, w')))"

text \<open>What the two copying system calls do with the offset, the position and the output.\<close>

definition transfer :: "int option \<Rightarrow> nat \<Rightarrow> copy_io \<Rightarrow> int \<times> int option \<times> copy_io" where
  "transfer offset n w =
     (case offset of
        Some off \<Rightarrow> (int n, Some (off + int n), w\<lparr>out_data := out_data w @ take n (drop (nat off) (in_data w))\<rparr>)
      | None \<Rightarrow> (int n, None, w\<lparr>in_pos := in_pos w + n, out_data := out_data w @ take n (drop (in_pos w) (in_data w))\<rparr>))"

definition neb_file_sys_copy :: "copy_kernel \<Rightarrow> int option \<Rightarrow> nat \<Rightarrow> copy_io \<Rightarrow> (int \<times> int option \<times> copy_io) outcome" where
  "neb_file_sys_copy k offset cnt w =
     (case k w (Sendfile cnt) of
        Inr n \<Rightarrow> Inr (transfer offset n w)
      | Inl e \<Rightarrow>
          if e = ENOSYS \<or> e = EINVAL then neb_file_buffered_copy_with_offset k offset cnt w
          else Inr (-1, offset, w))"

definition neb_file_fs_copy :: "copy_kernel \<Rightarrow> int option \<Rightarrow> nat \<Rightarrow> copy_io \<Rightarrow> (int \<times> int option \<times> copy_io) outcome" where
  "neb_file_fs_copy k offset cnt w =
     (case k w (CopyRange cnt) of
        Inr n \<Rightarrow> Inr (transfer offset n w)
      | Inl e \<Rightarrow>
          if e = ENOSYS \<or> e = EINVAL \<or> e = EXDEV then neb_file_sys_copy k offset cnt w
          else Inr (-1, offset, w))"

section \<open>Correctness\<close>

text \<open>What the system calls promise: a read or a write does not transfer more than was asked for or than the file has,
  and the copying calls fail on a negative offset.\<close>

definition reads_from :: "int option \<Rightarrow> copy_io \<Rightarrow> nat" where
  "reads_from offset w = (case offset of Some off \<Rightarrow> nat off | None \<Rightarrow> in_pos w)"

definition kernel_ok :: "copy_kernel \<Rightarrow> int option \<Rightarrow> bool" where
  "kernel_ok k offset \<longleftrightarrow>
     (\<forall>w n m. k w (Read n) = Inr m \<longrightarrow> m \<le> n \<and> m \<le> length (in_data w) - in_pos w) \<and>
     (\<forall>w n m. k w (Write n) = Inr m \<longrightarrow> m \<le> n) \<and>
     (\<forall>w n m. k w (Sendfile n) = Inr m \<or> k w (CopyRange n) = Inr m \<longrightarrow>
        m \<le> n \<and> m \<le> length (in_data w) - reads_from offset w \<and> (\<forall>off. offset = Some off \<longrightarrow> 0 \<le> off))"

lemma kernel_okD:
  assumes "kernel_ok k offset"
  shows "k w (Read n) = Inr m \<Longrightarrow> m \<le> n \<and> m \<le> length (in_data w) - in_pos w"
    and "k w (Write n) = Inr m \<Longrightarrow> m \<le> n"
    and "k w (Sendfile n) = Inr m \<or> k w (CopyRange n) = Inr m \<Longrightarrow>
      m \<le> n \<and> m \<le> length (in_data w) - reads_from offset w \<and> (\<forall>off. offset = Some off \<longrightarrow> 0 \<le> off)"
  using assms unfolding kernel_ok_def by blast+

lemma write_loop_ok:
  assumes "kernel_ok k offset0" "offset + nat nr = length buf" "0 \<le> nr"
  shows "\<exists>p. p \<le> nat nr \<and> write_loop k buf offset nr w = (p = nat nr, w\<lparr>out_data := out_data w @ take p (drop offset buf)\<rparr>)"
  using assms
proof (induction k buf offset nr w rule: write_loop.induct)
  case (1 k buf offset nr w)
  show ?case
  proof (cases "nr > 0")
    case False
    then show ?thesis using "1.prems" by (intro exI [of _ 0]) (simp add: write_loop.simps)
  next
    case True
    show ?thesis
    proof (cases "k w (Write (nat nr))")
      case (Inl e)
      then show ?thesis using True by (intro exI [of _ 0]) (simp add: write_loop.simps [of k buf offset nr w])
    next
      case (Inr nw)
      show ?thesis
      proof (cases "nw = 0")
        case True
        then show ?thesis using \<open>nr > 0\<close> Inr by (intro exI [of _ 0]) (simp add: write_loop.simps [of k buf offset nr w])
      next
        case False
        have nw: "nw \<le> nat nr" using kernel_okD(2) [OF "1.prems"(1) Inr] .
        let ?w = "w\<lparr>out_data := out_data w @ take nw (drop offset buf)\<rparr>"
        have ar: "offset + nw + nat (nr - int nw) = length buf" "0 \<le> nr - int nw" using "1.prems"(2,3) nw by (simp_all add: nat_diff_distrib le_nat_iff)
        have step: "write_loop k buf offset nr w = write_loop k buf (offset + nw) (nr - int nw) ?w"
          using True Inr False by (subst write_loop.simps) simp
        obtain p where p: "p \<le> nat (nr - int nw)" "write_loop k buf (offset + nw) (nr - int nw) ?w =
            (p = nat (nr - int nw), ?w\<lparr>out_data := out_data ?w @ take p (drop (offset + nw) buf)\<rparr>)"
          using "1.IH" [OF True Inr False "1.prems"(1) ar] by auto
        have "take (nw + p) (drop offset buf) = take nw (drop offset buf) @ take p (drop (offset + nw) buf)"
          by (simp add: take_add add.commute)
        then show ?thesis using step p nw by (intro exI [of _ "nw + p"]) auto
      qed
    qed
  qed
qed

text \<open>The output gained \<open>p\<close> bytes of the input from \<open>start\<close> on.\<close>

definition copied :: "nat \<Rightarrow> nat \<Rightarrow> copy_io \<Rightarrow> copy_io \<Rightarrow> bool" where
  "copied start p w w' \<longleftrightarrow> in_data w' = in_data w \<and> out_data w' = out_data w @ take p (drop start (in_data w)) \<and>
     p \<le> length (in_data w) - start"

lemma copied_trans:
  assumes "copied s p w w1" "copied (s + p) q w1 w2"
  shows "copied s (p + q) w w2"
  using assms by (auto simp: copied_def take_add add.commute)

lemma buffered_loop_ok:
  assumes "kernel_ok k offset0" "left \<le> cnt"
  shows "\<exists>n w' p. buffered_loop k cnt left w = Inr (n, w') \<and> copied (in_pos w) p w w' \<and> p \<le> left \<and>
    (n = -1 \<or> n = int (cnt - left + p) \<and> in_pos w' = in_pos w + p)"
  using assms
proof (induction k cnt left w rule: buffered_loop.induct)
  case (1 k cnt left w)
  let ?tr = "min left NEB_FILE_COPY_BUFFER_SIZE"
  have stop: ?case if "buffered_loop k cnt left w = Inr (int cnt - int left, w)"
    using that "1.prems"(2) by (intro exI [of _ "int cnt - int left"] exI [of _ w] exI [of _ 0]) (simp add: copied_def of_nat_diff)
  show ?case
  proof (cases "left > 0")
    case False
    then show ?thesis by (intro stop) (simp add: buffered_loop.simps)
  next
    case True
    show ?thesis
    proof (cases "k w (Read ?tr)")
      case (Inl e)
      then show ?thesis using True by (intro stop) (simp add: buffered_loop.simps [of k cnt left w] Let_def)
    next
      case (Inr nr)
      have nr: "nr \<le> ?tr" "nr \<le> length (in_data w) - in_pos w" using kernel_okD(1) [OF "1.prems"(1) Inr] by auto
      show ?thesis
      proof (cases "nr = 0")
        case True
        then show ?thesis using \<open>left > 0\<close> Inr by (intro stop) (simp add: buffered_loop.simps [of k cnt left w] Let_def)
      next
        case False
        let ?buf = "take nr (drop (in_pos w) (in_data w))"
        let ?w = "w\<lparr>in_pos := in_pos w + nr\<rparr>"
        have lb: "length ?buf = nr" using nr by simp
        obtain p where p: "p \<le> nr" "write_loop k ?buf 0 (int nr) ?w = (p = nr, ?w\<lparr>out_data := out_data w @ take p ?buf\<rparr>)"
          using write_loop_ok [OF "1.prems"(1), of 0 "int nr" ?buf ?w] lb by auto
        define w1 where "w1 = ?w\<lparr>out_data := out_data w @ take p ?buf\<rparr>"
        have c1: "copied (in_pos w) p w w1" "in_pos w1 = in_pos w + nr" using p(1) nr(2) by (auto simp: copied_def w1_def min_def)
        have nt: "(?tr < nr) = False" using nr(1) by (simp only: not_less [symmetric] simp_thms)
        have step: "buffered_loop k cnt left w = (if p = nr then buffered_loop k cnt (left - nr) w1 else Inr (-1, w1))"
          using True False Inr p(2) nt by (simp add: buffered_loop.simps [of k cnt left w] Let_def w1_def del: min_less_iff_disj)
        show ?thesis
        proof (cases "p = nr")
          case False
          then show ?thesis using step c1 p(1) nr(1) by (intro exI [of _ "-1"] exI [of _ w1] exI [of _ p]) simp
        next
          case pn: True
          have "\<not> nr > ?tr" by (simp only: nt not_False_eq_True)
          moreover have "left - nr \<le> cnt" using "1.prems"(2) by simp
          ultimately obtain n w' q where q: "buffered_loop k cnt (left - nr) w1 = Inr (n, w')" "copied (in_pos w1) q w1 w'" "q \<le> left - nr"
            "n = -1 \<or> n = int (cnt - (left - nr) + q) \<and> in_pos w' = in_pos w1 + q"
            using "1.IH" [OF True refl Inr False _ p(2) [symmetric, unfolded w1_def [symmetric]] _ "1.prems"(1)] pn "1.prems"(2)
            by (auto simp: w1_def)
          have "copied (in_pos w) (nr + q) w w'" using copied_trans [OF c1(1)] q(2) c1(2) pn by simp
          then show ?thesis using step pn q c1(2) nr(1) "1.prems"(2)
            by (intro exI [of _ n] exI [of _ w'] exI [of _ "nr + q"]) auto
        qed
      qed
    qed
  qed
qed

text \<open>A result of one of the copying functions: a count that was really copied, with the offset or the position moved by it, or -1 after
  some part of the data was copied.\<close>

definition copy_result :: "int option \<Rightarrow> nat \<Rightarrow> copy_io \<Rightarrow> (int \<times> int option \<times> copy_io) outcome \<Rightarrow> bool" where
  "copy_result offset cnt w r \<longleftrightarrow> (\<exists>n off' w' p. r = Inr (n, off', w') \<and> copied (reads_from offset w) p w w' \<and> p \<le> cnt \<and>
     (n = -1 \<or> n = int p \<and> (case offset of
        Some off \<Rightarrow> off' = Some (off + n) \<and> in_pos w' = in_pos w
      | None \<Rightarrow> off' = None \<and> in_pos w' = in_pos w + p)))"

lemma copy_result_fail: "copy_result offset cnt w (Inr (-1, off', w))"
  unfolding copy_result_def by (intro exI [of _ "-1"] exI [of _ off'] exI [of _ w] exI [of _ 0]) (simp add: copied_def)

lemma transfer_ok:
  assumes "m \<le> cnt" "m \<le> length (in_data w) - reads_from offset w" "\<forall>off. offset = Some off \<longrightarrow> 0 \<le> off"
  shows "copy_result offset cnt w (Inr (transfer offset m w))"
  unfolding copy_result_def using assms
  by (intro exI [of _ "int m"] exI [of _ "fst (snd (transfer offset m w))"] exI [of _ "snd (snd (transfer offset m w))"] exI [of _ m])
    (auto simp: transfer_def copied_def reads_from_def split: option.splits)

lemma lseek_set_Some: "lseek_set k off w = Some w' \<longleftrightarrow> 0 \<le> off \<and> (\<exists>x. k w (LseekSet off) = Inr x) \<and> w' = w\<lparr>in_pos := nat off\<rparr>"
  by (auto simp: lseek_set_def split: sum.splits)

lemma with_offset_ok:
  assumes "kernel_ok k offset"
  shows "copy_result offset cnt w (neb_file_buffered_copy_with_offset k offset cnt w)"
proof (cases offset)
  case None
  obtain n w' p where 1: "buffered_loop k cnt cnt w = Inr (n, w')" "copied (in_pos w) p w w'" "p \<le> cnt"
    "n = -1 \<or> n = int p \<and> in_pos w' = in_pos w + p" using buffered_loop_ok [OF assms, of cnt cnt w] by auto
  then show ?thesis using None unfolding copy_result_def
    by (intro exI [of _ n] exI [of _ None] exI [of _ w'] exI [of _ p])
      (simp add: neb_file_buffered_copy_with_offset_def neb_file_buffered_copy_def reads_from_def)
next
  case (Some off)
  let ?old = "case k w LseekCur of Inl e \<Rightarrow> -1 | Inr _ \<Rightarrow> int (in_pos w)"
  show ?thesis
  proof (cases "lseek_set k off w")
    case None
    then show ?thesis using Some copy_result_fail by (simp add: neb_file_buffered_copy_with_offset_def Let_def)
  next
    case s1: (Some w1)
    then have w1: "w1 = w\<lparr>in_pos := nat off\<rparr>" "0 \<le> off" by (auto simp: lseek_set_Some)
    obtain n w2 p where 1: "buffered_loop k cnt cnt w1 = Inr (n, w2)" "copied (in_pos w1) p w1 w2" "p \<le> cnt"
      "n = -1 \<or> n = int p \<and> in_pos w2 = in_pos w1 + p" using buffered_loop_ok [OF assms, of cnt cnt w1] by auto
    let ?off' = "if n > 0 then off + n else off"
    have c: "copied (reads_from offset w) p w w2" using 1(2) w1 Some by (simp add: copied_def reads_from_def)
    have o: "n = int p \<Longrightarrow> ?off' = off + n" by simp
    show ?thesis
    proof (cases "lseek_set k ?old w2")
      case None
      then show ?thesis using Some s1 1 c unfolding copy_result_def
        by (intro exI [of _ "-1"] exI [of _ "Some ?off'"] exI [of _ w2] exI [of _ p])
          (simp add: neb_file_buffered_copy_with_offset_def neb_file_buffered_copy_def Let_def)
    next
      case s3: (Some w3)
      then have w3: "w3 = w2\<lparr>in_pos := in_pos w\<rparr>" by (auto simp: lseek_set_Some split: sum.splits)
      have "copied (reads_from offset w) p w w3" using c w3 by (simp add: copied_def)
      then show ?thesis using Some s1 s3 1 o w3 unfolding copy_result_def
        by (intro exI [of _ n] exI [of _ "Some ?off'"] exI [of _ w3] exI [of _ p])
          (auto simp: neb_file_buffered_copy_with_offset_def neb_file_buffered_copy_def Let_def)
    qed
  qed
qed

lemma sys_copy_ok:
  assumes "kernel_ok k offset"
  shows "copy_result offset cnt w (neb_file_sys_copy k offset cnt w)"
proof (cases "k w (Sendfile cnt)")
  case (Inl e)
  then show ?thesis using with_offset_ok [OF assms] copy_result_fail by (simp add: neb_file_sys_copy_def)
next
  case (Inr m)
  then show ?thesis using transfer_ok kernel_okD(3) [OF assms, of w cnt m] by (simp add: neb_file_sys_copy_def)
qed

section \<open>Properties\<close>

text \<open>C33. Whatever the system calls answer, and whichever of the three ways of copying is taken, \<open>neb_file_fs_copy\<close> returns; when it
  returns a count, exactly that many bytes of the input were appended to the output, from the offset, which is
  advanced while the file position stays, or from the file position, which is advanced; when it returns -1 the output still only gained
  a part of the data at that place.\<close>

theorem fs_copy_exact:
  assumes "kernel_ok k offset"
  shows "copy_result offset cnt w (neb_file_fs_copy k offset cnt w)"
proof (cases "k w (CopyRange cnt)")
  case (Inl e)
  then show ?thesis using sys_copy_ok [OF assms] copy_result_fail by (simp add: neb_file_fs_copy_def)
next
  case (Inr m)
  then show ?thesis using transfer_ok kernel_okD(3) [OF assms, of w cnt m] by (simp add: neb_file_fs_copy_def)
qed

text \<open>A kernel without the copying calls that reads at most three bytes and writes one byte at a time.\<close>

definition slow_kernel :: copy_kernel where
  "slow_kernel w c = (case c of Read n \<Rightarrow> Inr (min 3 (min n (length (in_data w) - in_pos w))) | Write n \<Rightarrow> Inr (min 1 n)
     | Sendfile n \<Rightarrow> Inl EINVAL | CopyRange n \<Rightarrow> Inl EXDEV | _ \<Rightarrow> Inr 0)"

definition sample_io :: copy_io where
  "sample_io = \<lparr>in_data = [1, 2, 3, 4, 5, 6, 7], in_pos = 6, out_data = [9]\<rparr>"

theorem fs_copy_exact_witness:
  "copy_result (Some 1) 5 sample_io (neb_file_fs_copy slow_kernel (Some 1) 5 sample_io) \<and>
   (case neb_file_fs_copy slow_kernel (Some 1) 5 sample_io of Inl e \<Rightarrow> False
    | Inr (n, off, w) \<Rightarrow> n = 5 \<and> off = Some 6 \<and> w = sample_io\<lparr>out_data := [9, 2, 3, 4, 5, 6]\<rparr>)"
proof
  show "copy_result (Some 1) 5 sample_io (neb_file_fs_copy slow_kernel (Some 1) 5 sample_io)"
    by (rule fs_copy_exact) (auto simp: kernel_ok_def slow_kernel_def)
  show "case neb_file_fs_copy slow_kernel (Some 1) 5 sample_io of Inl e \<Rightarrow> False
    | Inr (n, off, w) \<Rightarrow> n = 5 \<and> off = Some 6 \<and> w = sample_io\<lparr>out_data := [9, 2, 3, 4, 5, 6]\<rparr>"
    by (simp add: neb_file_fs_copy_def neb_file_sys_copy_def neb_file_buffered_copy_with_offset_def neb_file_buffered_copy_def lseek_set_def
        slow_kernel_def sample_io_def buffered_loop.simps write_loop.simps NEB_FILE_COPY_BUFFER_SIZE_def Let_def)
qed

end
