(* ===== verification/Neb_Pidfile.thy ===== *)
theory Neb_Pidfile
  imports Neb_Text
begin

text \<open>
  Model of \<^verbatim>\<open>src/src/pidfile.c\<close>: a file that holds the process number of the one process that has
  it locked. The state has the file the path names, the contents and the record lock of every file, and the open
  descriptors of every process with their positions; an argument answers whether and how far each system call succeeds.
\<close>

section \<open>State and system calls\<close>

record pf_file =
  content :: string
  locker :: "int option"

record pf_world =
  path_file :: "nat option"
  pf_files :: "nat \<Rightarrow> pf_file"
  pf_fds :: "int \<times> nat \<Rightarrow> (nat \<times> nat) option"

text \<open>The descriptor and the file number that an open gives, and the answers of the other calls; \<open>k_read\<close> and
  \<open>k_write\<close> are how many bytes are transferred, \<open>None\<close> an error.\<close>

record pf_kernel =
  k_open :: "nat option"
  k_file :: nat
  k_getlk :: bool
  k_setlk :: bool
  k_ftruncate :: bool
  k_write :: "nat \<Rightarrow> nat option"
  k_read :: "nat \<Rightarrow> nat option"

definition PIDFILE_PIDBUF_SIZE :: nat where "PIDFILE_PIDBUF_SIZE = 32"

definition fd_file :: "int \<Rightarrow> nat \<Rightarrow> pf_world \<Rightarrow> nat" where "fd_file me fd w = fst (the (pf_fds w (me, fd)))"
definition fd_pos :: "int \<Rightarrow> nat \<Rightarrow> pf_world \<Rightarrow> nat" where "fd_pos me fd w = snd (the (pf_fds w (me, fd)))"

definition upd_file :: "nat \<Rightarrow> (pf_file \<Rightarrow> pf_file) \<Rightarrow> pf_world \<Rightarrow> pf_world" where
  "upd_file i f w = w\<lparr>pf_files := (pf_files w)(i := f (pf_files w i))\<rparr>"

text \<open>Opening with \<open>O_CREAT\<close>; a new file is empty.\<close>

definition sys_open :: "pf_kernel \<Rightarrow> int \<Rightarrow> pf_world \<Rightarrow> nat option \<times> pf_world" where
  "sys_open k me w = (case k_open k of
     None \<Rightarrow> (None, w)
   | Some fd \<Rightarrow> (case path_file w of
       Some i \<Rightarrow> (Some fd, w\<lparr>pf_fds := (pf_fds w)((me, fd) \<mapsto> (i, 0))\<rparr>)
     | None \<Rightarrow> (Some fd, w\<lparr>path_file := Some (k_file k), pf_files := (pf_files w)(k_file k := \<lparr>content = [], locker = None\<rparr>),
                     pf_fds := (pf_fds w)((me, fd) \<mapsto> (k_file k, 0))\<rparr>)))"

text \<open>Closing any descriptor of a file gives up the locks that the process has on the file.\<close>

definition sys_close :: "int \<Rightarrow> nat \<Rightarrow> pf_world \<Rightarrow> pf_world" where
  "sys_close me fd w = (let i = fd_file me fd w in
     upd_file i (\<lambda>f. if locker f = Some me then f\<lparr>locker := None\<rparr> else f) (w\<lparr>pf_fds := (pf_fds w)((me, fd) := None)\<rparr>))"

text \<open>\<open>F_SETLK\<close>: taken, refused because another process has the lock, or another error.\<close>

datatype setlk = Taken | Busy | LockError

definition sys_setlk :: "pf_kernel \<Rightarrow> int \<Rightarrow> nat \<Rightarrow> pf_world \<Rightarrow> setlk \<times> pf_world" where
  "sys_setlk k me fd w = (let i = fd_file me fd w in
     if \<not> k_setlk k then (LockError, w)
     else if locker (pf_files w i) \<noteq> None \<and> locker (pf_files w i) \<noteq> Some me then (Busy, w)
     else (Taken, upd_file i (\<lambda>f. f\<lparr>locker := Some me\<rparr>) w))"

definition sys_write :: "pf_kernel \<Rightarrow> int \<Rightarrow> nat \<Rightarrow> string \<Rightarrow> pf_world \<Rightarrow> int \<times> pf_world" where
  "sys_write k me fd txt w = (case k_write k (length txt) of
     None \<Rightarrow> (-1, w)
   | Some n \<Rightarrow> (let i = fd_file me fd w; p = fd_pos me fd w; c = content (pf_files w i) in
       (int n, (upd_file i (\<lambda>f. f\<lparr>content := take p (c @ replicate (p - length c) nul) @ take n txt @ drop (p + n) c\<rparr>) w)
                  \<lparr>pf_fds := (pf_fds w)((me, fd) \<mapsto> (i, p + n))\<rparr>)))"

definition sys_read :: "pf_kernel \<Rightarrow> int \<Rightarrow> nat \<Rightarrow> nat \<Rightarrow> pf_world \<Rightarrow> (string option) \<times> pf_world" where
  "sys_read k me fd n w = (let i = fd_file me fd w; p = fd_pos me fd w; avail = take n (drop p (content (pf_files w i))) in
     case k_read k (length avail) of
       None \<Rightarrow> (None, w)
     | Some m \<Rightarrow> (Some (take m avail), w\<lparr>pf_fds := (pf_fds w)((me, fd) \<mapsto> (i, p + min m (length avail)))\<rparr>))"

section \<open>Operations\<close>

definition set_pid :: "pf_kernel \<Rightarrow> int \<Rightarrow> nat \<Rightarrow> pf_world \<Rightarrow> int \<times> pf_world" where
  "set_pid k me fd w =
     (if \<not> k_ftruncate k then (-1, w)
      else (let w1 = upd_file (fd_file me fd w) (\<lambda>f. f\<lparr>content := []\<rparr>) w;
                txt = fmt_u (nat me) in
            case sys_write k me fd txt w1 of
              (nw, w2) \<Rightarrow> if nw = -1 then (-1, w2) else if nw \<noteq> int (length txt) then (-1, w2) else (0, w2)))"

text \<open>\<open>junk\<close> is what the buffer holds before it is filled.\<close>

definition get_pid :: "pf_kernel \<Rightarrow> string \<Rightarrow> int \<Rightarrow> nat \<Rightarrow> pf_world \<Rightarrow> (int \<times> pf_world) outcome" where
  "get_pid k junk me fd w =
     (case sys_read k me fd PIDFILE_PIDBUF_SIZE w of
        (None, w') \<Rightarrow> Inr (-1, w')
      | (Some bs, w') \<Rightarrow>
          (let nr = length bs in
           obind (array_copy junk 0 bs) (\<lambda>pidbuf.
             if nr = PIDFILE_PIDBUF_SIZE \<and> pidbuf ! (nr - 1) \<noteq> nul then Inr (-1, w')
             else obind (array_set pidbuf nr nul) (\<lambda>pidbuf.
               let pid = atoi (cstr pidbuf) in
               Inr (if pid = 0 then -1 else pid, w')))))"

text \<open>The result is the descriptor, or -1, and the process number stored in \<open>*locker\<close>.\<close>

definition neb_pidfile_open :: "pf_kernel \<Rightarrow> string \<Rightarrow> int \<Rightarrow> pf_world \<Rightarrow> ((nat option \<times> int) \<times> pf_world) outcome" where
  "neb_pidfile_open k junk me w =
     (case sys_open k me w of
        (None, w1) \<Rightarrow> Inr ((None, 0), w1)
      | (Some fd, w1) \<Rightarrow>
          if \<not> k_getlk k then Inr ((None, 0), sys_close me fd w1)
          else if locker (pf_files w1 (fd_file me fd w1)) \<noteq> None \<and> locker (pf_files w1 (fd_file me fd w1)) \<noteq> Some me
          then obind (get_pid k junk me fd w1) (\<lambda>(pid, w2). Inr ((None, pid), sys_close me fd w2))
          else Inr ((Some fd, 0), w1))"

definition neb_pidfile_write :: "pf_kernel \<Rightarrow> string \<Rightarrow> int \<Rightarrow> nat \<Rightarrow> pf_world \<Rightarrow> (int \<times> pf_world) outcome" where
  "neb_pidfile_write k junk me fd w =
     (case sys_setlk k me fd w of
        (LockError, w1) \<Rightarrow> Inr (-1, w1)
      | (Busy, w1) \<Rightarrow> get_pid k junk me fd w1
      | (Taken, w1) \<Rightarrow> (case set_pid k me fd w1 of (r, w2) \<Rightarrow> Inr (if r \<noteq> 0 then -1 else 0, w2)))"

definition neb_pidfile_close :: "int \<Rightarrow> nat \<Rightarrow> pf_world \<Rightarrow> pf_world" where
  "neb_pidfile_close me fd w = sys_close me fd w"

definition neb_pidfile_remove :: "pf_world \<Rightarrow> pf_world" where
  "neb_pidfile_remove w = w\<lparr>path_file := None\<rparr>"

definition neb_pidlock :: "pf_kernel \<Rightarrow> string \<Rightarrow> int \<Rightarrow> pf_world \<Rightarrow> ((nat option \<times> int) \<times> pf_world) outcome" where
  "neb_pidlock k junk me w =
     (case sys_open k me w of
        (None, w1) \<Rightarrow> Inr ((None, 0), w1)
      | (Some fd, w1) \<Rightarrow>
          (case sys_setlk k me fd w1 of
             (LockError, w2) \<Rightarrow> Inr ((None, 0), sys_close me fd w2)
           | (Busy, w2) \<Rightarrow> obind (get_pid k junk me fd w2) (\<lambda>(pid, w3). Inr ((None, pid), sys_close me fd w3))
           | (Taken, w2) \<Rightarrow> (case set_pid k me fd w2 of
               (r, w3) \<Rightarrow> if r \<noteq> 0 then Inr ((None, 0), sys_close me fd w3) else Inr ((Some fd, 0), w3))))"

section \<open>What a call leaves alone\<close>

text \<open>A call of the process \<open>p\<close> does not change the descriptors and locks of other processes, nor the
  contents of files that they have locked.\<close>

definition others :: "int \<Rightarrow> pf_world \<Rightarrow> pf_world \<Rightarrow> bool" where
  "others p w w' \<longleftrightarrow> (\<forall>q. q \<noteq> p \<longrightarrow> (\<forall>fd. pf_fds w' (q, fd) = pf_fds w (q, fd)) \<and>
     (\<forall>i. locker (pf_files w' i) = Some q \<longleftrightarrow> locker (pf_files w i) = Some q) \<and>
     (\<forall>i. locker (pf_files w i) = Some q \<longrightarrow> content (pf_files w' i) = content (pf_files w i)))"

lemma others_refl [simp]: "others p w w"
  by (simp add: others_def)

lemma others_trans: "others p w w1 \<Longrightarrow> others p w1 w2 \<Longrightarrow> others p w w2"
  by (simp add: others_def)

lemma upd_file_sel [simp]:
  "pf_files (upd_file i f w) j = (if j = i then f (pf_files w i) else pf_files w j)"
  "pf_fds (upd_file i f w) = pf_fds w" "path_file (upd_file i f w) = path_file w"
  by (simp_all add: upd_file_def)

lemma close_others: "others p w (sys_close p fd w)"
  by (auto simp: others_def sys_close_def Let_def)

text \<open>A process that has one descriptor \<open>fd\<close>, of the file \<open>i\<close>, at position \<open>pos\<close>, and no lock elsewhere.\<close>

definition has_fd :: "int \<Rightarrow> nat \<Rightarrow> nat \<Rightarrow> nat \<Rightarrow> pf_world \<Rightarrow> bool" where
  "has_fd p fd i pos w \<longleftrightarrow> pf_fds w (p, fd) = Some (i, pos) \<and> (\<forall>fd'. fd' \<noteq> fd \<longrightarrow> pf_fds w (p, fd') = None) \<and>
     (\<forall>j. j \<noteq> i \<longrightarrow> locker (pf_files w j) \<noteq> Some p)"

definition idle :: "int \<Rightarrow> pf_world \<Rightarrow> bool" where
  "idle p w \<longleftrightarrow> (\<forall>fd. pf_fds w (p, fd) = None) \<and> (\<forall>i. locker (pf_files w i) \<noteq> Some p)"

text \<open>The process has locked its file, which contains its number.\<close>

definition owns :: "int \<Rightarrow> nat \<Rightarrow> pf_world \<Rightarrow> bool" where
  "owns p fd w \<longleftrightarrow> (\<exists>i pos. has_fd p fd i pos w \<and> locker (pf_files w i) = Some p \<and>
     content (pf_files w i) = replicate (pos - length (fmt_u (nat p))) nul @ fmt_u (nat p))"

lemma ownsI:
  assumes "has_fd p fd i (n + length (fmt_u (nat p))) w" "locker (pf_files w i) = Some p" "content (pf_files w i) = replicate n nul @ fmt_u (nat p)"
  shows "owns p fd w"
  unfolding owns_def using assms by (intro exI [of _ i] exI [of _ "n + length (fmt_u (nat p))"]) simp

text \<open>What the system promises: a created file is new, and a write does not write more than it was given.\<close>

definition pf_kernel_ok :: "pf_kernel \<Rightarrow> pf_world \<Rightarrow> bool" where
  "pf_kernel_ok k w \<longleftrightarrow> (path_file w = None \<longrightarrow> locker (pf_files w (k_file k)) = None) \<and> (\<forall>n m. k_write k n = Some m \<longrightarrow> m \<le> n)"

lemma open_ok:
  assumes "idle p w" "pf_kernel_ok k w" "sys_open k p w = (Some fd, w')"
  shows "others p w w' \<and> (\<exists>i. has_fd p fd i 0 w' \<and> locker (pf_files w' i) \<noteq> Some p \<and> path_file w' = Some i)"
  using assms by (auto simp: sys_open_def idle_def pf_kernel_ok_def others_def has_fd_def split: option.splits if_splits)

lemma close_ok:
  assumes "has_fd p fd i pos w"
  shows "idle p (sys_close p fd w)" "others p w (sys_close p fd w)" "path_file (sys_close p fd w) = path_file w"
  using assms by (auto simp: idle_def has_fd_def sys_close_def Let_def fd_file_def others_def)

lemma setlk_ok:
  assumes "has_fd p fd i pos w" "sys_setlk k p fd w = (r, w')"
  shows "others p w w'" "has_fd p fd i pos w'" "path_file w' = path_file w"
    "r = Taken \<Longrightarrow> locker (pf_files w' i) = Some p \<and> (locker (pf_files w i) = None \<or> locker (pf_files w i) = Some p)" "r \<noteq> Taken \<Longrightarrow> w' = w"
    "r = Busy \<Longrightarrow> locker (pf_files w i) \<noteq> None \<and> locker (pf_files w i) \<noteq> Some p"
  using assms by (auto simp: sys_setlk_def Let_def fd_file_def has_fd_def others_def split: if_splits)

lemma set_pid_ok:
  assumes h: "has_fd p fd i pos w" "locker (pf_files w i) = Some p" and k: "\<forall>n m. k_write k n = Some m \<longrightarrow> m \<le> n"
    and s: "set_pid k p fd w = (r, w')"
  shows "others p w w'" "\<exists>pos'. has_fd p fd i pos' w'" "path_file w' = path_file w" "locker (pf_files w' i) = Some p"
    "r = 0 \<Longrightarrow> content (pf_files w' i) = replicate pos nul @ fmt_u (nat p) \<and> has_fd p fd i (pos + length (fmt_u (nat p))) w'"
  using assms by (auto simp: set_pid_def sys_write_def Let_def fd_file_def fd_pos_def has_fd_def others_def split: option.splits if_splits)

lemma read_ok:
  assumes "has_fd p fd i pos w" "sys_read k p fd n w = (r, w')"
  shows "others p w w'" "\<exists>pos'. has_fd p fd i pos' w'" "pf_files w' = pf_files w" "path_file w' = path_file w"
    "case r of None \<Rightarrow> True | Some bs \<Rightarrow> length bs \<le> n"
  using assms by (auto simp: sys_read_def Let_def fd_file_def fd_pos_def has_fd_def others_def split: option.splits)

lemma get_pid_ok:
  assumes h: "has_fd p fd i pos w" and g: "get_pid k junk p fd w = Inr (r, w')"
  shows "others p w w'" "\<exists>pos'. has_fd p fd i pos' w'" "pf_files w' = pf_files w" "path_file w' = path_file w"
proof -
  obtain b w1 where s: "sys_read k p fd PIDFILE_PIDBUF_SIZE w = (b, w1)" by fastforce
  have "w' = w1" using g s by (cases b) (auto simp: get_pid_def Let_def obind_eq_Inr_iff split: if_splits)
  then show "others p w w'" "\<exists>pos'. has_fd p fd i pos' w'" "pf_files w' = pf_files w" "path_file w' = path_file w"
    using read_ok [OF h s] by simp_all
qed

section \<open>The calls\<close>

lemma pidlock_ok:
  assumes i: "idle p w" and k: "pf_kernel_ok k w" and g: "neb_pidlock k junk p w = Inr ((r, l), w')"
  shows "others p w w' \<and> (case r of None \<Rightarrow> idle p w' | Some fd \<Rightarrow> owns p fd w')"
proof (cases "sys_open k p w")
  case o: (Pair a w1)
  show ?thesis
  proof (cases a)
    case None
    then have "w1 = w" using o by (auto simp: sys_open_def split: option.splits)
    then show ?thesis using None g o i by (simp add: neb_pidlock_def)
  next
    case (Some fd)
    from open_ok [OF i k o [unfolded Some]] obtain f where f: "others p w w1" "has_fd p fd f 0 w1" by blast
    obtain s w2 where s: "sys_setlk k p fd w1 = (s, w2)" by fastforce
    note sl = setlk_ok [OF f(2) s]
    have t: "others p w w2" using others_trans [OF f(1) sl(1)] .
    show ?thesis
    proof (cases s)
      case Taken
      obtain x w3 where x: "set_pid k p fd w2 = (x, w3)" by fastforce
      have "\<forall>n m. k_write k n = Some m \<longrightarrow> m \<le> n" using k by (simp add: pf_kernel_ok_def)
      note sp = set_pid_ok [OF sl(2) conjunct1 [OF sl(4) [OF Taken]] this x]
      obtain pos' where h: "has_fd p fd f pos' w3" using sp(2) by blast
      show ?thesis
      proof (cases "x = 0")
        case True
        then have "r = Some fd" "w' = w3" using g o Some s Taken x by (simp_all add: neb_pidlock_def)
        moreover have "owns p fd w3" using sp(5) [OF True] sp(4) by (intro ownsI [where i = f and n = 0]) simp_all
        ultimately show ?thesis using others_trans [OF t sp(1)] by simp
      next
        case False
        then have "r = None" "w' = sys_close p fd w3" using g o Some s Taken x by (simp_all add: neb_pidlock_def)
        then show ?thesis using others_trans [OF others_trans [OF t sp(1)]] close_ok [OF h] by simp
      qed
    next
      case Busy
      then obtain pid w3 where x: "get_pid k junk p fd w2 = Inr (pid, w3)" "r = None" "w' = sys_close p fd w3"
        using g o Some s by (auto simp: neb_pidlock_def obind_eq_Inr_iff)
      note gp = get_pid_ok [OF sl(2) x(1)]
      then obtain pos' where h: "has_fd p fd f pos' w3" by blast
      show ?thesis using others_trans [OF others_trans [OF t gp(1)]] close_ok [OF h] x by simp
    next
      case LockError
      then show ?thesis using g o Some s others_trans [OF t] close_ok [OF sl(2)] by (auto simp: neb_pidlock_def)
    qed
  qed
qed

lemma pidfile_open_ok:
  assumes i: "idle p w" and k: "pf_kernel_ok k w" and g: "neb_pidfile_open k junk p w = Inr ((r, l), w')"
  shows "others p w w' \<and> (case r of None \<Rightarrow> idle p w' | Some fd \<Rightarrow> (\<exists>i pos. has_fd p fd i pos w'))"
proof (cases "sys_open k p w")
  case o: (Pair a w1)
  show ?thesis
  proof (cases a)
    case None
    then have "w1 = w" using o by (auto simp: sys_open_def split: option.splits)
    then show ?thesis using None g o i by (simp add: neb_pidfile_open_def)
  next
    case (Some fd)
    from open_ok [OF i k o [unfolded Some]] obtain f where f: "others p w w1" "has_fd p fd f 0 w1" by blast
    consider "r = Some fd" "w' = w1" | "r = None" "w' = sys_close p fd w1"
      | pid w2 where "get_pid k junk p fd w1 = Inr (pid, w2)" "r = None" "w' = sys_close p fd w2"
      using g o Some by (auto simp: neb_pidfile_open_def obind_eq_Inr_iff split: if_splits)
    then show ?thesis
    proof cases
      case 3
      note gp = get_pid_ok [OF f(2) 3(1)]
      then obtain pos' where h: "has_fd p fd f pos' w2" by blast
      show ?thesis using others_trans [OF others_trans [OF f(1) gp(1)]] close_ok [OF h] 3 by simp
    qed (use f close_ok [OF f(2)] others_trans [OF f(1)] in auto)
  qed
qed

lemma pidfile_write_ok:
  assumes h: "has_fd p fd i pos w" and k: "pf_kernel_ok k w" and g: "neb_pidfile_write k junk p fd w = Inr (r, w')"
  shows "others p w w' \<and> (\<exists>pos'. has_fd p fd i pos' w') \<and> (r = 0 \<longrightarrow> owns p fd w')"
proof -
  obtain s w1 where s: "sys_setlk k p fd w = (s, w1)" by fastforce
  note sl = setlk_ok [OF h s]
  show ?thesis
  proof (cases s)
    case Taken
    obtain x w2 where x: "set_pid k p fd w1 = (x, w2)" by fastforce
    have "\<forall>n m. k_write k n = Some m \<longrightarrow> m \<le> n" using k by (simp add: pf_kernel_ok_def)
    note sp = set_pid_ok [OF sl(2) conjunct1 [OF sl(4) [OF Taken]] this x]
    have "w' = w2" "r = 0 \<Longrightarrow> x = 0" using g s Taken x by (auto simp: neb_pidfile_write_def split: if_splits)
    moreover have "x = 0 \<Longrightarrow> owns p fd w2" using sp(4,5) by (intro ownsI) auto
    ultimately show ?thesis using others_trans [OF sl(1) sp(1)] sp(2) by auto
  next
    case Busy
    then have x: "get_pid k junk p fd w1 = Inr (r, w')" using g s by (simp add: neb_pidfile_write_def)
    note gp = get_pid_ok [OF sl(2) x]
    have "r \<noteq> 0" using x by (auto simp: get_pid_def Let_def obind_eq_Inr_iff split: if_splits prod.splits option.splits)
    then show ?thesis using others_trans [OF sl(1) gp(1)] gp(2) by simp
  next
    case LockError
    then show ?thesis using g s sl by (auto simp: neb_pidfile_write_def)
  qed
qed

section \<open>Processes\<close>

text \<open>Every process uses one descriptor at a time: it is idle, has the file open, or was told that it owns the file.\<close>

datatype pf_user = Idle | Opened nat | Owner nat

inductive pf_step :: "pf_world \<times> (int \<Rightarrow> pf_user) \<Rightarrow> pf_world \<times> (int \<Rightarrow> pf_user) \<Rightarrow> bool" where
  lock: "us p = Idle \<Longrightarrow> pf_kernel_ok k w \<Longrightarrow> neb_pidlock k junk p w = Inr ((r, l), w') \<Longrightarrow>
    pf_step (w, us) (w', us(p := (case r of None \<Rightarrow> Idle | Some fd \<Rightarrow> Owner fd)))"
| open_file: "us p = Idle \<Longrightarrow> pf_kernel_ok k w \<Longrightarrow> neb_pidfile_open k junk p w = Inr ((r, l), w') \<Longrightarrow>
    pf_step (w, us) (w', us(p := (case r of None \<Rightarrow> Idle | Some fd \<Rightarrow> Opened fd)))"
| write_file: "us p = Opened fd \<Longrightarrow> pf_kernel_ok k w \<Longrightarrow> neb_pidfile_write k junk p fd w = Inr (r, w') \<Longrightarrow>
    pf_step (w, us) (w', us(p := (if r = 0 then Owner fd else Opened fd)))"
| close: "us p = Opened fd \<or> us p = Owner fd \<Longrightarrow> pf_step (w, us) (neb_pidfile_close p fd w, us(p := Idle))"
| remove: "pf_step (w, us) (neb_pidfile_remove w, us)"

definition user_ok :: "pf_world \<Rightarrow> int \<Rightarrow> pf_user \<Rightarrow> bool" where
  "user_ok w p u = (case u of Idle \<Rightarrow> idle p w | Opened fd \<Rightarrow> (\<exists>i pos. has_fd p fd i pos w) | Owner fd \<Rightarrow> owns p fd w)"

lemma user_ok_others: "others p w w' \<Longrightarrow> q \<noteq> p \<Longrightarrow> user_ok w q u \<Longrightarrow> user_ok w' q u"
  by (cases u) (auto simp: user_ok_def others_def idle_def has_fd_def owns_def)

lemma pf_step_inv:
  assumes "pf_step s s'" "\<forall>p. user_ok (fst s) p (snd s p)"
  shows "\<forall>p. user_ok (fst s') p (snd s' p)"
  using assms
proof (induction rule: pf_step.induct)
  case (lock us p k w junk r l w')
  have "idle p w" using lock(1,4) by (auto simp: user_ok_def dest!: spec [of _ p])
  from pidlock_ok [OF this lock(2,3)] show ?case using lock(4) user_ok_others [of p w w']
    by (auto simp: user_ok_def [of w' p] split: option.splits)
next
  case (open_file us p k w junk r l w')
  have "idle p w" using open_file(1,4) by (auto simp: user_ok_def dest!: spec [of _ p])
  from pidfile_open_ok [OF this open_file(2,3)] show ?case using open_file(4) user_ok_others [of p w w']
    by (auto simp: user_ok_def [of w' p] split: option.splits)
next
  case (write_file us p fd k w junk r w')
  obtain i pos where "has_fd p fd i pos w" using write_file(1,4) by (auto simp: user_ok_def dest!: spec [of _ p])
  from pidfile_write_ok [OF this write_file(2,3)] show ?case using write_file(4) user_ok_others [of p w w']
    by (auto simp: user_ok_def [of w' p])
next
  case (close us p fd w)
  obtain i pos where "has_fd p fd i pos w" using close by (auto simp: user_ok_def owns_def dest!: spec [of _ p])
  from close_ok [OF this] show ?case using close(2) user_ok_others [of p w "sys_close p fd w"]
    by (auto simp: user_ok_def [of _ p] neb_pidfile_close_def)
next
  case (remove w us)
  have "user_ok (neb_pidfile_remove w) = user_ok w"
    by (simp add: user_ok_def neb_pidfile_remove_def idle_def has_fd_def owns_def fun_eq_iff split: pf_user.split)
  then show ?case using remove by simp
qed

definition pf_start :: "pf_world \<Rightarrow> bool" where
  "pf_start w \<longleftrightarrow> (\<forall>p. idle p w)"

lemma pf_reach_inv:
  assumes "pf_step\<^sup>*\<^sup>* (w0, \<lambda>p. Idle) s" "pf_start w0"
  shows "\<forall>p. user_ok (fst s) p (snd s p)"
  using assms(1)
proof (induction rule: rtranclp_induct)
  case base
  then show ?case using assms(2) by (simp add: pf_start_def user_ok_def)
next
  case (step s s')
  then show ?case using pf_step_inv by blast
qed

section \<open>Reading the number of the owner\<close>

lemma get_pid_reads:
  assumes h: "has_fd p fd i 0 w" and c: "content (pf_files w i) = fmt_u n" and n: "0 < n" "n \<le> 2147483647"
    and k: "k_read k = (\<lambda>m. Some m)" and j: "length junk = PIDFILE_PIDBUF_SIZE"
  shows "\<exists>w'. get_pid k junk p fd w = Inr (int n, w')"
proof -
  have l: "length (fmt_u n) \<le> 10" using fmt_u_length_bound [of 10 n] n(2) by simp
  have "sys_read k p fd PIDFILE_PIDBUF_SIZE w = (Some (fmt_u n), w\<lparr>pf_fds := (pf_fds w)((p, fd) \<mapsto> (i, length (fmt_u n)))\<rparr>)"
    using h c k l by (simp add: sys_read_def Let_def fd_file_def fd_pos_def has_fd_def PIDFILE_PIDBUF_SIZE_def)
  moreover have "array_copy junk 0 (fmt_u n) = Inr (fmt_u n @ drop (length (fmt_u n)) junk)"
    using l j by (simp add: PIDFILE_PIDBUF_SIZE_def)
  moreover obtain x r where "drop (length (fmt_u n)) junk = x # r"
    using l j by (cases "drop (length (fmt_u n)) junk") (simp_all add: PIDFILE_PIDBUF_SIZE_def)
  ultimately show ?thesis using l n cstr_fmt_u [of n r] atoi_fmt_u [OF n(2)]
    by (simp add: get_pid_def Let_def PIDFILE_PIDBUF_SIZE_def list_update_append array_set_def)
qed

text \<open>The buffer of \<open>get_pid\<close> has no room for the null byte when the file gives 32 bytes.\<close>

lemma get_pid_overflow:
  assumes "has_fd p fd i 0 w" "content (pf_files w i) = replicate 31 (CHR ''1'') @ [nul]" "k_read k = (\<lambda>m. Some m)" "length junk = PIDFILE_PIDBUF_SIZE"
  shows "get_pid k junk p fd w = Inl OutOfBounds"
proof -
  have "(replicate 31 (CHR ''1'') @ [nul]) ! 31 = nul" by (simp add: nth_append)
  then show ?thesis using assms by (simp add: get_pid_def sys_read_def Let_def fd_file_def fd_pos_def has_fd_def PIDFILE_PIDBUF_SIZE_def)
qed

section \<open>Properties\<close>


definition full_kernel :: "nat \<Rightarrow> nat \<Rightarrow> pf_kernel" where
  "full_kernel fd i = \<lparr>k_open = Some fd, k_file = i, k_getlk = True, k_setlk = True, k_ftruncate = True, k_write = Some, k_read = Some\<rparr>"

definition no_pidfile :: pf_world where
  "no_pidfile = \<lparr>path_file = None, pf_files = (\<lambda>i. \<lparr>content = [], locker = None\<rparr>), pf_fds = Map.empty\<rparr>"

definition sample_locked :: pf_world where
  "sample_locked = (case neb_pidlock (full_kernel 3 7) (replicate 32 nul) 42 no_pidfile of Inr (r, w) \<Rightarrow> w | Inl e \<Rightarrow> no_pidfile)"

lemma sample_lock: "neb_pidlock (full_kernel 3 7) (replicate 32 nul) 42 no_pidfile = Inr ((Some 3, 0), sample_locked)"
  by (simp add: sample_locked_def neb_pidlock_def full_kernel_def no_pidfile_def sys_open_def sys_setlk_def set_pid_def sys_write_def fd_file_def fd_pos_def Let_def)




end
