(* ===== verification/Neb_Sem.thy ===== *)
theory Neb_Sem
  imports Neb_Prelude
begin

text \<open>
  Model of \<^verbatim>\<open>src/src/sem_sysv.c\<close> (Linux), semaphore sets shared between processes, and of
  \<^verbatim>\<open>src/src/sem_posix.c\<close>, the semaphores that notify a thread. The state of the first are the
  values of all sets; arguments tell the errors of system calls and the state in which a waiting call is decided.
\<close>

section \<open>Notification semaphores\<close>

text \<open>The address of the semaphore is \<open>None\<close> for NULL; what matters of it is its value.\<close>

definition neb_sem_notify_create :: "bool \<Rightarrow> bool \<Rightarrow> nat \<Rightarrow> nat option outcome" where
  "neb_sem_notify_create malloc_ok init_ok value =
     (if \<not> malloc_ok then Inl NullDeref else if init_ok then Inr (Some value) else Inr None)"

definition neb_sem_notify_destroy :: "nat \<Rightarrow> nat option" where
  "neb_sem_notify_destroy sem = None"

definition neb_sem_notify_signal :: "bool \<Rightarrow> nat \<Rightarrow> int \<times> nat" where
  "neb_sem_notify_signal post_ok sem = (if post_ok then (0, sem + 1) else (-1, sem))"

text \<open>The answers of \<open>sem_timedwait\<close>, with the number of signals that came meanwhile.\<close>

datatype sem_wait = Acquired nat | Interrupted nat | WaitError nat

fun neb_sem_notify_timedwait :: "sem_wait list \<Rightarrow> nat \<Rightarrow> (int \<times> nat) outcome" where
  "neb_sem_notify_timedwait [] sem = Inl NoEnd"
| "neb_sem_notify_timedwait (Acquired n # as) sem = Inr (0, sem + n - 1)"
| "neb_sem_notify_timedwait (Interrupted n # as) sem = neb_sem_notify_timedwait as (sem + n)"
| "neb_sem_notify_timedwait (WaitError n # as) sem = Inr (-1, sem + n)"

section \<open>Semaphore sets\<close>

type_synonym sem_sets = "int \<Rightarrow> int list option"

datatype sem_err = EINTR | EAGAIN | EINVAL | EIDRM | ERANGE | EFBIG

definition SEMVMX :: int where "SEMVMX = 32767"

text \<open>Conversions to the members of \<open>struct sembuf\<close>.\<close>

definition to_ushort :: "int \<Rightarrow> int" where "to_ushort i = i mod 65536"
definition to_short :: "int \<Rightarrow> int" where "to_short i = (i + 32768) mod 65536 - 32768"

text \<open>One operation on a set, when it does not have to wait.\<close>

definition semop :: "int \<Rightarrow> int \<Rightarrow> int \<Rightarrow> sem_sets \<Rightarrow> sem_err + sem_sets" where
  "semop semid sem_num sem_op w =
     (case w semid of
        None \<Rightarrow> Inl EINVAL
      | Some vs \<Rightarrow>
          (let n = nat sem_num in
           if n \<ge> length vs then Inl EFBIG
           else if sem_op > 0 then (if vs ! n + sem_op > SEMVMX then Inl ERANGE else Inr (w(semid \<mapsto> vs[n := vs ! n + sem_op])))
           else if sem_op < 0 then (if vs ! n + sem_op < 0 then Inl EAGAIN else Inr (w(semid \<mapsto> vs[n := vs ! n + sem_op])))
           else if vs ! n \<noteq> 0 then Inl EAGAIN else Inr w))"

text \<open>A call that may wait is interrupted, or decided in the state \<open>later\<close>, at the latest when the
  timeout is over.\<close>

definition semtimedop :: "bool \<Rightarrow> sem_sets \<Rightarrow> int \<Rightarrow> int \<Rightarrow> int \<Rightarrow> sem_sets \<Rightarrow> sem_err + sem_sets" where
  "semtimedop interrupted later semid sem_num sem_op w =
     (if interrupted then Inl EINTR
      else if w semid = None then Inl EINVAL
      else if later semid = None then Inl EIDRM
      else semop semid sem_num sem_op later)"

definition neb_sem_proc_destroy :: "bool \<Rightarrow> int \<Rightarrow> sem_sets \<Rightarrow> int \<times> sem_sets" where
  "neb_sem_proc_destroy rmid_ok semid w =
     (if w semid = None \<or> \<not> rmid_ok then (-1, w) else (0, w(semid := None)))"

definition semctl_SETVAL :: "bool \<Rightarrow> int \<Rightarrow> int \<Rightarrow> int \<Rightarrow> sem_sets \<Rightarrow> int \<times> sem_sets" where
  "semctl_SETVAL ok semid semnum val w =
     (case w semid of
        None \<Rightarrow> (-1, w)
      | Some vs \<Rightarrow> if \<not> ok \<or> nat semnum \<ge> length vs \<or> semnum < 0 \<or> val < 0 \<or> val > SEMVMX then (-1, w)
          else (0, w(semid \<mapsto> vs[nat semnum := val])))"

text \<open>The loop of \<open>neb_sem_proc_create\<close>; \<open>ok i\<close> is whether its i-th call succeeds.\<close>

function create_loop :: "(int \<Rightarrow> bool) \<Rightarrow> bool \<Rightarrow> int \<Rightarrow> int \<Rightarrow> int \<Rightarrow> sem_sets \<Rightarrow> int \<times> sem_sets" where
  "create_loop ok rmid_ok semid nsems i w =
     (if i < nsems then
        (case semctl_SETVAL (ok i) semid 0 0 w of
           (r, w') \<Rightarrow> if r \<noteq> 0 then (-1, snd (neb_sem_proc_destroy rmid_ok semid w')) else create_loop ok rmid_ok semid nsems (i + 1) w')
      else (semid, w))"
  by pat_completeness auto
termination
  by (relation "measure (\<lambda>(ok, rmid_ok, semid, nsems, i, w). nat (nsems - i))") auto

declare create_loop.simps [simp del]

text \<open>\<open>key\<close> is the answer of \<open>ftok\<close>, absent for a private set; \<open>semget\<close> gives the identifier and the
  values of a new set.\<close>

definition neb_sem_proc_create ::
  "int option option \<Rightarrow> (int option \<Rightarrow> int \<Rightarrow> (int \<times> int list) option) \<Rightarrow> (int \<Rightarrow> bool) \<Rightarrow> bool \<Rightarrow> int \<Rightarrow> sem_sets \<Rightarrow> int \<times> sem_sets" where
  "neb_sem_proc_create path semget ok rmid_ok nsems w =
     (let start = (\<lambda>key. case semget key nsems of
                     None \<Rightarrow> (-1, w)
                   | Some (semid, vs) \<Rightarrow> create_loop ok rmid_ok semid nsems 0 (w(semid \<mapsto> vs))) in
      case path of
        Some ftok \<Rightarrow> (case ftok of None \<Rightarrow> (-1, w) | Some key \<Rightarrow> start (Some key))
      | None \<Rightarrow> start None)"

definition neb_sem_proc_setval :: "bool \<Rightarrow> int \<Rightarrow> int \<Rightarrow> int \<Rightarrow> sem_sets \<Rightarrow> int \<times> sem_sets" where
  "neb_sem_proc_setval ok semid subid value w =
     (case semctl_SETVAL ok semid subid value w of (r, w') \<Rightarrow> if r \<noteq> 0 then (-1, w') else (0, w'))"

text \<open>\<open>n\<close> is how often the call is interrupted.\<close>

fun neb_sem_proc_post :: "nat \<Rightarrow> int \<Rightarrow> int \<Rightarrow> sem_sets \<Rightarrow> int \<times> sem_sets" where
  "neb_sem_proc_post (Suc n) semid subid w = neb_sem_proc_post n semid subid w"
| "neb_sem_proc_post 0 semid subid w =
     (case semop semid (to_ushort subid) 1 w of Inl e \<Rightarrow> (-1, w) | Inr w' \<Rightarrow> (0, w'))"

definition neb_sem_timedop :: "bool \<Rightarrow> sem_sets \<Rightarrow> int \<Rightarrow> int \<Rightarrow> int \<Rightarrow> sem_sets \<Rightarrow> int \<times> sem_sets" where
  "neb_sem_timedop interrupted later semid sem_num sem_op w =
     (case semtimedop interrupted later semid sem_num sem_op w of Inl e \<Rightarrow> (-1, later) | Inr w' \<Rightarrow> (0, w'))"

definition neb_sem_proc_wait_count :: "bool \<Rightarrow> sem_sets \<Rightarrow> int \<Rightarrow> int \<Rightarrow> int \<Rightarrow> sem_sets \<Rightarrow> int \<times> sem_sets" where
  "neb_sem_proc_wait_count interrupted later semid subid cnt w =
     neb_sem_timedop interrupted later semid (to_ushort subid) (to_short (0 - cnt)) w"

definition neb_sem_proc_wait_zeroed :: "bool \<Rightarrow> sem_sets \<Rightarrow> int \<Rightarrow> int \<Rightarrow> sem_sets \<Rightarrow> int \<times> sem_sets" where
  "neb_sem_proc_wait_zeroed interrupted later semid subid w =
     neb_sem_timedop interrupted later semid (to_ushort subid) 0 w"

definition neb_sem_proc_wait_removed :: "bool \<Rightarrow> sem_sets \<Rightarrow> int \<Rightarrow> int \<Rightarrow> sem_sets \<Rightarrow> int \<times> sem_sets" where
  "neb_sem_proc_wait_removed interrupted later semid subid w =
     (case semtimedop interrupted later semid (to_ushort subid) (-1) w of
        Inl e \<Rightarrow> (if e = EINVAL \<or> e = EIDRM then 0 else -1, later)
      | Inr w' \<Rightarrow> (-1, w'))"

section \<open>Properties\<close>

lemma to_ushort_id: "0 \<le> i \<Longrightarrow> i < 65536 \<Longrightarrow> to_ushort i = i"
  by (simp add: to_ushort_def)

lemma to_short_id: "-32768 \<le> i \<Longrightarrow> i \<le> 32767 \<Longrightarrow> to_short i = i"
  by (simp add: to_short_def)

lemma to_short_0: "to_short (0 - 65536 * k) = 0"
proof -
  have "(0 - 65536 * k + 32768) mod 65536 = (32768 + 65536 * (- k)) mod 65536" by (simp add: algebra_simps)
  also have "\<dots> = 32768" by (subst mod_mult_self2) simp
  finally show ?thesis by (simp add: to_short_def)
qed

lemma post_retries: "neb_sem_proc_post n semid subid w = neb_sem_proc_post 0 semid subid w"
  by (induction n) simp_all



text \<open>The calls of the loop from the i-th on all succeed.\<close>

definition calls_ok :: "(int \<Rightarrow> bool) \<Rightarrow> int \<Rightarrow> int \<Rightarrow> bool" where
  "calls_ok ok i n = (\<forall>j \<in> {i..<n}. ok j)"

lemma calls_ok_end: "\<not> i < n \<Longrightarrow> calls_ok ok i n"
  by (simp add: calls_ok_def)

lemma calls_ok_step: "i < n \<Longrightarrow> calls_ok ok i n \<longleftrightarrow> ok i \<and> calls_ok ok (i + 1) n"
  using simp_from_to [of i "n - 1"] by (auto simp: calls_ok_def Ball_def dest: order_le_imp_less_or_eq)

lemma create_loop_ok:
  assumes "w semid = Some vs" "vs \<noteq> []"
  shows "create_loop ok rmid_ok semid nsems i w =
    (if calls_ok ok i nsems then (semid, if i < nsems then w(semid \<mapsto> vs[0 := 0]) else w)
     else (-1, if rmid_ok then w(semid := None) else w(semid \<mapsto> (if ok i then vs[0 := 0] else vs))))"
  using assms
proof (induction ok rmid_ok semid nsems i w arbitrary: vs rule: create_loop.induct)
  case (1 ok rmid_ok semid nsems i w)
  show ?case
  proof (cases "i < nsems")
    case False
    then show ?thesis by (simp add: create_loop.simps calls_ok_end)
  next
    case True
    let ?w = "w(semid \<mapsto> vs[0 := 0])"
    have s: "semctl_SETVAL (ok i) semid 0 0 w = (if ok i then (0, ?w) else (-1, w))"
      using "1.prems" by (simp add: semctl_SETVAL_def SEMVMX_def)
    show ?thesis
    proof (cases "ok i")
      case False
      have ww: "w(semid \<mapsto> vs) = w" using "1.prems"(1) by (rule fun_upd_idem)
      have "\<not> calls_ok ok i nsems" using True False by (simp add: calls_ok_step)
      then show ?thesis using True False s "1.prems"(1) ww by (simp add: create_loop.simps [of ok] neb_sem_proc_destroy_def)
    next
      case ok: True
      have step: "create_loop ok rmid_ok semid nsems i w = create_loop ok rmid_ok semid nsems (i + 1) ?w"
        using True ok s by (subst create_loop.simps) simp
      have ih: "create_loop ok rmid_ok semid nsems (i + 1) ?w =
          (if calls_ok ok (i + 1) nsems then (semid, if i + 1 < nsems then ?w(semid \<mapsto> (vs[0 := 0])[0 := 0]) else ?w)
           else (-1, if rmid_ok then ?w(semid := None) else ?w(semid \<mapsto> (if ok (i + 1) then (vs[0 := 0])[0 := 0] else vs[0 := 0]))))"
        by (rule "1.IH" [OF True, of 0]) (use ok "1.prems"(2) s in auto)
      have "calls_ok ok i nsems = calls_ok ok (i + 1) nsems" using True ok by (simp add: calls_ok_step)
      then show ?thesis unfolding step ih using True ok by simp (simp add: fun_upd_def)
    qed
  qed
qed

text \<open>C38. Creating a set gives a new set whose first semaphore is zero; the loop sets the first semaphore every time, so the others keep
  the values the system gave them. When a call fails and the removal succeeds, no set is left, and no other set is touched.\<close>

theorem sem_create_first_only:
  assumes "semget (if private then None else Some key) nsems = Some (semid, vs)" "vs \<noteq> []" "0 < nsems" "w semid = None"
  shows "neb_sem_proc_create (if private then None else Some (Some key)) semget ok True nsems w =
    (if calls_ok ok 0 nsems then (semid, w(semid \<mapsto> vs[0 := 0])) else (-1, w))"
proof -
  have "w(semid := None) = w" using assms(4) by (rule fun_upd_idem)
  then show ?thesis using assms(1-3) create_loop_ok [of "w(semid \<mapsto> vs)" semid vs ok True nsems 0]
    by (simp add: neb_sem_proc_create_def Let_def split: if_splits)
qed

theorem sem_create_first_only_witness:
  "neb_sem_proc_create None (\<lambda>key n. Some (4, [9, 8])) (\<lambda>i. i < 2) True 2 Map.empty = (4, [4 \<mapsto> [0, 8]])"
  using sem_create_first_only [of "\<lambda>key n. Some (4, [9, 8])" True 0 2 4 "[9, 8]" Map.empty "\<lambda>i. i < 2"] by (simp add: calls_ok_def)


end
