(* ===== verification/Neb_Thread.thy ===== *)
theory Neb_Thread
  imports Neb_Sem Neb_Rbtree
begin

text \<open>
  Model of \<^verbatim>\<open>src/src/thread.c\<close>: the registry of running threads, kept in a tree ordered by
  thread number, with a destructor of thread specific data that takes a thread out when it ends. Every operation runs
  under the spin lock, so operations are atomic; the answers of the thread library and the allocator are arguments.
\<close>

section \<open>State\<close>

text \<open>\<open>specific\<close> is the value of the exit key of every thread, \<open>rbt_nodes\<close> are the allocated nodes.\<close>

record thread_state =
  thread_rbt_lock_ok :: bool
  thread_rbt_ok :: bool
  thread_rbt :: "nat list"
  rbt_nodes :: "nat \<Rightarrow> int option"
  thread_exit_key_ok :: bool
  thread_ready_sem :: "nat option"
  specific :: "int \<Rightarrow> int"

type_synonym 'a thcomp = "('a, thread_state) comp"

definition thread_start :: thread_state where
  "thread_start = \<lparr>thread_rbt_lock_ok = False, thread_rbt_ok = False, thread_rbt = [], rbt_nodes = Map.empty,
     thread_exit_key_ok = False, thread_ready_sem = None, specific = (\<lambda>p. 0)\<rparr>"

section \<open>The tree\<close>

definition thread_rbt_cmp_node :: "int \<Rightarrow> int \<Rightarrow> int" where
  "thread_rbt_cmp_node e p = (if e < p then -1 else if e = p then 0 else 1)"

definition thread_rbt_cmp_key :: "int \<Rightarrow> int \<Rightarrow> int" where
  "thread_rbt_cmp_key e ptid = (if e < ptid then -1 else if e = ptid then 0 else 1)"

definition thread_rbt_node_new :: "nat option \<Rightarrow> int \<Rightarrow> nat option thcomp" where
  "thread_rbt_node_new a ptid s = (case a of None \<Rightarrow> Inr (None, s)
     | Some n \<Rightarrow> Inr (Some n, s\<lparr>rbt_nodes := (rbt_nodes s)(n \<mapsto> ptid)\<rparr>))"

definition thread_rbt_node_del :: "nat \<Rightarrow> unit thcomp" where
  "thread_rbt_node_del n s = (if rbt_nodes s n = None then Inl UseAfterFree else Inr ((), s\<lparr>rbt_nodes := (rbt_nodes s)(n := None)\<rparr>))"

definition rbt_alive :: "thread_state \<Rightarrow> bool" where
  "rbt_alive s = list_all (\<lambda>n. rbt_nodes s n \<noteq> None) (thread_rbt s)"

definition th_insert_node :: "nat \<Rightarrow> nat thcomp" where
  "th_insert_node n s =
     (if \<not> rbt_alive s then Inl UseAfterFree
      else case seq_insert thread_rbt_cmp_node (\<lambda>a. the (rbt_nodes s a)) n (thread_rbt s) of
             (r, ns) \<Rightarrow> Inr (r, s\<lparr>thread_rbt := ns\<rparr>))"

definition th_find_node :: "int \<Rightarrow> nat option thcomp" where
  "th_find_node key s =
     (if \<not> rbt_alive s then Inl UseAfterFree
      else Inr (seq_find thread_rbt_cmp_key (\<lambda>a. the (rbt_nodes s a)) key (thread_rbt s), s))"

definition th_remove_node :: "nat option \<Rightarrow> unit thcomp" where
  "th_remove_node p s = (case p of None \<Rightarrow> Inl NullDeref
     | Some n \<Rightarrow> if \<not> rbt_alive s then Inl UseAfterFree else Inr ((), s\<lparr>thread_rbt := remove1 n (thread_rbt s)\<rparr>))"

section \<open>Operations\<close>

definition thread_rbt_add :: "nat option \<Rightarrow> int \<Rightarrow> int thcomp" where
  "thread_rbt_add a ptid =
     ebind (thread_rbt_node_new a ptid) (\<lambda>r. case r of
       None \<Rightarrow> eret (-1)
     | Some node \<Rightarrow> ebind (th_insert_node node) (\<lambda>tmp.
         if tmp \<noteq> node then eseq (thread_rbt_node_del node) (eret (-1)) else eret 0))"

text \<open>\<open>self\<close> is the calling thread.\<close>

definition thread_rbt_del :: "int \<Rightarrow> int \<Rightarrow> unit thcomp" where
  "thread_rbt_del self data =
     ebind (th_find_node (if data \<noteq> 0 then data else self)) (\<lambda>node.
     eseq (th_remove_node node) (case node of None \<Rightarrow> efail NullDeref | Some n \<Rightarrow> thread_rbt_node_del n))"

definition thread_rbt_exist :: "int \<Rightarrow> bool thcomp" where
  "thread_rbt_exist ptid = ebind (th_find_node ptid) (\<lambda>node. eret (node \<noteq> None))"

fun deinit_tree :: "nat list \<Rightarrow> unit thcomp" where
  "deinit_tree [] = eret ()"
| "deinit_tree (n # ns) = eseq (th_remove_node (Some n)) (eseq (thread_rbt_node_del n) (deinit_tree ns))"

definition upd_th :: "(thread_state \<Rightarrow> thread_state) \<Rightarrow> unit thcomp" where "upd_th f s = Inr ((), f s)"
definition get_th :: "thread_state thcomp" where "get_th s = Inr (s, s)"

definition neb_thread_deinit :: "unit thcomp" where
  "neb_thread_deinit =
     ebind get_th (\<lambda>s.
     eseq (ewhen (thread_ready_sem s \<noteq> None) (upd_th (\<lambda>s. s\<lparr>thread_ready_sem := neb_sem_notify_destroy (the (thread_ready_sem s))\<rparr>)))
    (eseq (ewhen (thread_exit_key_ok s) (upd_th (\<lambda>s. s\<lparr>thread_exit_key_ok := False\<rparr>)))
    (eseq (ewhen (thread_rbt_ok s) (eseq (deinit_tree (thread_rbt s)) (upd_th (\<lambda>s. s\<lparr>thread_rbt_ok := False\<rparr>))))
          (ewhen (thread_rbt_lock_ok s) (upd_th (\<lambda>s. s\<lparr>thread_rbt_lock_ok := False\<rparr>))))))"

definition neb_thread_init :: "bool \<Rightarrow> bool \<Rightarrow> bool \<Rightarrow> bool \<Rightarrow> int thcomp" where
  "neb_thread_init spin_ok key_ok malloc_ok sem_ok =
     (if \<not> spin_ok then eret (-1)
      else eseq (upd_th (\<lambda>s. s\<lparr>thread_rbt_lock_ok := True, thread_rbt := [], thread_rbt_ok := True\<rparr>))
          (if \<not> key_ok then eseq neb_thread_deinit (eret (-1))
           else eseq (upd_th (\<lambda>s. s\<lparr>thread_exit_key_ok := True, specific := (\<lambda>p. 0)\<rparr>))
               (case neb_sem_notify_create malloc_ok sem_ok 0 of
                  Inl e \<Rightarrow> efail e
                | Inr sem \<Rightarrow> eseq (upd_th (\<lambda>s. s\<lparr>thread_ready_sem := sem\<rparr>))
                    (if sem = None then eseq neb_thread_deinit (eret (-1)) else eret 0))))"

definition neb_thread_register :: "bool \<Rightarrow> nat option \<Rightarrow> int \<Rightarrow> int thcomp" where
  "neb_thread_register set_ok a self =
     (if \<not> set_ok then eret (-1)
      else eseq (upd_th (\<lambda>s. s\<lparr>specific := (specific s)(self := self)\<rparr>))
          (ebind (thread_rbt_add a self) (\<lambda>r. if r \<noteq> 0 then eret (-1) else eret 0)))"

definition neb_thread_set_ready :: "bool \<Rightarrow> int thcomp" where
  "neb_thread_set_ready post_ok = ebind get_th (\<lambda>s. case thread_ready_sem s of
     None \<Rightarrow> efail NullDeref
   | Some v \<Rightarrow> (case neb_sem_notify_signal post_ok v of (r, v') \<Rightarrow> eseq (upd_th (\<lambda>s. s\<lparr>thread_ready_sem := Some v'\<rparr>)) (eret r)))"

text \<open>\<open>waits\<close> are the answers while the creator waits for the signal of the new thread.\<close>

definition neb_thread_create :: "bool \<Rightarrow> bool \<Rightarrow> sem_wait list \<Rightarrow> int thcomp" where
  "neb_thread_create time_ok create_ok waits =
     (if \<not> time_ok then eret (-1) else if \<not> create_ok then eret (-1)
      else ebind get_th (\<lambda>s. case thread_ready_sem s of
        None \<Rightarrow> efail NullDeref
      | Some v \<Rightarrow> (case neb_sem_notify_timedwait waits v of
          Inl e \<Rightarrow> efail e
        | Inr (r, v') \<Rightarrow> eseq (upd_th (\<lambda>s. s\<lparr>thread_ready_sem := Some v'\<rparr>)) (eret r))))"

definition neb_thread_is_running :: "int \<Rightarrow> bool thcomp" where
  "neb_thread_is_running ptid = thread_rbt_exist ptid"

text \<open>What is called to end a thread.\<close>

datatype end_call = PthreadJoin int | PthreadKill int int | PthreadClockjoin int int

definition neb_thread_destroy :: "bool \<Rightarrow> bool \<Rightarrow> int option \<Rightarrow> bool \<Rightarrow> int \<Rightarrow> int \<Rightarrow> (int \<times> end_call list) thcomp" where
  "neb_thread_destroy join_ok kill_ok now clockjoin_ok ptid kill_signo =
     ebind (neb_thread_is_running ptid) (\<lambda>running.
       if \<not> running then eret (if join_ok then 0 else -1, [PthreadJoin ptid])
       else if \<not> kill_ok then eret (-1, [PthreadKill ptid kill_signo])
       else (case now of
          None \<Rightarrow> eret (-1, [PthreadKill ptid kill_signo])
        | Some sec \<Rightarrow> eret (if clockjoin_ok then 0 else -1, [PthreadKill ptid kill_signo, PthreadClockjoin ptid (sec + 1)])))"

text \<open>The end of a thread runs the destructor of the exit key with the value the thread has set.\<close>

definition thread_exit :: "int \<Rightarrow> unit thcomp" where
  "thread_exit self = ebind get_th (\<lambda>s.
     let data = specific s self in
     if \<not> thread_exit_key_ok s \<or> data = 0 then eret ()
     else eseq (upd_th (\<lambda>s. s\<lparr>specific := (specific s)(self := 0)\<rparr>)) (thread_rbt_del self data))"

lemma th_simps [evm_simps]: "upd_th f s = Inr ((), f s)" "get_th s = Inr (s, s)"
  by (simp_all add: upd_th_def get_th_def)

section \<open>The registry\<close>

interpretation thread_order: rb_total_order thread_rbt_cmp_node
  by unfold_locales (auto simp: thread_rbt_cmp_node_def split: if_splits)

text \<open>An initialised registry: the tree holds exactly the allocated nodes, in order, and a thread has set its key exactly when it has a
  node.\<close>

definition key_of :: "thread_state \<Rightarrow> nat \<Rightarrow> int" where "key_of s n = the (rbt_nodes s n)"

definition thread_inv :: "thread_state \<Rightarrow> bool" where
  "thread_inv s \<longleftrightarrow> thread_rbt_lock_ok s \<and> thread_rbt_ok s \<and> thread_exit_key_ok s \<and> thread_ready_sem s \<noteq> None \<and>
     (\<forall>n. n \<in> set (thread_rbt s) \<longleftrightarrow> rbt_nodes s n \<noteq> None) \<and> thread_order.ordered_by (key_of s) (thread_rbt s) \<and>
     (\<forall>p. specific s p = (if p \<in> key_of s ` set (thread_rbt s) then p else 0)) \<and> 0 \<notin> key_of s ` set (thread_rbt s)"

definition registered :: "thread_state \<Rightarrow> int set" where
  "registered s = key_of s ` set (thread_rbt s)"

lemma thread_invD:
  assumes "thread_inv s"
  shows "rbt_alive s" "n \<in> set (thread_rbt s) \<longleftrightarrow> rbt_nodes s n \<noteq> None" "thread_order.ordered_by (key_of s) (thread_rbt s)"
    "specific s p = (if p \<in> registered s then p else 0)" "0 \<notin> registered s" "thread_exit_key_ok s"
  using assms by (auto simp: thread_inv_def rbt_alive_def list_all_iff registered_def)

lemma thread_invI:
  assumes "thread_rbt_lock_ok s" "thread_rbt_ok s" "thread_exit_key_ok s" "thread_ready_sem s \<noteq> None"
    and "\<And>n. n \<in> set (thread_rbt s) \<longleftrightarrow> rbt_nodes s n \<noteq> None" "thread_order.ordered_by (key_of s) (thread_rbt s)"
    and "\<And>p. specific s p = (if p \<in> registered s then p else 0)" "0 \<notin> registered s"
  shows "thread_inv s"
  using assms unfolding thread_inv_def registered_def by blast

lemma thread_inv_flags:
  "thread_inv s \<Longrightarrow> thread_rbt_lock_ok s \<and> thread_rbt_ok s \<and> thread_exit_key_ok s \<and> thread_ready_sem s \<noteq> None"
  by (simp add: thread_inv_def)

lemma cmp_node_0: "thread_rbt_cmp_node x y = 0 \<longleftrightarrow> x = y"
  by (simp add: thread_rbt_cmp_node_def)

lemma find_ok:
  assumes "thread_inv s"
  shows "\<exists>f. th_find_node p s = Inr (f, s) \<and> (case f of None \<Rightarrow> p \<notin> registered s | Some n \<Rightarrow> n \<in> set (thread_rbt s) \<and> key_of s n = p)"
proof -
  have c: "(thread_rbt_cmp_key (the (rbt_nodes s n)) p = 0) = (key_of s n = p)" for n
    by (simp add: thread_rbt_cmp_key_def key_of_def)
  have run: "th_find_node p s = Inr (find (\<lambda>n. key_of s n = p) (thread_rbt s), s)"
    using thread_invD(1) [OF assms] by (simp add: th_find_node_def seq_find_def c)
  show ?thesis
  proof (cases "find (\<lambda>n. key_of s n = p) (thread_rbt s)")
    case None
    then have "p \<notin> registered s" by (auto simp: find_None_iff registered_def)
    then show ?thesis using run None by simp
  next
    case (Some n)
    then have "n \<in> set (thread_rbt s) \<and> key_of s n = p" by (auto simp: find_Some_iff)
    then show ?thesis using run Some by simp
  qed
qed

lemma is_running_ok:
  assumes "thread_inv s"
  shows "neb_thread_is_running p s = Inr (p \<in> registered s, s)"
proof -
  obtain f where f: "th_find_node p s = Inr (f, s)" "case f of None \<Rightarrow> p \<notin> registered s | Some n \<Rightarrow> n \<in> set (thread_rbt s) \<and> key_of s n = p"
    using find_ok [OF assms] by blast
  then show ?thesis by (cases f) (auto simp: neb_thread_is_running_def thread_rbt_exist_def evm_simps registered_def)
qed

lemma register_ok:
  assumes inv: "thread_inv s" and a: "a = Some n" "rbt_nodes s n = None" and p: "p \<noteq> 0"
  shows "\<exists>r s'. neb_thread_register ok a p s = Inr (r, s') \<and> thread_inv s' \<and>
    (if ok \<and> p \<notin> registered s then r = 0 \<and> registered s' = insert p (registered s) else r = -1 \<and> registered s' = registered s)"
proof (cases ok)
  case False
  then show ?thesis using inv by (simp add: neb_thread_register_def evm_simps)
next
  case True
  define s1 where "s1 = s\<lparr>specific := (specific s)(p := p), rbt_nodes := (rbt_nodes s)(n \<mapsto> p)\<rparr>"
  have n: "n \<notin> set (thread_rbt s)" using thread_invD(2) [OF inv, of n] a(2) by simp
  have k1: "key_of s1 m = (if m = n then p else key_of s m)" for m by (simp add: key_of_def s1_def)
  have rb1: "thread_rbt s1 = thread_rbt s" by (simp add: s1_def)
  have al: "rbt_alive s1" using thread_invD(1) [OF inv] by (auto simp: rbt_alive_def list_all_iff s1_def)
  have "thread_order.ordered_by (key_of s1) (thread_rbt s) = thread_order.ordered_by (key_of s) (thread_rbt s)"
    by (rule thread_order.ordered_by_cong) (use n k1 in auto)
  then have o1: "thread_order.ordered_by (key_of s1) (thread_rbt s)" using thread_invD(3) [OF inv] by simp
  obtain r ns where ins: "seq_insert thread_rbt_cmp_node (key_of s1) n (thread_rbt s) = (r, ns)" by fastforce
  note spec = thread_order.insert_spec [OF o1 n ins, unfolded cmp_node_0]
  have ins1: "th_insert_node n s1 = Inr (r, s1\<lparr>thread_rbt := ns\<rparr>)"
    using al ins by (simp add: th_insert_node_def rb1 key_of_def [abs_def])
  have ex: "(\<exists>x \<in> set (thread_rbt s). key_of s1 x = key_of s1 n) \<longleftrightarrow> p \<in> registered s"
    using n k1 by (auto simp: registered_def)
  have run: "neb_thread_register ok a p s = (if r \<noteq> n then eseq (thread_rbt_node_del n) (eret (-1)) else eret 0) (s1\<lparr>thread_rbt := ns\<rparr>)"
    using True a ins1 by (simp add: neb_thread_register_def thread_rbt_add_def thread_rbt_node_new_def evm_simps s1_def ebind_def
        thread_rbt_node_del_def split: if_splits)
  show ?thesis
  proof (cases "p \<in> registered s")
    case pr: True
    then have sp: "r \<in> set (thread_rbt s)" "ns = thread_rbt s" using spec ex by auto
    have rn: "r \<noteq> n" using sp(1) n by auto
    have "s1\<lparr>thread_rbt := ns, rbt_nodes := (rbt_nodes s1)(n := None)\<rparr> = s"
    proof -
      have "(rbt_nodes s)(n := None) = rbt_nodes s" "(specific s)(p := p) = specific s"
        using a(2) thread_invD(4) [OF inv, of p] pr by (auto simp: fun_upd_idem)
      then show ?thesis using sp(2) by (simp add: s1_def)
    qed
    then have "neb_thread_register ok a p s = Inr (-1, s)" using run rn by (simp add: evm_simps thread_rbt_node_del_def s1_def)
    then show ?thesis using inv pr by simp
  next
    case False
    then have sp: "r = n" "set ns = insert n (set (thread_rbt s))" "thread_order.ordered_by (key_of s1) ns" using spec ex by auto
    let ?s = "s1\<lparr>thread_rbt := ns\<rparr>"
    have ko: "key_of ?s = key_of s1" by (simp add: key_of_def fun_eq_iff)
    have reg: "registered ?s = insert p (registered s)" using sp(2) k1 n by (auto simp: registered_def ko image_iff)
    have "thread_inv ?s"
    proof (rule thread_invI)
      show "specific ?s q = (if q \<in> registered ?s then q else 0)" for q
        unfolding reg using thread_invD(4) [OF inv, of q] by (simp add: s1_def)
      show "m \<in> set (thread_rbt ?s) \<longleftrightarrow> rbt_nodes ?s m \<noteq> None" for m
        using thread_invD(2) [OF inv, of m] sp(2) by (simp add: s1_def)
      show "0 \<notin> registered ?s" unfolding reg using thread_invD(5) [OF inv] p by simp
    qed (use thread_inv_flags [OF inv] sp(3) ko in \<open>simp_all add: s1_def\<close>)
    then show ?thesis using run sp(1) True False reg by (simp add: evm_simps)
  qed
qed

lemma exit_ok:
  assumes inv: "thread_inv s"
  shows "\<exists>s'. thread_exit p s = Inr ((), s') \<and> thread_inv s' \<and> registered s' = registered s - {p}"
proof (cases "p \<in> registered s")
  case False
  then show ?thesis using inv thread_invD(4) [OF inv, of p] by (simp add: thread_exit_def evm_simps Let_def)
next
  case True
  then have p0: "p \<noteq> 0" "specific s p = p" using thread_invD(4,5) [OF inv] by auto
  obtain n where f: "th_find_node p s = Inr (Some n, s)" "n \<in> set (thread_rbt s)" "key_of s n = p"
    using find_ok [OF inv, of p] True by (auto split: option.splits)
  let ?s1 = "s\<lparr>specific := (specific s)(p := 0)\<rparr>"
  let ?s2 = "?s1\<lparr>thread_rbt := remove1 n (thread_rbt s), rbt_nodes := (rbt_nodes s)(n := None)\<rparr>"
  have f1: "th_find_node p ?s1 = Inr (Some n, ?s1)" using f(1) by (auto simp: th_find_node_def rbt_alive_def split: if_splits)
  have al: "rbt_alive ?s1" using thread_invD(1) [OF inv] by (simp add: rbt_alive_def)
  have run: "thread_exit p s = Inr ((), ?s2)"
    using p0 f1 al thread_invD(2) [OF inv, of n] f(2) thread_invD(6) [OF inv]
    by (auto simp: thread_exit_def evm_simps Let_def thread_rbt_del_def th_remove_node_def thread_rbt_node_del_def)
  have d: "distinct (thread_rbt s)" using thread_invD(3) [OF inv] by (rule thread_order.ordered_by_distinct)
  have rs: "set (thread_rbt ?s2) = set (thread_rbt s) - {n}" using d by (simp add: set_remove1_eq)
  have ko: "m \<noteq> n \<Longrightarrow> key_of ?s2 m = key_of s m" for m by (simp add: key_of_def)
  have uni: "m = n" if "m \<in> set (thread_rbt s)" "key_of s m = p" for m
    using thread_order.ordered_by_inj [OF thread_invD(3) [OF inv] that(1) f(2)] that(2) f(3) by (simp add: cmp_node_0)
  have reg: "registered ?s2 = registered s - {p}"
  proof
    show "registered ?s2 \<subseteq> registered s - {p}" unfolding registered_def rs using ko uni by auto
    show "registered s - {p} \<subseteq> registered ?s2"
    proof
      fix q assume "q \<in> registered s - {p}"
      then obtain m where "m \<in> set (thread_rbt s)" "key_of s m = q" "m \<noteq> n" using f(3) by (auto simp: registered_def)
      then show "q \<in> registered ?s2" unfolding registered_def rs using ko [of m] by (intro image_eqI [of _ _ m]) auto
    qed
  qed
  have "thread_order.ordered_by (key_of ?s2) (thread_rbt ?s2) = thread_order.ordered_by (key_of s) (thread_rbt ?s2)"
    by (rule thread_order.ordered_by_cong) (use rs ko in auto)
  then have o2: "thread_order.ordered_by (key_of ?s2) (thread_rbt ?s2)" using thread_invD(3) [OF inv] thread_order.ordered_by_remove1 by simp
  have "specific ?s2 q = (if q \<in> registered ?s2 then q else 0)" for q using thread_invD(4) [OF inv, of q] unfolding reg by simp
  moreover have "m \<in> set (thread_rbt ?s2) \<longleftrightarrow> rbt_nodes ?s2 m \<noteq> None" for m using thread_invD(2) [OF inv, of m] unfolding rs by simp
  moreover have "0 \<notin> registered ?s2" using thread_invD(5) [OF inv] unfolding reg by simp
  ultimately have "thread_inv ?s2" using thread_inv_flags [OF inv] o2 by (intro thread_invI) simp_all
  then show ?thesis using run reg by blast
qed

definition drop_nodes :: "nat list \<Rightarrow> (nat \<Rightarrow> int option) \<Rightarrow> nat \<Rightarrow> int option" where
  "drop_nodes ns h = (\<lambda>n. if n \<in> set ns then None else h n)"

lemma drop_nodes_simps: "drop_nodes [] h = h" "drop_nodes ns (h(n := None)) = drop_nodes (n # ns) h"
  by (auto simp: drop_nodes_def fun_eq_iff)

lemma deinit_tree_ok:
  assumes "thread_rbt s = ns" "\<forall>n \<in> set ns. rbt_nodes s n \<noteq> None" "distinct ns"
  shows "deinit_tree ns s = Inr ((), s\<lparr>thread_rbt := [], rbt_nodes := drop_nodes ns (rbt_nodes s)\<rparr>)"
  using assms
proof (induction ns arbitrary: s)
  case Nil
  then show ?case by (cases s) (simp add: evm_simps drop_nodes_simps)
next
  case (Cons n ns)
  let ?s = "s\<lparr>thread_rbt := ns, rbt_nodes := (rbt_nodes s)(n := None)\<rparr>"
  have al: "rbt_alive s" using Cons.prems by (auto simp: rbt_alive_def list_all_iff)
  have step: "deinit_tree (n # ns) s = deinit_tree ns ?s"
    using Cons.prems al by (simp add: evm_simps th_remove_node_def thread_rbt_node_del_def)
  have "deinit_tree ns ?s = Inr ((), ?s\<lparr>thread_rbt := [], rbt_nodes := drop_nodes ns (rbt_nodes ?s)\<rparr>)"
    by (rule Cons.IH) (use Cons.prems in auto)
  then show ?case unfolding step by (simp add: drop_nodes_simps)
qed

lemma deinit_ok:
  assumes inv: "thread_inv s"
  shows "\<exists>s'. neb_thread_deinit s = Inr ((), s') \<and> rbt_nodes s' = Map.empty \<and> thread_rbt s' = [] \<and> \<not> thread_rbt_lock_ok s' \<and> \<not> thread_rbt_ok s' \<and>
    \<not> thread_exit_key_ok s' \<and> thread_ready_sem s' = None"
proof -
  let ?s = "s\<lparr>thread_ready_sem := None, thread_exit_key_ok := False\<rparr>"
  have d: "distinct (thread_rbt s)" using thread_invD(3) [OF inv] by (rule thread_order.ordered_by_distinct)
  have al: "\<forall>n \<in> set (thread_rbt s). rbt_nodes s n \<noteq> None" using thread_invD(2) [OF inv] by simp
  have e: "drop_nodes (thread_rbt s) (rbt_nodes s) = Map.empty" using thread_invD(2) [OF inv] by (auto simp: drop_nodes_def fun_eq_iff)
  have "deinit_tree (thread_rbt s) ?s = Inr ((), ?s\<lparr>thread_rbt := [], rbt_nodes := Map.empty\<rparr>)"
    using deinit_tree_ok [of ?s "thread_rbt s"] d al e by simp
  then show ?thesis using thread_inv_flags [OF inv] by (auto simp: neb_thread_deinit_def evm_simps neb_sem_notify_destroy_def)
qed

lemma init_ok:
  "neb_thread_init True True True True thread_start = Inr (0, s) \<Longrightarrow> thread_inv s \<and> registered s = {}"
  by (auto simp: neb_thread_init_def evm_simps neb_sem_notify_create_def thread_start_def thread_inv_def registered_def thread_order.ordered_by_def)

section \<open>The interface\<close>

datatype thread_call = Register bool nat int | Exit int | IsRunning int | SetReady bool | Destroy bool bool "int option" bool int int

datatype thread_ret = ThInt int | ThBool bool | ThEnd int "end_call list" | ThVoid

fun run_thread :: "thread_call \<Rightarrow> thread_ret thcomp" where
  "run_thread (Register ok n p) = ebind (neb_thread_register ok (Some n) p) (\<lambda>r. eret (ThInt r))"
| "run_thread (Exit p) = eseq (thread_exit p) (eret ThVoid)"
| "run_thread (IsRunning p) = ebind (neb_thread_is_running p) (\<lambda>b. eret (ThBool b))"
| "run_thread (SetReady ok) = ebind (neb_thread_set_ready ok) (\<lambda>r. eret (ThInt r))"
| "run_thread (Destroy j k now c p sig) = ebind (neb_thread_destroy j k now c p sig) (\<lambda>(r, cs). eret (ThEnd r cs))"

fun legal_thread :: "thread_state \<Rightarrow> thread_call \<Rightarrow> bool" where
  "legal_thread s (Register ok n p) = (rbt_nodes s n = None \<and> p \<noteq> 0)"
| "legal_thread s _ = True"

text \<open>The specification: the set of the registered threads.\<close>

fun spec_thread :: "thread_call \<Rightarrow> int set \<Rightarrow> thread_ret \<Rightarrow> int set \<Rightarrow> bool" where
  "spec_thread (Register ok n p) S r S' \<longleftrightarrow>
     (if ok \<and> p \<notin> S then r = ThInt 0 \<and> S' = insert p S else r = ThInt (-1) \<and> S' = S)"
| "spec_thread (Exit p) S r S' \<longleftrightarrow> r = ThVoid \<and> S' = S - {p}"
| "spec_thread (IsRunning p) S r S' \<longleftrightarrow> r = ThBool (p \<in> S) \<and> S' = S"
| "spec_thread (SetReady ok) S r S' \<longleftrightarrow> r = ThInt (if ok then 0 else -1) \<and> S' = S"
| "spec_thread (Destroy j k now c p sig) S r S' \<longleftrightarrow> S' = S \<and>
     (if p \<notin> S then r = ThEnd (if j then 0 else -1) [PthreadJoin p]
      else \<exists>cs. r = ThEnd (if k \<and> now \<noteq> None \<and> c then 0 else -1) (PthreadKill p sig # cs))"

lemma set_ready_ok:
  assumes "thread_inv s"
  shows "\<exists>s'. neb_thread_set_ready ok s = Inr (if ok then 0 else -1, s') \<and> thread_inv s' \<and> registered s' = registered s"
proof -
  obtain v where v: "thread_ready_sem s = Some v" using thread_inv_flags [OF assms] by auto
  have "thread_inv (s\<lparr>thread_ready_sem := Some x\<rparr>)" "registered (s\<lparr>thread_ready_sem := Some x\<rparr>) = registered s" for x
    using assms by (simp_all add: thread_inv_def registered_def key_of_def [abs_def])
  then show ?thesis using v by (auto simp: neb_thread_set_ready_def evm_simps neb_sem_notify_signal_def)
qed

interpretation thread_api: api_refinement run_thread legal_thread thread_inv registered spec_thread
proof
  fix s c assume inv: "thread_inv s" and l: "legal_thread s c"
  show "\<exists>r s'. run_thread c s = Inr (r, s') \<and> thread_inv s' \<and> spec_thread c (registered s) r (registered s')"
  proof (cases c)
    case (Register ok n p)
    with l obtain r s' where "neb_thread_register ok (Some n) p s = Inr (r, s')" "thread_inv s'"
      "if ok \<and> p \<notin> registered s then r = 0 \<and> registered s' = insert p (registered s) else r = -1 \<and> registered s' = registered s"
      using register_ok [OF inv refl, of n p ok] by auto
    then show ?thesis using Register by (auto simp: evm_simps)
  next
    case (Exit p)
    then show ?thesis using exit_ok [OF inv, of p] by (auto simp: evm_simps)
  next
    case (IsRunning p)
    then show ?thesis using is_running_ok [OF inv, of p] inv by (simp add: evm_simps)
  next
    case (SetReady ok)
    then show ?thesis using set_ready_ok [OF inv, of ok] by (auto simp: evm_simps)
  next
    case (Destroy j k now x p sig)
    then show ?thesis using is_running_ok [OF inv, of p] inv
      by (auto simp: evm_simps neb_thread_destroy_def split: option.splits)
  qed
qed

text \<open>A thread whose registration failed for lack of memory has set its exit key but has no node: when it ends, the destructor
  removes a node that was not found.\<close>

lemma failed_register_then_exit:
  assumes "thread_inv s" "p \<noteq> 0" "p \<notin> registered s" "neb_thread_register True None p s = Inr (r, s')"
  shows "r = -1" "thread_exit p s' = Inl NullDeref"
proof -
  have s': "r = -1" "s' = s\<lparr>specific := (specific s)(p := p)\<rparr>"
    using assms(4) by (simp_all add: neb_thread_register_def thread_rbt_add_def thread_rbt_node_new_def evm_simps)
  then show "r = -1" by simp
  obtain f where f: "th_find_node p s = Inr (f, s)" "case f of None \<Rightarrow> p \<notin> registered s | Some n \<Rightarrow> n \<in> set (thread_rbt s) \<and> key_of s n = p"
    using find_ok [OF assms(1), of p] by blast
  moreover have "f = None" using f(2) assms(3) by (cases f) (auto simp: registered_def)
  ultimately have "th_find_node p (s'\<lparr>specific := (specific s')(p := 0)\<rparr>) = Inr (None, s'\<lparr>specific := (specific s')(p := 0)\<rparr>)"
    using s'(2) by (auto simp: th_find_node_def rbt_alive_def split: if_splits)
  then show "thread_exit p s' = Inl NullDeref"
    using s'(2) assms(2) thread_invD(6) [OF assms(1)]
    by (simp add: thread_exit_def evm_simps Let_def thread_rbt_del_def th_remove_node_def)
qed

section \<open>Properties\<close>


definition sample_threads :: thread_state where
  "sample_threads = (case neb_thread_init True True True True thread_start of Inr (r, s) \<Rightarrow> s | Inl e \<Rightarrow> thread_start)"

definition sample_thread_calls :: "thread_call list" where
  "sample_thread_calls = [Register True 1 50, Register True 2 40, Register True 3 50, IsRunning 40, Exit 40, IsRunning 40, Destroy True True (Some 9) True 50 15]"


end
