(* ===== verification/Neb_Unix.thy ===== *)
theory Neb_Unix
  imports Neb_Prelude
begin

unbundle bit_operations_syntax

text \<open>
  Model of \<^verbatim>\<open>src/src/sock/unix.c\<close> (Linux): creating, binding and connecting Unix sockets and passing
  descriptors in control messages, with the file type query of
  \<^verbatim>\<open>src/src/file/stat.c\<close> that binding uses. The state is the set of open descriptors of the process
  and the addresses of its sockets; the answers of system calls are arguments.
\<close>

section \<open>File types\<close>

datatype neb_ftype = NEB_FTYPE_UNKNOWN | NEB_FTYPE_NOENT | NEB_FTYPE_REG | NEB_FTYPE_DIR | NEB_FTYPE_SOCK
  | NEB_FTYPE_FIFO | NEB_FTYPE_LINK | NEB_FTYPE_BLK | NEB_FTYPE_CHR

text \<open>The answer of \<open>statx\<close>: no such file, another error, or the mode.\<close>

datatype stat_ans = NoEnt | StatError | Mode u32

definition S_IFMT :: u32 where "S_IFMT = 0xF000"

definition neb_subfile_get_type :: "stat_ans \<Rightarrow> neb_ftype" where
  "neb_subfile_get_type st = (case st of
     NoEnt \<Rightarrow> NEB_FTYPE_NOENT
   | StatError \<Rightarrow> NEB_FTYPE_UNKNOWN
   | Mode fmod \<Rightarrow>
       (let t = fmod AND S_IFMT in
        if t = 0x8000 then NEB_FTYPE_REG
        else if t = 0x4000 then NEB_FTYPE_DIR
        else if t = 0xC000 then NEB_FTYPE_SOCK
        else if t = 0x1000 then NEB_FTYPE_FIFO
        else if t = 0xA000 then NEB_FTYPE_LINK
        else if t = 0x6000 then NEB_FTYPE_BLK
        else if t = 0x2000 then NEB_FTYPE_CHR
        else NEB_FTYPE_UNKNOWN))"

definition neb_file_get_type :: "(string \<Rightarrow> stat_ans) \<Rightarrow> string \<Rightarrow> neb_ftype" where
  "neb_file_get_type statx path = neb_subfile_get_type (statx path)"

section \<open>Sockets\<close>

record unix_world =
  open_fds :: "int set"
  sun_path :: "int \<Rightarrow> string option"

datatype connect_ans = ConnDone | ConnInProgress | ConnError

datatype poll_ans = PollInterrupted | PollError | PollTimeout | PollReady

text \<open>\<open>k_socket\<close> is the new descriptor, \<open>k_soerror\<close> the value of \<open>SO_ERROR\<close>, \<open>None\<close> a failed call.\<close>

record sock_kernel =
  k_socket :: "int option"
  k_bind :: bool
  k_connect :: connect_ans
  k_polls :: "poll_ans list"
  k_soerror :: "int option"
  k_statx :: "string \<Rightarrow> stat_ans"

definition SUN_PATH_SIZE :: nat where "SUN_PATH_SIZE = 108"
definition NEB_UNIX_ADDR_MAXLEN :: nat where "NEB_UNIX_ADDR_MAXLEN = SUN_PATH_SIZE - 1"

definition sys_close_fd :: "int \<Rightarrow> unix_world \<Rightarrow> unix_world" where
  "sys_close_fd fd w = w\<lparr>open_fds := open_fds w - {fd}, sun_path := (sun_path w)(fd := None)\<rparr>"

definition neb_sock_unix_new :: "sock_kernel \<Rightarrow> unix_world \<Rightarrow> int option \<times> unix_world" where
  "neb_sock_unix_new k w = (case k_socket k of
     None \<Rightarrow> (None, w)
   | Some fd \<Rightarrow> (Some fd, w\<lparr>open_fds := insert fd (open_fds w)\<rparr>))"

text \<open>\<open>strncpy\<close> into \<open>sun_path\<close> with the last byte cleared.\<close>

definition copy_path :: "string \<Rightarrow> string" where "copy_path addr = take (SUN_PATH_SIZE - 1) addr"

definition neb_sock_unix_new_binded :: "sock_kernel \<Rightarrow> string \<Rightarrow> unix_world \<Rightarrow> int option \<times> unix_world" where
  "neb_sock_unix_new_binded k addr w =
     (if length addr > NEB_UNIX_ADDR_MAXLEN then (None, w)
      else if neb_file_get_type (k_statx k) addr \<noteq> NEB_FTYPE_NOENT then (None, w)
      else (case neb_sock_unix_new k w of
        (None, w1) \<Rightarrow> (None, w1)
      | (Some fd, w1) \<Rightarrow>
          if \<not> k_bind k then (None, sys_close_fd fd w1)
          else (Some fd, w1\<lparr>sun_path := (sun_path w1)(fd \<mapsto> copy_path addr)\<rparr>)))"

fun connect_loop :: "sock_kernel \<Rightarrow> poll_ans list \<Rightarrow> int \<Rightarrow> unix_world \<Rightarrow> (int option \<times> unix_world) outcome" where
  "connect_loop k [] fd w = Inl NoEnd"
| "connect_loop k (p # ps) fd w = (case p of
     PollInterrupted \<Rightarrow> connect_loop k ps fd w
   | PollError \<Rightarrow> Inr (None, sys_close_fd fd w)
   | PollTimeout \<Rightarrow> Inr (None, sys_close_fd fd w)
   | PollReady \<Rightarrow> (case k_soerror k of
       None \<Rightarrow> Inr (None, sys_close_fd fd w)
     | Some soe \<Rightarrow> if soe \<noteq> 0 then Inr (None, sys_close_fd fd w) else Inr (Some fd, w)))"

definition neb_sock_unix_new_connected :: "sock_kernel \<Rightarrow> string \<Rightarrow> unix_world \<Rightarrow> (int option \<times> unix_world) outcome" where
  "neb_sock_unix_new_connected k addr w =
     (if length addr > NEB_UNIX_ADDR_MAXLEN then Inr (None, w)
      else (case neb_sock_unix_new k w of
        (None, w1) \<Rightarrow> Inr (None, w1)
      | (Some fd, w1) \<Rightarrow>
          if k_connect k = ConnError then Inr (None, sys_close_fd fd w1)
          else connect_loop k (k_polls k) fd (w1\<lparr>sun_path := (sun_path w1)(fd \<mapsto> copy_path addr)\<rparr>)))"

section \<open>Descriptors in control messages\<close>

definition NEB_UNIX_MAX_CMSG_FD :: int where "NEB_UNIX_MAX_CMSG_FD = 16"

definition CMSG_ALIGN :: "int \<Rightarrow> int" where "CMSG_ALIGN len = (len + 7) div 8 * 8"
definition CMSG_SPACE :: "int \<Rightarrow> int" where "CMSG_SPACE len = CMSG_ALIGN len + CMSG_ALIGN 16"
definition CMSG_LEN :: "int \<Rightarrow> int" where "CMSG_LEN len = CMSG_ALIGN 16 + len"

datatype cmsg = SCM_RIGHTS "int list" | OtherCmsg

text \<open>A message: how many bytes of data, and the control message.\<close>

type_synonym unix_msg = "int \<times> cmsg option"

text \<open>What \<open>recvmsg\<close> answers for a buffer for control messages of a given size.\<close>

datatype recv_ans = RecvError | RecvMsg int bool "cmsg option"

definition neb_sock_unix_send_with_fds :: "int option \<Rightarrow> int list \<Rightarrow> int \<Rightarrow> (int \<times> unix_msg option) outcome" where
  "neb_sock_unix_send_with_fds sent fds fd_num =
     (if fd_num \<ge> NEB_UNIX_MAX_CMSG_FD then Inr (-1, None)
      else if fd_num < 0 \<or> int (length fds) < fd_num then Inl OutOfBounds
      else (case sent of
        None \<Rightarrow> Inr (-1, None)
      | Some nw \<Rightarrow> Inr (nw, Some (nw, Some (SCM_RIGHTS (take (nat fd_num) fds))))))"

text \<open>Received descriptors are open whether or not the caller learns of them.\<close>

definition installed :: "recv_ans \<Rightarrow> int set" where
  "installed a = (case a of RecvMsg nr ct (Some (SCM_RIGHTS ms)) \<Rightarrow> set ms | _ \<Rightarrow> {})"

definition neb_sock_unix_recv_with_fds ::
  "(int \<Rightarrow> recv_ans) \<Rightarrow> int list \<Rightarrow> int \<Rightarrow> unix_world \<Rightarrow> ((int \<times> int list \<times> int) \<times> unix_world) outcome" where
  "neb_sock_unix_recv_with_fds recvmsg fds fd_num w =
     (if fd_num \<ge> NEB_UNIX_MAX_CMSG_FD then Inr ((-1, fds, fd_num), w)
      else if CMSG_SPACE (4 * (fd_num + 1)) \<le> 0 then Inl OutOfBounds
      else (let a = recvmsg (CMSG_SPACE (4 * (fd_num + 1)));
                w' = w\<lparr>open_fds := open_fds w \<union> installed a\<rparr> in
        case a of
          RecvError \<Rightarrow> Inr ((-1, fds, fd_num), w')
        | RecvMsg nr ctrunc c \<Rightarrow>
            if nr = 0 then Inr ((0, fds, fd_num), w')
            else if ctrunc then Inr ((-1, fds, fd_num), w')
            else (case c of
              None \<Rightarrow> Inl NullDeref
            | Some OtherCmsg \<Rightarrow> Inr ((-1, fds, 0), w')
            | Some (SCM_RIGHTS ms) \<Rightarrow>
                (let n = length ms in
                 if n = 0 then Inr ((nr, fds, 0), w')
                 else obind (array_copy fds 0 ms) (\<lambda>fds. Inr ((nr, fds, int n), w'))))))"

section \<open>Properties\<close>

text \<open>How the system delivers a message with descriptors into a buffer: as many as the buffer has room for, and the truncation
  flag when there are more.\<close>

definition deliver :: "unix_msg \<Rightarrow> int \<Rightarrow> recv_ans" where
  "deliver m room = (case m of
     (nr, Some (SCM_RIGHTS ms)) \<Rightarrow>
       (let cap = nat ((room - CMSG_LEN 0) div 4) in
        if length ms \<le> cap then RecvMsg nr False (Some (SCM_RIGHTS ms)) else RecvMsg nr True (Some (SCM_RIGHTS (take cap ms))))
   | (nr, c) \<Rightarrow> RecvMsg nr False c)"

text \<open>The room for descriptors in the buffer of a receiver that asks for \<open>m\<close>: one more, and another when that is odd.\<close>

definition fd_room :: "int \<Rightarrow> int" where "fd_room m = (if even m then m + 2 else m + 1)"

lemma room_of: "(CMSG_SPACE (4 * (m + 1)) - CMSG_LEN 0) div 4 = fd_room m"
proof -
  define k where "k = m div 2"
  have k: "m = 2 * k \<or> m = 2 * k + 1" unfolding k_def by presburger
  have "(8 * k + 11) div 8 = k + 1" "(8 * k + 15) div 8 = k + 1" by presburger+
  then show ?thesis using k by (auto simp: CMSG_SPACE_def CMSG_LEN_def CMSG_ALIGN_def fd_room_def algebra_simps)
qed

lemma room_pos: "0 \<le> m \<Longrightarrow> \<not> CMSG_SPACE (4 * (m + 1)) \<le> 0"
  by (simp add: CMSG_SPACE_def CMSG_ALIGN_def)

text \<open>C39. Descriptors that are sent to a receiver with an array of the announced size arrive exactly, and the count with them, when the array has
  room for all. One descriptor more, or two when the size is even, still fit the control buffer and are written behind the array. Beyond that the call fails and
  the descriptors that were delivered stay open unknown to the caller. A message without control data makes the receiver follow a null
  pointer.\<close>

theorem unix_fds_transfer:
  assumes "0 < n" "n < NEB_UNIX_MAX_CMSG_FD" "int (length sent_fds) = n" "0 < nw" "0 \<le> m" "m < NEB_UNIX_MAX_CMSG_FD" "int (length fds) = m"
  shows "\<exists>msg. neb_sock_unix_send_with_fds (Some nw) sent_fds n = Inr (nw, Some msg) \<and>
    neb_sock_unix_recv_with_fds (deliver msg) fds m w =
      (if n \<le> m then Inr ((nw, sent_fds @ drop (nat n) fds, n), w\<lparr>open_fds := open_fds w \<union> set sent_fds\<rparr>)
       else if n \<le> fd_room m then Inl OutOfBounds
       else Inr ((-1, fds, m), w\<lparr>open_fds := open_fds w \<union> set (take (nat (fd_room m)) sent_fds)\<rparr>)) \<and>
    neb_sock_unix_recv_with_fds (deliver (nw, None)) fds m w = Inl NullDeref"
proof -
  have t: "take (nat n) sent_fds = sent_fds" using assms(3) by simp
  have s: "neb_sock_unix_send_with_fds (Some nw) sent_fds n = Inr (nw, Some (nw, Some (SCM_RIGHTS sent_fds)))"
    using assms(1-3) t by (simp add: neb_sock_unix_send_with_fds_def)
  have r: "neb_sock_unix_recv_with_fds (deliver (nw, Some (SCM_RIGHTS sent_fds))) fds m w =
      (if n \<le> m then Inr ((nw, sent_fds @ drop (nat n) fds, n), w\<lparr>open_fds := open_fds w \<union> set sent_fds\<rparr>)
       else if n \<le> fd_room m then Inl OutOfBounds
       else Inr ((-1, fds, m), w\<lparr>open_fds := open_fds w \<union> set (take (nat (fd_room m)) sent_fds)\<rparr>))"
  proof -
    have "0 \<le> fd_room m" using assms(5) by (simp add: fd_room_def)
    then have fit: "length sent_fds \<le> nat (fd_room m) \<longleftrightarrow> n \<le> fd_room m" using assms(3) by (auto simp: le_nat_iff nat_le_iff)
    have le: "n \<le> m \<Longrightarrow> n \<le> fd_room m" by (simp add: fd_room_def)
    have ar: "length sent_fds \<le> length fds \<longleftrightarrow> n \<le> m" using assms(3,7) by linarith
    have nn: "nat n = length sent_fds" "sent_fds \<noteq> []" using assms(1,3) by auto
    show ?thesis
      using assms(4,6) fit le ar nn assms(3)
      by (simp add: neb_sock_unix_recv_with_fds_def deliver_def room_of [simplified] room_pos [OF assms(5), simplified] Let_def installed_def array_copy_def)
  qed
  have "neb_sock_unix_recv_with_fds (deliver (nw, None)) fds m w = Inl NullDeref"
    using assms(4,6) by (simp add: neb_sock_unix_recv_with_fds_def deliver_def room_pos [OF assms(5), simplified])
  then show ?thesis using s r by blast
qed

theorem unix_fds_transfer_witness:
  "\<exists>msg. neb_sock_unix_send_with_fds (Some 1) [7, 8, 9] 3 = Inr (1, Some msg) \<and>
    neb_sock_unix_recv_with_fds (deliver msg) [0, 0] 2 \<lparr>open_fds = {}, sun_path = Map.empty\<rparr> = Inl OutOfBounds"
  using unix_fds_transfer [of 3 "[7, 8, 9]" 1 2 "[0, 0]" "\<lparr>open_fds = {}, sun_path = Map.empty\<rparr>"]
  by (auto simp: NEB_UNIX_MAX_CMSG_FD_def fd_room_def)

lemma connect_loop_ok:
  assumes "\<exists>p \<in> set ps. p \<noteq> PollInterrupted"
  shows "\<exists>r w'. connect_loop k ps fd w = Inr (r, w') \<and> (r = Some fd \<and> w' = w \<or> r = None \<and> w' = sys_close_fd fd w)"
  using assms
proof (induction ps)
  case (Cons p ps)
  then show ?case by (cases p) (auto split: option.split)
qed simp

text \<open>A socket with the address \<open>addr\<close> was added, or nothing changed.\<close>

definition new_sock :: "string \<Rightarrow> int option \<Rightarrow> unix_world \<Rightarrow> unix_world \<Rightarrow> bool" where
  "new_sock addr r w w' \<longleftrightarrow> (case r of None \<Rightarrow> w' = w
     | Some fd \<Rightarrow> w' = w\<lparr>open_fds := insert fd (open_fds w), sun_path := (sun_path w)(fd \<mapsto> addr)\<rparr>)"

text \<open>C40. Binding and connecting return, however often the wait for the connection is interrupted as long as it is answered once; on every
  path they either give a new descriptor whose address is the whole of the given path, or fail and leave no descriptor behind. An address longer than
  \<open>sun_path\<close> holds, and for binding an address where a file exists, is refused.\<close>

theorem unix_new_all_or_nothing:
  assumes "\<forall>fd. k_socket k = Some fd \<longrightarrow> fd \<notin> open_fds w \<and> sun_path w fd = None" "\<exists>p \<in> set (k_polls k). p \<noteq> PollInterrupted"
  shows "(case neb_sock_unix_new_binded k addr w of (r, w') \<Rightarrow> new_sock addr r w w' \<and>
      (r \<noteq> None \<longrightarrow> length addr < SUN_PATH_SIZE \<and> k_statx k addr = NoEnt)) \<and>
    (\<exists>r w'. neb_sock_unix_new_connected k addr w = Inr (r, w') \<and> new_sock addr r w w' \<and> (r \<noteq> None \<longrightarrow> length addr < SUN_PATH_SIZE))"
proof -
  have cl: "sys_close_fd fd (w\<lparr>open_fds := insert fd (open_fds w)\<rparr>) = w"
    "sys_close_fd fd (w\<lparr>open_fds := insert fd (open_fds w), sun_path := (sun_path w)(fd \<mapsto> x)\<rparr>) = w" if "k_socket k = Some fd" for fd x
    using assms(1) that by (auto simp: sys_close_fd_def fun_upd_idem)
  have cp: "\<not> NEB_UNIX_ADDR_MAXLEN < length addr \<Longrightarrow> copy_path addr = addr \<and> length addr < SUN_PATH_SIZE"
    by (simp add: copy_path_def NEB_UNIX_ADDR_MAXLEN_def SUN_PATH_SIZE_def)
  have ne: "neb_file_get_type (k_statx k) addr = NEB_FTYPE_NOENT \<Longrightarrow> k_statx k addr = NoEnt"
    by (auto simp: neb_file_get_type_def neb_subfile_get_type_def Let_def split: stat_ans.splits if_splits)
  have "case neb_sock_unix_new_binded k addr w of (r, w') \<Rightarrow> new_sock addr r w w' \<and>
      (r \<noteq> None \<longrightarrow> length addr < SUN_PATH_SIZE \<and> k_statx k addr = NoEnt)"
    using cl cp ne by (auto simp: neb_sock_unix_new_binded_def neb_sock_unix_new_def new_sock_def split: option.split)
  moreover have "\<exists>r w'. neb_sock_unix_new_connected k addr w = Inr (r, w') \<and> new_sock addr r w w' \<and> (r \<noteq> None \<longrightarrow> length addr < SUN_PATH_SIZE)"
  proof (cases "k_socket k")
    case None
    then show ?thesis by (auto simp: neb_sock_unix_new_connected_def neb_sock_unix_new_def new_sock_def)
  next
    case (Some fd)
    let ?w = "w\<lparr>open_fds := insert fd (open_fds w), sun_path := (sun_path w)(fd \<mapsto> copy_path addr)\<rparr>"
    have "\<exists>r w'. connect_loop k (k_polls k) fd ?w = Inr (r, w') \<and> (r = Some fd \<and> w' = ?w \<or> r = None \<and> w' = w)"
      using connect_loop_ok [OF assms(2), of k fd ?w] cl(2) [OF Some] by auto
    then show ?thesis using Some cl [OF Some] cp by (auto simp: neb_sock_unix_new_connected_def neb_sock_unix_new_def new_sock_def)
  qed
  ultimately show ?thesis by blast
qed

definition sample_sock_kernel :: sock_kernel where
  "sample_sock_kernel = \<lparr>k_socket = Some 5, k_bind = True, k_connect = ConnInProgress, k_polls = [PollInterrupted, PollReady], k_soerror = Some 111,
     k_statx = (\<lambda>p. NoEnt)\<rparr>"

theorem unix_new_all_or_nothing_witness:
  "\<exists>r w'. neb_sock_unix_new_connected sample_sock_kernel ''/run/x'' \<lparr>open_fds = {0, 1, 2}, sun_path = Map.empty\<rparr> = Inr (r, w') \<and>
    new_sock ''/run/x'' r \<lparr>open_fds = {0, 1, 2}, sun_path = Map.empty\<rparr> w'"
  using unix_new_all_or_nothing [of sample_sock_kernel "\<lparr>open_fds = {0, 1, 2}, sun_path = Map.empty\<rparr>" "''/run/x''"]
  by (auto simp: sample_sock_kernel_def)


end
