(* ===== verification/Neb_Rb.thy ===== *)
theory Neb_Rb
  imports Neb_Prelude
begin

unbundle bit_operations_syntax

text \<open>
  Pointer level model of the red-black tree, \<^verbatim>\<open>src/compat/rbtree/rb.c\<close> and
  \<^verbatim>\<open>src/include/nebase/compat/rbtree/sys/rbtree.h\<close>, without the debugging and statistics code.
  Nodes live in a memory from addresses to records; the pointer to the father, the position and the colour of a node share one
  word, as in the source. The tree is read and written as the left child of a node at its own
  address, which is the way the source avoids the test for the root: \<open>rbt_root\<close> is the first member of
  \<open>struct rb_tree\<close>. Any other use of that address as a node is a fault, as is a null pointer and an address
  that holds no node. Loops take a bound and end with the fault \<open>NoEnd\<close> beyond it.
\<close>

section \<open>Nodes and trees\<close>

text \<open>Directions: \<open>RB_DIR_LEFT\<close> is 0, \<open>RB_DIR_RIGHT\<close> is 1, and an exclusive or with
  \<open>RB_DIR_OTHER\<close> is negation.\<close>

type_synonym dir = bool

abbreviation (input) RB_DIR_LEFT :: dir where "RB_DIR_LEFT \<equiv> False"
abbreviation (input) RB_DIR_RIGHT :: dir where "RB_DIR_RIGHT \<equiv> True"

record rb_node =
  rb_nodes :: "dir \<Rightarrow> u64"
  rb_info :: u64

record rb_world =
  rb_mem :: "u64 \<Rightarrow> rb_node option"
  rbt_self :: u64
  rbt_minmax :: "dir \<Rightarrow> u64"

record 'k rb_tree_ops =
  rbto_compare_nodes :: "u64 \<Rightarrow> u64 \<Rightarrow> int"
  rbto_compare_key :: "u64 \<Rightarrow> 'k \<Rightarrow> int"
  rbto_node_offset :: u64

abbreviation (input) RB_SENTINEL_NODE :: u64 where "RB_SENTINEL_NODE \<equiv> 0"

definition RB_NODETOITEM :: "'k rb_tree_ops \<Rightarrow> u64 \<Rightarrow> u64" where "RB_NODETOITEM rbto rbn = rbn - rbto_node_offset rbto"
definition RB_ITEMTONODE :: "'k rb_tree_ops \<Rightarrow> u64 \<Rightarrow> u64" where "RB_ITEMTONODE rbto rbn = rbn + rbto_node_offset rbto"

section \<open>Access to memory\<close>

type_synonym 'a rbc = "('a, rb_world) comp"

definition node_at :: "u64 \<Rightarrow> rb_node rbc" where
  "node_at p w = (if p = 0 then Inl NullDeref else case rb_mem w p of None \<Rightarrow> Inl UseAfterFree | Some n \<Rightarrow> Inr (n, w))"

definition rb_child :: "u64 \<Rightarrow> dir \<Rightarrow> u64 rbc" where
  "rb_child p d w = (if p = rbt_self w \<and> d = RB_DIR_RIGHT then Inl OutOfBounds else ebind (node_at p) (\<lambda>n. eret (rb_nodes n d)) w)"

definition set_child :: "u64 \<Rightarrow> dir \<Rightarrow> u64 \<Rightarrow> unit rbc" where
  "set_child p d v w = (if p = rbt_self w \<and> d = RB_DIR_RIGHT then Inl OutOfBounds
     else ebind (node_at p) (\<lambda>n w. Inr ((), w\<lparr>rb_mem := (rb_mem w)(p \<mapsto> n\<lparr>rb_nodes := (rb_nodes n)(d := v)\<rparr>)\<rparr>)) w)"

definition get_info :: "u64 \<Rightarrow> u64 rbc" where
  "get_info p w = (if p = rbt_self w then Inl OutOfBounds else ebind (node_at p) (\<lambda>n. eret (rb_info n)) w)"

definition set_info :: "u64 \<Rightarrow> u64 \<Rightarrow> unit rbc" where
  "set_info p i w = (if p = rbt_self w then Inl OutOfBounds
     else ebind (node_at p) (\<lambda>n w. Inr ((), w\<lparr>rb_mem := (rb_mem w)(p \<mapsto> n\<lparr>rb_info := i\<rparr>)\<rparr>)) w)"

definition rbt_root :: "u64 rbc" where "rbt_root w = rb_child (rbt_self w) RB_DIR_LEFT w"

definition get_minmax :: "dir \<Rightarrow> u64 rbc" where "get_minmax d w = Inr (rbt_minmax w d, w)"

definition set_minmax :: "dir \<Rightarrow> u64 \<Rightarrow> unit rbc" where
  "set_minmax d p w = Inr ((), w\<lparr>rbt_minmax := (rbt_minmax w)(d := p)\<rparr>)"

text \<open>The conjunction of C: the second part is evaluated only when the first holds.\<close>

definition eand :: "bool rbc \<Rightarrow> bool rbc \<Rightarrow> bool rbc" where
  "eand a b = ebind a (\<lambda>x. if x then b else eret False)"

section \<open>The macros of the header\<close>

definition RB_FLAG_POSITION :: u64 where "RB_FLAG_POSITION = 2"
definition RB_FLAG_RED :: u64 where "RB_FLAG_RED = 1"
definition RB_FLAG_MASK :: u64 where "RB_FLAG_MASK = RB_FLAG_POSITION OR RB_FLAG_RED"

definition RB_FATHER :: "u64 \<Rightarrow> u64 rbc" where
  "RB_FATHER rb = ebind (get_info rb) (\<lambda>i. eret (i AND NOT RB_FLAG_MASK))"

definition RB_SET_FATHER :: "u64 \<Rightarrow> u64 \<Rightarrow> unit rbc" where
  "RB_SET_FATHER rb father = ebind (get_info rb) (\<lambda>i. set_info rb (father OR (i AND RB_FLAG_MASK)))"

definition RB_SENTINEL_P :: "u64 \<Rightarrow> bool" where "RB_SENTINEL_P rb \<longleftrightarrow> rb = 0"

definition RB_LEFT_SENTINEL_P :: "u64 \<Rightarrow> bool rbc" where
  "RB_LEFT_SENTINEL_P rb = ebind (rb_child rb RB_DIR_LEFT) (\<lambda>c. eret (RB_SENTINEL_P c))"

definition RB_RIGHT_SENTINEL_P :: "u64 \<Rightarrow> bool rbc" where
  "RB_RIGHT_SENTINEL_P rb = ebind (rb_child rb RB_DIR_RIGHT) (\<lambda>c. eret (RB_SENTINEL_P c))"

definition RB_CHILDLESS_P :: "u64 \<Rightarrow> bool rbc" where
  "RB_CHILDLESS_P rb = (if RB_SENTINEL_P rb then eret True
     else eand (RB_LEFT_SENTINEL_P rb) (RB_RIGHT_SENTINEL_P rb))"

definition RB_TWOCHILDREN_P :: "u64 \<Rightarrow> bool rbc" where
  "RB_TWOCHILDREN_P rb = (if RB_SENTINEL_P rb then eret False
     else eand (ebind (RB_LEFT_SENTINEL_P rb) (\<lambda>b. eret (\<not> b))) (ebind (RB_RIGHT_SENTINEL_P rb) (\<lambda>b. eret (\<not> b))))"

definition RB_POSITION :: "u64 \<Rightarrow> dir rbc" where
  "RB_POSITION rb = ebind (get_info rb) (\<lambda>i. eret (if i AND RB_FLAG_POSITION \<noteq> 0 then RB_DIR_RIGHT else RB_DIR_LEFT))"

definition RB_RED_P :: "u64 \<Rightarrow> bool rbc" where
  "RB_RED_P rb = (if RB_SENTINEL_P rb then eret False else ebind (get_info rb) (\<lambda>i. eret (i AND RB_FLAG_RED \<noteq> 0)))"

definition RB_BLACK_P :: "u64 \<Rightarrow> bool rbc" where
  "RB_BLACK_P rb = (if RB_SENTINEL_P rb then eret True else ebind (get_info rb) (\<lambda>i. eret (i AND RB_FLAG_RED = 0)))"

definition RB_MARK_RED :: "u64 \<Rightarrow> unit rbc" where
  "RB_MARK_RED rb = ebind (get_info rb) (\<lambda>i. set_info rb (i OR RB_FLAG_RED))"

definition RB_MARK_BLACK :: "u64 \<Rightarrow> unit rbc" where
  "RB_MARK_BLACK rb = ebind (get_info rb) (\<lambda>i. set_info rb (i AND NOT RB_FLAG_RED))"

definition RB_ROOT_P :: "u64 \<Rightarrow> bool rbc" where
  "RB_ROOT_P rb = ebind rbt_root (\<lambda>r. eret (r = rb))"

definition RB_SET_POSITION :: "u64 \<Rightarrow> dir \<Rightarrow> unit rbc" where
  "RB_SET_POSITION rb position = ebind (get_info rb) (\<lambda>i. set_info rb (if position then i OR RB_FLAG_POSITION else i AND NOT RB_FLAG_POSITION))"

definition RB_COPY_PROPERTIES :: "u64 \<Rightarrow> u64 \<Rightarrow> unit rbc" where
  "RB_COPY_PROPERTIES dst src = ebind (get_info dst) (\<lambda>i. ebind (get_info src) (\<lambda>j. set_info dst (i XOR ((i XOR j) AND RB_FLAG_MASK))))"

definition RB_SWAP_PROPERTIES :: "u64 \<Rightarrow> u64 \<Rightarrow> unit rbc" where
  "RB_SWAP_PROPERTIES a b = ebind (get_info a) (\<lambda>i. ebind (get_info b) (\<lambda>j.
     let xorinfo = (i XOR j) AND RB_FLAG_MASK in
     eseq (set_info a (i XOR xorinfo))
     (ebind (get_info b) (\<lambda>j. set_info b (j XOR xorinfo)))))"

section \<open>Operations\<close>

definition rb_tree_init :: "unit rbc" where
  "rb_tree_init = ebind (\<lambda>w. Inr (rbt_self w, w)) (\<lambda>rbt.
     eseq (set_child rbt RB_DIR_LEFT RB_SENTINEL_NODE)
     (ebind rbt_root (\<lambda>r. eseq (set_minmax RB_DIR_LEFT r)
     (ebind rbt_root (\<lambda>r. set_minmax RB_DIR_RIGHT r)))))"

fun find_loop :: "'k rb_tree_ops \<Rightarrow> 'k \<Rightarrow> nat \<Rightarrow> u64 \<Rightarrow> u64 rbc" where
  "find_loop rbto key 0 parent = efail NoEnd"
| "find_loop rbto key (Suc fuel) parent =
     (if RB_SENTINEL_P parent then eret 0
      else (let pobj = RB_NODETOITEM rbto parent; diff = rbto_compare_key rbto pobj key in
        if diff = 0 then eret pobj
        else ebind (rb_child parent (diff < 0)) (find_loop rbto key fuel)))"

definition rb_tree_find_node :: "'k rb_tree_ops \<Rightarrow> nat \<Rightarrow> 'k \<Rightarrow> u64 rbc" where
  "rb_tree_find_node rbto fuel key = ebind rbt_root (find_loop rbto key fuel)"

fun geq_loop :: "'k rb_tree_ops \<Rightarrow> 'k \<Rightarrow> nat \<Rightarrow> u64 \<Rightarrow> u64 \<Rightarrow> u64 rbc" where
  "geq_loop rbto key 0 lastp parent = efail NoEnd"
| "geq_loop rbto key (Suc fuel) lastp parent =
     (if RB_SENTINEL_P parent then eret (if lastp = 0 then 0 else RB_NODETOITEM rbto lastp)
      else (let pobj = RB_NODETOITEM rbto parent; diff = rbto_compare_key rbto pobj key in
        if diff = 0 then eret pobj
        else (let lastp = if diff > 0 then parent else lastp in
          ebind (rb_child parent (diff < 0)) (geq_loop rbto key fuel lastp))))"

definition rb_tree_find_node_geq :: "'k rb_tree_ops \<Rightarrow> nat \<Rightarrow> 'k \<Rightarrow> u64 rbc" where
  "rb_tree_find_node_geq rbto fuel key = ebind rbt_root (geq_loop rbto key fuel 0)"

fun leq_loop :: "'k rb_tree_ops \<Rightarrow> 'k \<Rightarrow> nat \<Rightarrow> u64 \<Rightarrow> u64 \<Rightarrow> u64 rbc" where
  "leq_loop rbto key 0 lastp parent = efail NoEnd"
| "leq_loop rbto key (Suc fuel) lastp parent =
     (if RB_SENTINEL_P parent then eret (if lastp = 0 then 0 else RB_NODETOITEM rbto lastp)
      else (let pobj = RB_NODETOITEM rbto parent; diff = rbto_compare_key rbto pobj key in
        if diff = 0 then eret pobj
        else (let lastp = if diff < 0 then parent else lastp in
          ebind (rb_child parent (diff < 0)) (leq_loop rbto key fuel lastp))))"

definition rb_tree_find_node_leq :: "'k rb_tree_ops \<Rightarrow> nat \<Rightarrow> 'k \<Rightarrow> u64 rbc" where
  "rb_tree_find_node_leq rbto fuel key = ebind rbt_root (leq_loop rbto key fuel 0)"

subsection \<open>Rotation\<close>

definition rb_tree_reparent_nodes :: "u64 \<Rightarrow> dir \<Rightarrow> unit rbc" where
  "rb_tree_reparent_nodes old_father which =
     (let other = (\<not> which) in
      ebind (RB_FATHER old_father) (\<lambda>grandpa.
      ebind (rb_child old_father which) (\<lambda>old_child.
      let new_father = old_child; new_child = old_father in
      ebind (RB_POSITION old_father) (\<lambda>pos.
      eseq (set_child grandpa pos new_father)
      (ebind (rb_child old_child other) (\<lambda>c.
      eseq (set_child new_child which c)
      (eseq (set_child new_father other new_child)
      (eseq (RB_SET_FATHER new_father grandpa)
      (eseq (RB_SET_FATHER new_child new_father)
      (eseq (RB_SWAP_PROPERTIES new_father new_child)
      (eseq (RB_SET_POSITION new_child other)
      (ebind (rb_child new_child which) (\<lambda>s.
         if RB_SENTINEL_P s then eret ()
         else eseq (RB_SET_FATHER s new_child) (RB_SET_POSITION s which))))))))))))))"

subsection \<open>Insertion\<close>

text \<open>The last part of \<open>rb_tree_insert_rebalance\<close>, with a black uncle.\<close>

definition insert_rotate :: "u64 \<Rightarrow> u64 \<Rightarrow> u64 \<Rightarrow> dir \<Rightarrow> unit rbc" where
  "insert_rotate self father grandpa which =
     (let other = (\<not> which) in
      ebind (rb_child father other) (\<lambda>c.
      ebind (if self = c then
          eseq (rb_tree_reparent_nodes father other)
          (ebind (RB_FATHER father) (\<lambda>f. eret (father, f)))
        else eret (self, father)) (\<lambda>(self, father).
      eseq (rb_tree_reparent_nodes grandpa which)
      (ebind rbt_root (\<lambda>r. RB_MARK_BLACK r)))))"

fun insert_loop :: "nat \<Rightarrow> u64 \<Rightarrow> u64 \<Rightarrow> unit rbc" where
  "insert_loop 0 self father = efail NoEnd"
| "insert_loop (Suc fuel) self father =
     ebind (RB_FATHER father) (\<lambda>grandpa.
     ebind (rb_child grandpa RB_DIR_RIGHT) (\<lambda>gr.
     let which = (father = gr); other = (\<not> which) in
     ebind (rb_child grandpa other) (\<lambda>uncle.
     ebind (RB_BLACK_P uncle) (\<lambda>black.
     if black then insert_rotate self father grandpa which
     else
       eseq (RB_MARK_BLACK uncle)
       (eseq (RB_MARK_BLACK father)
       (ebind (RB_ROOT_P grandpa) (\<lambda>root.
       if root then eret ()
       else
         eseq (RB_MARK_RED grandpa)
         (ebind (RB_FATHER grandpa) (\<lambda>father.
         ebind (RB_BLACK_P father) (\<lambda>black.
         if black then eret () else insert_loop fuel grandpa father))))))))))"

definition rb_tree_insert_rebalance :: "nat \<Rightarrow> u64 \<Rightarrow> unit rbc" where
  "rb_tree_insert_rebalance fuel self = ebind (RB_FATHER self) (\<lambda>father. ebind (RB_FATHER father) (\<lambda>grandpa. insert_loop fuel self father))"

text \<open>The search for the place of a new leaf: the object that is equal, or father and position.\<close>

fun place_loop :: "'k rb_tree_ops \<Rightarrow> u64 \<Rightarrow> nat \<Rightarrow> u64 \<Rightarrow> u64 \<Rightarrow> dir \<Rightarrow> (u64 + u64 \<times> dir) rbc" where
  "place_loop rbto object 0 tmp parent position = efail NoEnd"
| "place_loop rbto object (Suc fuel) tmp parent position =
     (if RB_SENTINEL_P tmp then eret (Inr (parent, position))
      else (let tobj = RB_NODETOITEM rbto tmp; diff = rbto_compare_nodes rbto tobj object in
        if diff = 0 then eret (Inl tobj)
        else ebind (rb_child tmp (diff < 0)) (\<lambda>c. place_loop rbto object fuel c tmp (diff < 0))))"

definition rb_tree_insert_node :: "'k rb_tree_ops \<Rightarrow> nat \<Rightarrow> u64 \<Rightarrow> u64 rbc" where
  "rb_tree_insert_node rbto fuel object =
     (let self = RB_ITEMTONODE rbto object in
      ebind rbt_root (\<lambda>tmp.
      ebind (\<lambda>w. Inr (rbt_self w, w)) (\<lambda>rbt.
      ebind (place_loop rbto object fuel tmp rbt RB_DIR_LEFT) (\<lambda>pl.
      case pl of
        Inl tobj \<Rightarrow> eret tobj
      | Inr (parent, position) \<Rightarrow>
          eseq (RB_SET_FATHER self parent)
          (eseq (RB_SET_POSITION self position)
          (ebind (if parent = rbt then
              eseq (RB_MARK_BLACK self)
              (eseq (set_minmax RB_DIR_LEFT self)
              (eseq (set_minmax RB_DIR_RIGHT self) (eret False)))
            else
              ebind (get_minmax position) (\<lambda>m.
              eseq (ewhen (parent = m) (set_minmax position self))
              (eseq (RB_MARK_RED self) (RB_RED_P parent)))) (\<lambda>rebalance.
          ebind (rb_child parent position) (\<lambda>c.
          eseq (set_child self RB_DIR_LEFT c)
          (ebind (rb_child parent position) (\<lambda>c.
          eseq (set_child self RB_DIR_RIGHT c)
          (eseq (set_child parent position self)
          (eseq (ewhen rebalance (rb_tree_insert_rebalance fuel self))
          (eret object)))))))))))))"

subsection \<open>Removal\<close>

text \<open>The part of the removal loop behind case 1: cases 2b, 3 and 4, which end it.\<close>

definition removal_finish :: "u64 \<Rightarrow> dir \<Rightarrow> u64 \<Rightarrow> unit rbc" where
  "removal_finish parent which brother =
     (let other = (\<not> which) in
      ebind (eand (RB_RED_P parent) (eand (RB_BLACK_P brother)
        (eand (ebind (rb_child brother RB_DIR_LEFT) RB_BLACK_P) (ebind (rb_child brother RB_DIR_RIGHT) RB_BLACK_P)))) (\<lambda>case2b.
      if case2b then
        eseq (RB_MARK_BLACK parent) (RB_MARK_RED brother)
      else
        ebind (rb_child brother other) (\<lambda>far. ebind (RB_BLACK_P far) (\<lambda>fblack.
        ebind (if fblack then
            eseq (rb_tree_reparent_nodes brother which) (rb_child parent other)
          else eret brother) (\<lambda>brother.
        ebind (rb_child brother other) (\<lambda>far.
        eseq (RB_MARK_BLACK far) (rb_tree_reparent_nodes parent other)))))))"

fun removal_loop :: "nat \<Rightarrow> u64 \<Rightarrow> dir \<Rightarrow> unit rbc" where
  "removal_loop 0 parent which = efail NoEnd"
| "removal_loop (Suc fuel) parent which =
     ebind (rb_child parent which) (\<lambda>c. ebind (RB_BLACK_P c) (\<lambda>cblack.
     if \<not> cblack then eret ()
     else (let other = (\<not> which) in
       ebind (rb_child parent other) (\<lambda>brother.
       ebind (eand (RB_BLACK_P parent)
         (eand (ebind (rb_child brother RB_DIR_LEFT) RB_BLACK_P) (ebind (rb_child brother RB_DIR_RIGHT) RB_BLACK_P))) (\<lambda>case12.
       if case12 then
         ebind (RB_RED_P brother) (\<lambda>bred.
         if bred then
           eseq (rb_tree_reparent_nodes parent other)
           (ebind (rb_child parent other) (removal_finish parent which))
         else
           eseq (RB_MARK_RED brother)
           (ebind (RB_ROOT_P parent) (\<lambda>root.
           if root then eret ()
           else ebind (RB_POSITION parent) (\<lambda>which. ebind (RB_FATHER parent) (\<lambda>parent. removal_loop fuel parent which)))))
       else removal_finish parent which brother)))))"

definition rb_tree_removal_rebalance :: "nat \<Rightarrow> u64 \<Rightarrow> dir \<Rightarrow> unit rbc" where
  "rb_tree_removal_rebalance fuel parent which = removal_loop fuel parent which"

definition rb_tree_prune_node :: "nat \<Rightarrow> u64 \<Rightarrow> bool \<Rightarrow> unit rbc" where
  "rb_tree_prune_node fuel self rebalance =
     ebind (RB_POSITION self) (\<lambda>which.
     ebind (RB_FATHER self) (\<lambda>father.
     ebind (RB_ROOT_P self) (\<lambda>was_root.
     ebind (rb_child self RB_DIR_LEFT) (\<lambda>l.
     eseq (set_child father which l)
     (ebind (RB_POSITION self) (\<lambda>pos. ebind (get_minmax pos) (\<lambda>m.
     eseq (ewhen (m = self)
       (eseq (set_minmax pos father)
       (ewhen was_root (set_minmax RB_DIR_RIGHT father))))
     (eseq (RB_SET_FATHER self 0)
     (ewhen rebalance (rb_tree_removal_rebalance fuel father which))))))))))"

definition rb_tree_swap_prune_and_rebalance :: "nat \<Rightarrow> u64 \<Rightarrow> u64 \<Rightarrow> unit rbc" where
  "rb_tree_swap_prune_and_rebalance fuel self standin =
     ebind (RB_POSITION standin) (\<lambda>standin_which.
     let standin_other = (\<not> standin_which) in
     ebind (RB_FATHER standin) (\<lambda>standin_father.
     ebind (RB_BLACK_P standin) (\<lambda>rebalance.
     ebind (if standin_father = self then rb_child standin standin_which else rb_child standin standin_other) (\<lambda>standin_son.
     ebind (RB_RED_P standin_son) (\<lambda>sred.
     ebind (if sred then
         eseq (RB_MARK_BLACK standin_son)
         (eseq (if standin_father = self then eret ()
           else eseq (RB_SET_FATHER standin_son standin_father) (RB_SET_POSITION standin_son standin_which))
         (eret False))
       else eret rebalance) (\<lambda>rebalance.
     ebind (if standin_father = self then eret (standin, standin_other)
       else
         eseq (set_child standin_father standin_which standin_son)
         (ebind (rb_child self standin_other) (\<lambda>c.
         eseq (set_child standin standin_other c)
         (ebind (rb_child standin standin_other) (\<lambda>c.
         eseq (RB_SET_FATHER c standin)
         (eret (standin_father, standin_which))))))) (\<lambda>(standin_father, standin_other).
     ebind (rb_child self standin_other) (\<lambda>c.
     eseq (set_child standin standin_other c)
     (ebind (rb_child standin standin_other) (\<lambda>c.
     eseq (RB_SET_FATHER c standin)
     (eseq (RB_COPY_PROPERTIES standin self)
     (ebind (RB_FATHER self) (\<lambda>f.
     eseq (RB_SET_FATHER standin f)
     (ebind (RB_FATHER standin) (\<lambda>f. ebind (RB_POSITION standin) (\<lambda>pos.
     eseq (set_child f pos standin)
     (ebind (RB_POSITION self) (\<lambda>pos. ebind (get_minmax pos) (\<lambda>m.
     eseq (ewhen (m = self) (ebind (RB_FATHER self) (\<lambda>f. set_minmax pos f)))
     (eseq (RB_SET_FATHER self 0)
     (ewhen rebalance (rb_tree_removal_rebalance fuel standin_father standin_which))))))))))))))))))))))"

definition rb_tree_prune_blackred_branch :: "u64 \<Rightarrow> dir \<Rightarrow> unit rbc" where
  "rb_tree_prune_blackred_branch self which =
     ebind (RB_FATHER self) (\<lambda>father.
     ebind (rb_child self which) (\<lambda>son.
     ebind (RB_ROOT_P self) (\<lambda>was_root.
     eseq (RB_COPY_PROPERTIES son self)
     (ebind (RB_POSITION son) (\<lambda>pos.
     eseq (set_child father pos son)
     (eseq (RB_SET_FATHER son father)
     (eseq (if was_root then set_minmax (\<not> which) son
       else ebind (RB_POSITION self) (\<lambda>pos. ebind (get_minmax pos) (\<lambda>m. ewhen (m = self) (set_minmax pos son))))
     (RB_SET_FATHER self 0))))))))"

subsection \<open>Iteration\<close>

fun up_loop :: "'k rb_tree_ops \<Rightarrow> nat \<Rightarrow> u64 \<Rightarrow> dir \<Rightarrow> u64 rbc" where
  "up_loop rbto 0 self other = efail NoEnd"
| "up_loop rbto (Suc fuel) self other =
     ebind (RB_ROOT_P self) (\<lambda>root.
     if root then eret 0
     else ebind (RB_POSITION self) (\<lambda>pos.
       if other = pos then ebind (RB_FATHER self) (\<lambda>f. eret (RB_NODETOITEM rbto f))
       else ebind (RB_FATHER self) (\<lambda>f. up_loop rbto fuel f other)))"

fun down_loop :: "'k rb_tree_ops \<Rightarrow> nat \<Rightarrow> u64 \<Rightarrow> dir \<Rightarrow> u64 rbc" where
  "down_loop rbto 0 self other = efail NoEnd"
| "down_loop rbto (Suc fuel) self other =
     ebind (rb_child self other) (\<lambda>c.
     if RB_SENTINEL_P c then eret (RB_NODETOITEM rbto self) else down_loop rbto fuel c other)"

definition rb_tree_iterate :: "'k rb_tree_ops \<Rightarrow> nat \<Rightarrow> u64 \<Rightarrow> dir \<Rightarrow> u64 rbc" where
  "rb_tree_iterate rbto fuel object direction =
     (let other = (\<not> direction) in
      if object = 0 then
        ebind rbt_root (\<lambda>r.
        if RB_SENTINEL_P r then eret 0
        else ebind (get_minmax direction) (\<lambda>m. eret (RB_NODETOITEM rbto m)))
      else
        (let self = RB_ITEMTONODE rbto object in
         ebind (rb_child self direction) (\<lambda>c.
         if RB_SENTINEL_P c then up_loop rbto fuel self other
         else down_loop rbto fuel c other)))"

definition rb_tree_remove_node :: "'k rb_tree_ops \<Rightarrow> nat \<Rightarrow> u64 \<Rightarrow> unit rbc" where
  "rb_tree_remove_node rbto fuel object =
     (let self = RB_ITEMTONODE rbto object in
      ebind (RB_CHILDLESS_P self) (\<lambda>childless.
      if childless then
        ebind (eand (RB_BLACK_P self) (ebind (RB_ROOT_P self) (\<lambda>root. eret (\<not> root)))) (rb_tree_prune_node fuel self)
      else
        ebind (RB_TWOCHILDREN_P self) (\<lambda>two.
        if \<not> two then
          ebind (RB_LEFT_SENTINEL_P self) (\<lambda>ls. rb_tree_prune_blackred_branch self (if ls then RB_DIR_RIGHT else RB_DIR_LEFT))
        else
          ebind (RB_POSITION self) (\<lambda>pos.
          ebind (rb_tree_iterate rbto fuel object (\<not> pos)) (\<lambda>s.
          rb_tree_swap_prune_and_rebalance fuel self (RB_ITEMTONODE rbto s))))))"

end
