(* ===== verification/Neb_Rb_Rep.thy ===== *)
theory Neb_Rb_Rep
  imports Neb_Rb
begin

unbundle bit_operations_syntax

text \<open>
  Which tree the memory of \<open>Neb_Rb\<close> holds: the word of a node, the tree at a pointer,
  the path from a place up to the root, and how single accesses and the rotation change them.
\<close>

section \<open>The word of a node\<close>

definition mkinfo :: "u64 \<Rightarrow> dir \<Rightarrow> bool \<Rightarrow> u64" where
  "mkinfo f d c = f OR (if d then 2 else 0) OR (if c then 1 else 0)"

definition aligned :: "u64 \<Rightarrow> bool" where "aligned p \<longleftrightarrow> p AND 3 = 0"

declare bit_numeral_word_iff [simp del]

lemma flag_bits: "bit (1::u64) n \<longleftrightarrow> n = 0" "bit (2::u64) n \<longleftrightarrow> n = 1" "bit (3::u64) n \<longleftrightarrow> n = 0 \<or> n = 1"
proof -
  show 1: "bit (1::u64) n \<longleftrightarrow> n = 0" by (simp add: bit_1_iff)
  show 2: "bit (2::u64) n \<longleftrightarrow> n = 1" using bit_exp_iff [where 'a = u64, of 1 n] by auto
  have "(3::u64) = 1 OR 2" by simp
  then show "bit (3::u64) n \<longleftrightarrow> n = 0 \<or> n = 1" using 1 2 by (metis bit_or_iff)
qed

lemma flag_const_bits: "bit RB_FLAG_MASK n \<longleftrightarrow> n = 0 \<or> n = 1" "bit RB_FLAG_POSITION n \<longleftrightarrow> n = 1" "bit RB_FLAG_RED n \<longleftrightarrow> n = 0"
  by (auto simp: RB_FLAG_MASK_def RB_FLAG_POSITION_def RB_FLAG_RED_def flag_bits)

lemma aligned_bits: "aligned p \<longleftrightarrow> \<not> bit p 0 \<and> \<not> bit p 1"
proof
  assume "aligned p"
  then have "\<not> bit (p AND 3) n" for n by (simp add: aligned_def)
  from this [of 0] this [of 1] show "\<not> bit p 0 \<and> \<not> bit p 1" by (simp add: bit_and_iff flag_bits)
next
  assume a: "\<not> bit p 0 \<and> \<not> bit p 1"
  have "p AND 3 = 0" by (rule bit_word_eqI) (use a in \<open>auto intro!: gr_zeroI simp: bit_and_iff flag_bits\<close>)
  then show "aligned p" by (simp add: aligned_def)
qed

lemma mkinfo_bits: "aligned f \<Longrightarrow> bit (mkinfo f d c) n \<longleftrightarrow> (if n = 0 then c else if n = 1 then d else bit f n)"
  by (auto simp: mkinfo_def bit_or_iff flag_bits aligned_bits)

lemmas info_bits = mkinfo_bits flag_bits bit_and_iff bit_or_iff bit_xor_iff bit_not_iff flag_const_bits

lemma zero_bit: "(x AND 2 = (0::u64)) \<longleftrightarrow> \<not> bit x 1" "(x AND 1 = (0::u64)) \<longleftrightarrow> \<not> bit x 0"
proof -
  have "x AND 2 = (if bit x 1 then 2 else 0)" by (rule bit_word_eqI) (auto simp: bit_and_iff flag_bits)
  then show "(x AND 2 = 0) \<longleftrightarrow> \<not> bit x 1" by (simp split: if_splits)
  have "x AND 1 = (if bit x 0 then 1 else 0)" by (rule bit_word_eqI) (auto intro!: gr_zeroI simp: bit_and_iff flag_bits)
  then show "(x AND 1 = 0) \<longleftrightarrow> \<not> bit x 0" by (simp split: if_splits)
qed

lemma info_get:
  assumes "aligned f"
  shows "mkinfo f d c AND NOT RB_FLAG_MASK = f"
    and "mkinfo f d c AND RB_FLAG_POSITION = 0 \<longleftrightarrow> \<not> d"
    and "mkinfo f d c AND RB_FLAG_RED = 0 \<longleftrightarrow> \<not> c"
proof -
  show "mkinfo f d c AND NOT RB_FLAG_MASK = f"
    by (rule bit_word_eqI) (use assms in \<open>auto simp: info_bits aligned_bits\<close>)
qed (simp_all add: RB_FLAG_POSITION_def RB_FLAG_RED_def zero_bit mkinfo_bits [OF assms])

lemma info_set:
  assumes "aligned f" "aligned f'"
  shows "f' OR (mkinfo f d c AND RB_FLAG_MASK) = mkinfo f' d c"
    and "mkinfo f d c OR RB_FLAG_RED = mkinfo f d True"
    and "mkinfo f d c AND NOT RB_FLAG_RED = mkinfo f d False"
    and "mkinfo f d c OR RB_FLAG_POSITION = mkinfo f True c"
    and "mkinfo f d c AND NOT RB_FLAG_POSITION = mkinfo f False c"
    and "mkinfo f d c XOR ((mkinfo f d c XOR mkinfo f' d' c') AND RB_FLAG_MASK) = mkinfo f d' c'"
    and "mkinfo f' d' c' XOR ((mkinfo f d c XOR mkinfo f' d' c') AND RB_FLAG_MASK) = mkinfo f' d c"
  by (rule bit_word_eqI; use assms in \<open>auto simp: info_bits aligned_bits\<close>)+

text \<open>The word of a node that was never in a tree holds anything.\<close>

lemma info_ex: "\<exists>f d c. i = mkinfo f d c \<and> aligned f"
proof -
  have a: "aligned (i AND NOT RB_FLAG_MASK)" by (simp add: aligned_bits bit_and_iff bit_not_iff flag_const_bits)
  moreover have "i = mkinfo (i AND NOT RB_FLAG_MASK) (bit i 1) (bit i 0)"
    by (rule bit_word_eqI) (auto simp: mkinfo_bits [OF a] bit_and_iff bit_not_iff flag_const_bits)
  ultimately show ?thesis by blast
qed

lemma aligned_0: "aligned 0" by (simp add: aligned_def)

section \<open>Accesses\<close>

definition chd :: "rb_world \<Rightarrow> u64 \<Rightarrow> dir \<Rightarrow> u64" where "chd w p = rb_nodes (the (rb_mem w p))"
definition inf_of :: "rb_world \<Rightarrow> u64 \<Rightarrow> u64" where "inf_of w p = rb_info (the (rb_mem w p))"
definition live :: "rb_world \<Rightarrow> u64 set" where "live w = dom (rb_mem w) - {0}"

definition upd_chd :: "u64 \<Rightarrow> dir \<Rightarrow> u64 \<Rightarrow> rb_world \<Rightarrow> rb_world" where
  "upd_chd p d v w = w\<lparr>rb_mem := (rb_mem w)(p \<mapsto> (the (rb_mem w p))\<lparr>rb_nodes := (rb_nodes (the (rb_mem w p)))(d := v)\<rparr>)\<rparr>"

definition upd_inf :: "u64 \<Rightarrow> u64 \<Rightarrow> rb_world \<Rightarrow> rb_world" where
  "upd_inf p i w = w\<lparr>rb_mem := (rb_mem w)(p \<mapsto> (the (rb_mem w p))\<lparr>rb_info := i\<rparr>)\<rparr>"

named_theorems rb_acc \<open>accesses to the memory of nodes\<close>

lemma chd_upd [rb_acc]: "chd (upd_chd p d v w) q e = (if q = p \<and> e = d then v else chd w q e)"
  "chd (upd_inf p i w) q e = chd w q e"
  "inf_of (upd_chd p d v w) q = inf_of w q"
  "inf_of (upd_inf p i w) q = (if q = p then i else inf_of w q)"
  by (auto simp: chd_def inf_of_def upd_chd_def upd_inf_def)

lemma live_upd [rb_acc]: "p \<in> live w \<Longrightarrow> live (upd_chd p d v w) = live w"
  "p \<in> live w \<Longrightarrow> live (upd_inf p i w) = live w"
  by (auto simp: live_def upd_chd_def upd_inf_def)

lemma head_upd [rb_acc]: "rbt_self (upd_chd p d v w) = rbt_self w" "rbt_self (upd_inf p i w) = rbt_self w"
  "rbt_minmax (upd_chd p d v w) = rbt_minmax w" "rbt_minmax (upd_inf p i w) = rbt_minmax w"
  by (auto simp: upd_chd_def upd_inf_def)

lemma minmax_upd [rb_acc]: "chd (w\<lparr>rbt_minmax := x\<rparr>) = chd w" "inf_of (w\<lparr>rbt_minmax := x\<rparr>) = inf_of w" "live (w\<lparr>rbt_minmax := x\<rparr>) = live w"
  by (auto simp: chd_def inf_of_def live_def)

lemma node_at_live: "p \<in> live w \<Longrightarrow> node_at p w = Inr (the (rb_mem w p), w)"
  by (auto simp: live_def node_at_def)

lemma acc_eval [rb_acc]:
  "p \<in> live w \<Longrightarrow> \<not> (p = rbt_self w \<and> d) \<Longrightarrow> rb_child p d w = Inr (chd w p d, w)"
  "p \<in> live w \<Longrightarrow> \<not> (p = rbt_self w \<and> d) \<Longrightarrow> set_child p d v w = Inr ((), upd_chd p d v w)"
  "p \<in> live w \<Longrightarrow> p \<noteq> rbt_self w \<Longrightarrow> get_info p w = Inr (inf_of w p, w)"
  "p \<in> live w \<Longrightarrow> p \<noteq> rbt_self w \<Longrightarrow> set_info p i w = Inr ((), upd_inf p i w)"
  "rbt_self w \<in> live w \<Longrightarrow> rbt_root w = Inr (chd w (rbt_self w) False, w)"
  by (auto simp: rb_child_def set_child_def get_info_def set_info_def rbt_root_def evm_simps node_at_live chd_def inf_of_def upd_chd_def upd_inf_def)

lemma mm_eval [rb_acc]: "get_minmax d w = Inr (rbt_minmax w d, w)"
  "set_minmax d p w = Inr ((), w\<lparr>rbt_minmax := (rbt_minmax w)(d := p)\<rparr>)"
  by (simp_all add: get_minmax_def set_minmax_def)

lemma macro_eval [rb_acc]:
  assumes "p \<in> live w" "p \<noteq> rbt_self w"
  shows "RB_FATHER p w = Inr (inf_of w p AND NOT RB_FLAG_MASK, w)"
    and "RB_SET_FATHER p f w = Inr ((), upd_inf p (f OR (inf_of w p AND RB_FLAG_MASK)) w)"
    and "RB_POSITION p w = Inr (inf_of w p AND RB_FLAG_POSITION \<noteq> 0, w)"
    and "RB_MARK_RED p w = Inr ((), upd_inf p (inf_of w p OR RB_FLAG_RED) w)"
    and "RB_MARK_BLACK p w = Inr ((), upd_inf p (inf_of w p AND NOT RB_FLAG_RED) w)"
    and "RB_SET_POSITION p d w = Inr ((), upd_inf p (if d then inf_of w p OR RB_FLAG_POSITION else inf_of w p AND NOT RB_FLAG_POSITION) w)"
    and "RB_LEFT_SENTINEL_P p w = Inr (chd w p False = 0, w)"
    and "RB_RIGHT_SENTINEL_P p w = Inr (chd w p True = 0, w)"
  using assms
  by (auto simp: RB_FATHER_def RB_SET_FATHER_def RB_POSITION_def RB_MARK_RED_def RB_MARK_BLACK_def RB_SET_POSITION_def
    RB_LEFT_SENTINEL_P_def RB_RIGHT_SENTINEL_P_def RB_SENTINEL_P_def evm_simps rb_acc)

lemma macro_eval2 [rb_acc]:
  assumes "a \<in> live w" "a \<noteq> rbt_self w" "b \<in> live w" "b \<noteq> rbt_self w"
  shows "RB_COPY_PROPERTIES a b w = Inr ((), upd_inf a (inf_of w a XOR ((inf_of w a XOR inf_of w b) AND RB_FLAG_MASK)) w)"
    and "a \<noteq> b \<Longrightarrow> RB_SWAP_PROPERTIES a b w =
      Inr ((), upd_inf b (inf_of w b XOR ((inf_of w a XOR inf_of w b) AND RB_FLAG_MASK))
        (upd_inf a (inf_of w a XOR ((inf_of w a XOR inf_of w b) AND RB_FLAG_MASK)) w))"
  using assms by (auto simp: RB_COPY_PROPERTIES_def RB_SWAP_PROPERTIES_def evm_simps rb_acc Let_def)

lemma root_eval [rb_acc]: "rbt_self w \<in> live w \<Longrightarrow> RB_ROOT_P p w = Inr (chd w (rbt_self w) False = p, w)"
  by (simp add: RB_ROOT_P_def evm_simps rb_acc)

lemma live_neq_0: "p \<in> live w \<Longrightarrow> p \<noteq> 0"
  by (simp add: live_def)

lemma colour_eval [rb_acc]:
  assumes "p \<in> live w" "p \<noteq> rbt_self w"
  shows "RB_RED_P p w = Inr (inf_of w p AND RB_FLAG_RED \<noteq> 0, w)"
    and "RB_BLACK_P p w = Inr (inf_of w p AND RB_FLAG_RED = 0, w)"
  using assms live_neq_0 [OF assms(1)] by (simp_all add: RB_RED_P_def RB_BLACK_P_def RB_SENTINEL_P_def evm_simps rb_acc)

lemma colour_null [simp]: "RB_RED_P 0 w = Inr (False, w)" "RB_BLACK_P 0 w = Inr (True, w)"
  by (simp_all add: RB_RED_P_def RB_BLACK_P_def RB_SENTINEL_P_def evm_simps)

lemma eand_Inr [evm_simps]: "a w = Inr (x, w') \<Longrightarrow> eand a b w = (if x then b w' else Inr (False, w'))"
  by (simp add: eand_def evm_simps)

section \<open>Trees and paths\<close>

datatype rtree = Lf | Br rtree u64 bool rtree

fun root :: "rtree \<Rightarrow> u64" where
  "root Lf = 0"
| "root (Br l x c r) = x"

fun inorder :: "rtree \<Rightarrow> u64 list" where
  "inorder Lf = []"
| "inorder (Br l x c r) = inorder l @ x # inorder r"

text \<open>The node \<open>x\<close> with the tree \<open>a\<close> in the direction \<open>d\<close> and \<open>b\<close> in the other one.\<close>

definition Dn :: "dir \<Rightarrow> rtree \<Rightarrow> u64 \<Rightarrow> bool \<Rightarrow> rtree \<Rightarrow> rtree" where
  "Dn d a x c b = (if d then Br b x c a else Br a x c b)"

text \<open>The tree below a father in a direction.\<close>

fun rep :: "rb_world \<Rightarrow> u64 \<Rightarrow> dir \<Rightarrow> rtree \<Rightarrow> bool" where
  "rep w f d Lf \<longleftrightarrow> True"
| "rep w f d (Br l x c r) \<longleftrightarrow> chd w x False = root l \<and> chd w x True = root r \<and> inf_of w x = mkinfo f d c \<and> rep w x False l \<and> rep w x True r"

text \<open>A path from a place in the tree up to the root: for every node above, the direction of the place, the
  node and its colour, and the tree on the other side.\<close>

type_synonym path = "(dir \<times> u64 \<times> bool \<times> rtree) list"

fun pfather :: "rb_world \<Rightarrow> path \<Rightarrow> u64" where
  "pfather w [] = rbt_self w"
| "pfather w ((d, x, c, s) # k) = x"

fun pdir :: "path \<Rightarrow> dir" where
  "pdir [] = False"
| "pdir ((d, x, c, s) # k) = d"

fun repc :: "rb_world \<Rightarrow> u64 \<Rightarrow> path \<Rightarrow> bool" where
  "repc w h [] \<longleftrightarrow> chd w (rbt_self w) False = h"
| "repc w h ((d, x, c, s) # k) \<longleftrightarrow> chd w x d = h \<and> chd w x (\<not> d) = root s \<and> inf_of w x = mkinfo (pfather w k) (pdir k) c
     \<and> rep w x (\<not> d) s \<and> repc w x k"

fun plug :: "path \<Rightarrow> rtree \<Rightarrow> rtree" where
  "plug [] t = t"
| "plug ((d, x, c, s) # k) t = plug k (Dn d t x c s)"

fun pnodes :: "path \<Rightarrow> u64 list" where
  "pnodes [] = []"
| "pnodes ((d, x, c, s) # k) = x # inorder s @ pnodes k"

text \<open>What is to the left and to the right of a place, in order.\<close>

fun lefts :: "path \<Rightarrow> u64 list" where
  "lefts [] = []"
| "lefts ((d, x, c, s) # k) = (if d then lefts k @ inorder s @ [x] else lefts k)"

fun rights :: "path \<Rightarrow> u64 list" where
  "rights [] = []"
| "rights ((d, x, c, s) # k) = (if d then rights k else x # inorder s @ rights k)"

definition okn :: "rb_world \<Rightarrow> u64 list \<Rightarrow> bool" where
  "okn w xs \<longleftrightarrow> distinct xs \<and> (\<forall>x \<in> set xs. x \<in> live w \<and> x \<noteq> rbt_self w \<and> aligned x) \<and> rbt_self w \<in> live w \<and> aligned (rbt_self w)"

text \<open>The memory holds the tree \<open>t\<close> at the end of the path \<open>k\<close>.\<close>

definition at :: "rb_world \<Rightarrow> path \<Rightarrow> rtree \<Rightarrow> bool" where
  "at w k t \<longleftrightarrow> repc w (root t) k \<and> rep w (pfather w k) (pdir k) t \<and> okn w (pnodes k @ inorder t)"

text \<open>Nothing but the nodes \<open>S\<close> was changed.\<close>

definition frame :: "u64 set \<Rightarrow> rb_world \<Rightarrow> rb_world \<Rightarrow> bool" where
  "frame S w w' \<longleftrightarrow> rbt_self w' = rbt_self w \<and> live w' = live w \<and> (\<forall>p. p \<notin> S \<longrightarrow> rb_mem w' p = rb_mem w p)"

lemma root_Dn [simp]: "root (Dn d a x c b) = x"
  by (simp add: Dn_def)

lemma rep_Dn [simp]:
  "rep w f e (Dn d a x c b) \<longleftrightarrow> chd w x d = root a \<and> chd w x (\<not> d) = root b \<and> inf_of w x = mkinfo f e c \<and> rep w x d a \<and> rep w x (\<not> d) b"
  by (auto simp: Dn_def)

lemma set_Dn [simp]: "set (inorder (Dn d a x c b)) = insert x (set (inorder a) \<union> set (inorder b))"
  by (auto simp: Dn_def)

lemma distinct_Dn [simp]: "distinct (inorder (Dn d a x c b)) \<longleftrightarrow> x \<notin> set (inorder a) \<and> x \<notin> set (inorder b) \<and>
    distinct (inorder a) \<and> distinct (inorder b) \<and> set (inorder a) \<inter> set (inorder b) = {}"
  by (auto simp: Dn_def)

lemma inorder_Dn: "inorder (Dn d a x c b) = (if d then inorder b @ x # inorder a else inorder a @ x # inorder b)"
  by (simp add: Dn_def)

lemma Dn_neq [simp]: "Dn d a x c b \<noteq> Lf" "Lf \<noteq> Dn d a x c b"
  by (simp_all add: Dn_def)

lemma Dn_eq [simp]: "Dn d a x c b = Dn d a' x' c' b' \<longleftrightarrow> a = a' \<and> x = x' \<and> c = c' \<and> b = b'"
  by (auto simp: Dn_def)

lemma Dn_ex: "t = Lf \<or> (\<exists>a x c b. t = Dn d a x c b)"
  by (cases t; cases d) (auto simp: Dn_def)

lemma Dn_cases: obtains "t = Lf" | a x c b where "t = Dn d a x c b"
  using Dn_ex by blast

lemma Dn_flip: "Dn (\<not> d) a x c b = Dn d b x c a"
  by (simp add: Dn_def)

lemma root_in: "t \<noteq> Lf \<Longrightarrow> root t \<in> set (inorder t)"
  by (cases t) auto

lemma inorder_plug: "inorder (plug k t) = lefts k @ inorder t @ rights k"
  by (induction k t rule: plug.induct) (auto simp: inorder_Dn)

lemma plug_append: "plug (j @ k) t = plug k (plug j t)"
  by (induction j t rule: plug.induct) auto

lemma set_pnodes: "set (pnodes k) = set (lefts k) \<union> set (rights k)"
  by (induction k rule: pnodes.induct) auto

lemma rep_upd [simp]:
  "p \<notin> set (inorder t) \<Longrightarrow> rep (upd_chd p e v w) f d t = rep w f d t"
  "p \<notin> set (inorder t) \<Longrightarrow> rep (upd_inf p i w) f d t = rep w f d t"
  by (induction w f d t rule: rep.induct) (auto simp: rb_acc)

lemma pfather_upd [simp]: "pfather (upd_chd p e v w) k = pfather w k" "pfather (upd_inf p i w) k = pfather w k"
  "pfather (w\<lparr>rbt_minmax := m\<rparr>) k = pfather w k"
  by (cases k rule: pnodes.cases; simp add: rb_acc)+

lemma repc_upd [simp]:
  "p \<notin> set (pnodes k) \<Longrightarrow> p \<noteq> rbt_self w \<Longrightarrow> repc (upd_chd p e v w) h k = repc w h k"
  "p \<notin> set (pnodes k) \<Longrightarrow> repc (upd_inf p i w) h k = repc w h k"
  by (induction w h k rule: repc.induct) (auto simp: rb_acc)

lemma rep_minmax [simp]: "rep (w\<lparr>rbt_minmax := m\<rparr>) f d t = rep w f d t"
  by (induction w f d t rule: rep.induct) (auto simp: rb_acc)

lemma repc_minmax [simp]: "repc (w\<lparr>rbt_minmax := m\<rparr>) h k = repc w h k"
  by (induction w h k rule: repc.induct) (auto simp: rb_acc)

lemma okn_upd [simp]: "okn (w\<lparr>rbt_minmax := m\<rparr>) xs = okn w xs"
  "p \<in> live w \<Longrightarrow> okn (upd_chd p d v w) xs = okn w xs"
  "p \<in> live w \<Longrightarrow> okn (upd_inf p i w) xs = okn w xs"
  by (simp_all add: okn_def rb_acc)

lemma at_minmax [simp]: "at (w\<lparr>rbt_minmax := m\<rparr>) k t = at w k t"
  by (simp add: at_def)

lemma repc_set_hole:
  assumes "repc w h k" "okn w (pnodes k @ xs)"
  shows "repc (upd_chd (pfather w k) (pdir k) v w) v k"
proof (cases k rule: pnodes.cases)
  case 1
  then show ?thesis by (simp add: rb_acc)
next
  case (2 d x c s k')
  then show ?thesis using assms by (auto simp: rb_acc okn_def)
qed

lemma plug_refocus: "at w ((d, x, c, s) # k) t \<longleftrightarrow> at w k (Dn d t x c s)"
  by (auto simp: at_def okn_def)

lemma at_plug: "at w (j @ k) t \<longleftrightarrow> at w k (plug j t)"
  by (induction j arbitrary: t) (auto simp: plug_refocus)

lemma okn_mono: "okn w xs \<Longrightarrow> distinct ys \<Longrightarrow> set ys \<subseteq> set xs \<Longrightarrow> okn w ys"
  by (auto simp: okn_def)

lemma pfather_live: "okn w (pnodes k @ xs) \<Longrightarrow> pfather w k \<in> live w \<and> \<not> (pfather w k = rbt_self w \<and> pdir k) \<and> aligned (pfather w k)"
  by (cases k rule: pnodes.cases) (auto simp: okn_def)

lemma pfather_in: "pfather w k \<in> insert (rbt_self w) (set (pnodes k))"
  by (cases k rule: pnodes.cases) auto

lemma frame_refl [simp]: "frame S w w" by (simp add: frame_def)

lemma frame_trans: "frame S w w' \<Longrightarrow> frame S w' w'' \<Longrightarrow> frame S w w''" by (simp add: frame_def)

lemma frame_upd [simp]:
  "p \<in> live w' \<Longrightarrow> p \<in> S \<Longrightarrow> frame S w (upd_chd p d v w') = frame S w w'"
  "p \<in> live w' \<Longrightarrow> p \<in> S \<Longrightarrow> frame S w (upd_inf p i w') = frame S w w'"
  "frame S w (w'\<lparr>rbt_minmax := m\<rparr>) = frame S w w'"
proof -
  have "rb_mem (upd_chd p d v w') q = rb_mem w' q" "rb_mem (upd_inf p i w') q = rb_mem w' q" if "q \<noteq> p" for q
    using that by (simp_all add: upd_chd_def upd_inf_def)
  then show "p \<in> live w' \<Longrightarrow> p \<in> S \<Longrightarrow> frame S w (upd_chd p d v w') = frame S w w'"
    "p \<in> live w' \<Longrightarrow> p \<in> S \<Longrightarrow> frame S w (upd_inf p i w') = frame S w w'"
    unfolding frame_def by (metis live_upd head_upd)+
qed (simp add: frame_def rb_acc)

lemma frame_mono: "frame S w w' \<Longrightarrow> S \<subseteq> T \<Longrightarrow> frame T w w'"
  by (auto simp: frame_def)

lemma upd_inf_twice [simp]: "upd_inf p i (upd_inf p j w) = upd_inf p i w"
  by (simp add: upd_inf_def)

section \<open>Rotation and colours\<close>

abbreviation all_nodes :: "rb_world \<Rightarrow> path \<Rightarrow> rtree \<Rightarrow> u64 set" where
  "all_nodes w k t \<equiv> insert (rbt_self w) (set (pnodes k) \<union> set (inorder t))"

lemma reparent:
  assumes at: "at w k (Dn d (Dn d a y cy b) x cx s)"
  shows "eruns (rb_tree_reparent_nodes x d) w (\<lambda>_ w'. at w' k (Dn d a y cx (Dn d b x cy s)) \<and> rbt_minmax w' = rbt_minmax w \<and>
    frame (all_nodes w k (Dn d (Dn d a y cy b) x cx s)) w w')"
proof -
  let ?g = "pfather w k"
  have ok: "okn w (pnodes k @ inorder (Dn d (Dn d a y cy b) x cx s))" using at by (simp add: at_def)
  have g: "?g \<in> live w" "\<not> (?g = rbt_self w \<and> pdir k)" "aligned ?g" using pfather_live [OF ok] by auto
  have gn: "?g \<notin> set (inorder (Dn d (Dn d a y cy b) x cx s))" using pfather_in [of w k] ok by (auto simp: okn_def)
  have gn': "x \<noteq> ?g" "y \<noteq> ?g" "?g \<noteq> x" "?g \<noteq> y" using gn by auto
  have rc: "repc w x k" using at by (simp add: at_def)
  have xy: "x \<in> live w" "y \<in> live w" "x \<noteq> rbt_self w" "y \<noteq> rbt_self w" "x \<noteq> y" "aligned x" "aligned y" "y \<noteq> x" using ok by (auto simp: okn_def)
  have ac: "chd w x d = y" "chd w y d = root a" "chd w y (\<not> d) = root b" "chd w x (\<not> d) = root s" "inf_of w x = mkinfo ?g (pdir k) cx" "inf_of w y = mkinfo x d cy"
    using at by (auto simp: at_def)
  have rp: "rep w y d a" "rep w y (\<not> d) b" "rep w x (\<not> d) s" using at by (auto simp: at_def)
  have fin: "x \<notin> set (pnodes k)" "y \<notin> set (pnodes k)" "x \<notin> set (inorder a)" "x \<notin> set (inorder b)" "x \<notin> set (inorder s)" 
    "y \<notin> set (inorder a)" "y \<notin> set (inorder b)" "y \<notin> set (inorder s)" "?g \<notin> set (inorder a)" "?g \<notin> set (inorder b)" "?g \<notin> set (inorder s)"
    "rbt_self w \<in> live w"
    using ok gn by (auto simp: okn_def)
  have "inorder (Dn d (Dn d a y cy b) x cx s) = inorder (Dn d a y cx (Dn d b x cy s))" by (simp add: inorder_Dn)
  then have ok': "okn w (pnodes k @ inorder (Dn d a y cx (Dn d b x cy s)))" using ok by metis
  have gin: "?g = rbt_self w \<or> ?g \<in> set (pnodes k)" using pfather_in [of w k] by auto
  show ?thesis
  proof (cases b)
  case Lf
  then show ?thesis using xy g gn' rp fin gin ok'
    by (simp add: rb_tree_reparent_nodes_def evm_simps rb_acc Let_def ac RB_SENTINEL_P_def info_get info_set eruns_def at_def repc_set_hole [OF rc ok])
  next
    case (Br bl z cz br)
  have z: "z \<in> live w" "z \<noteq> 0" "z \<noteq> rbt_self w" "aligned z" "z \<noteq> x" "x \<noteq> z" "z \<noteq> y" "y \<noteq> z" "z \<noteq> ?g" "?g \<noteq> z" "z \<notin> set (pnodes k)" "z \<notin> set (inorder a)" "z \<notin> set (inorder s)"
     "z \<notin> set (inorder bl)" "z \<notin> set (inorder br)"
    using ok fin Br by (auto simp: okn_def live_def)
  then show ?thesis using Br xy g gn' rp fin gin ok'
    by (simp add: rb_tree_reparent_nodes_def evm_simps rb_acc Let_def ac RB_SENTINEL_P_def info_get info_set eruns_def at_def repc_set_hole [OF rc ok])
qed
qed
text \<open>What the macros read at a node of the tree, and marking it.\<close>

fun red :: "rtree \<Rightarrow> bool" where
  "red Lf = False"
| "red (Br l x c r) = c"

lemma red_Dn [simp]: "red (Dn d a x c b) = c"
  by (simp add: Dn_def)

lemma at_live:
  assumes "at w k t"
  shows "rbt_self w \<in> live w" "aligned (rbt_self w)" "pfather w k \<in> live w" "\<not> (pfather w k = rbt_self w \<and> pdir k)" "aligned (pfather w k)"
    and "x \<in> set (inorder t) \<union> set (pnodes k) \<Longrightarrow> x \<in> live w \<and> x \<noteq> rbt_self w \<and> aligned x \<and> x \<noteq> 0"
    and "x \<in> set (inorder t) \<Longrightarrow> x \<noteq> pfather w k \<and> x \<notin> set (pnodes k)"
proof -
  have ok: "okn w (pnodes k @ inorder t)" using assms by (simp add: at_def)
  then show "rbt_self w \<in> live w" "aligned (rbt_self w)" by (simp_all add: okn_def)
  show "pfather w k \<in> live w" "\<not> (pfather w k = rbt_self w \<and> pdir k)" "aligned (pfather w k)" using pfather_live [OF ok] by auto
  show "x \<in> set (inorder t) \<union> set (pnodes k) \<Longrightarrow> x \<in> live w \<and> x \<noteq> rbt_self w \<and> aligned x \<and> x \<noteq> 0"
    using ok live_neq_0 by (auto simp: okn_def)
  show "x \<in> set (inorder t) \<Longrightarrow> x \<noteq> pfather w k \<and> x \<notin> set (pnodes k)"
    using ok pfather_in [of w k] by (auto simp: okn_def)
qed

lemma at_read:
  assumes "at w k (Dn d a x c b)"
  shows "rb_child x d w = Inr (root a, w)" "rb_child x (\<not> d) w = Inr (root b, w)"
    "RB_FATHER x w = Inr (pfather w k, w)" "RB_POSITION x w = Inr (pdir k, w)"
    "RB_RED_P x w = Inr (c, w)" "RB_BLACK_P x w = Inr (\<not> c, w)"
    "rb_child (pfather w k) (pdir k) w = Inr (x, w)"
    "RB_ROOT_P x w = Inr (k = [], w)"
proof -
  have l: "x \<in> live w" "x \<noteq> rbt_self w" using at_live(6) [OF assms, of x] by auto
  have p: "aligned (pfather w k)" "rbt_self w \<in> live w" "pfather w k \<in> live w" "\<not> (pfather w k = rbt_self w \<and> pdir k)" using at_live [OF assms] by auto
  have i: "inf_of w x = mkinfo (pfather w k) (pdir k) c" "chd w x d = root a" "chd w x (\<not> d) = root b" "repc w x k"
    using assms by (auto simp: at_def)
  have h: "chd w (pfather w k) (pdir k) = x" using i(4) by (cases k rule: pnodes.cases) auto
  have r: "chd w (rbt_self w) False = root (plug k (Dn d a x c b))"
    using assms at_plug [of w k "[]" "Dn d a x c b"] by (simp add: at_def)
  have nr: "root (plug k t) = root t \<longleftrightarrow> k = []" if "distinct (pnodes k @ inorder t)" "t \<noteq> Lf" for t
  proof -
    have "k \<noteq> [] \<Longrightarrow> root (plug k t) \<in> set (pnodes k)" for t
    proof (induction k t rule: plug.induct)
      case (2 d x c s k t)
      then show ?case by (cases k) auto
    qed simp
    then have "k \<noteq> [] \<Longrightarrow> root (plug k t) \<noteq> root t" using that root_in [OF that(2)] by (metis disjoint_iff distinct_append)
    then show ?thesis by auto
  qed
  show "RB_ROOT_P x w = Inr (k = [], w)"
    using r nr [of "Dn d a x c b"] assms p by (auto simp: root_eval at_def okn_def)
  show "rb_child x d w = Inr (root a, w)" "rb_child x (\<not> d) w = Inr (root b, w)"
    "RB_FATHER x w = Inr (pfather w k, w)" "RB_POSITION x w = Inr (pdir k, w)"
    "RB_RED_P x w = Inr (c, w)" "RB_BLACK_P x w = Inr (\<not> c, w)"
    "rb_child (pfather w k) (pdir k) w = Inr (x, w)"
    using l p i h by (simp_all add: rb_acc info_get)
qed

lemma at_colour: "at w k t \<Longrightarrow> RB_RED_P (root t) w = Inr (red t, w) \<and> RB_BLACK_P (root t) w = Inr (\<not> red t, w)"
  by (cases rule: Dn_cases [where t = t and d = False]) (auto simp: at_read)

lemma at_sub:
  assumes "at w k (Dn d a x c b)"
  shows "at w ((d, x, c, b) # k) a" "at w ((\<not> d, x, c, a) # k) b"
  using assms by (auto simp: plug_refocus Dn_flip)

lemma at_mark:
  assumes "at w k (Dn d a x c b)"
  shows "eruns (RB_MARK_RED x) w (\<lambda>_ w'. at w' k (Dn d a x True b) \<and> rbt_minmax w' = rbt_minmax w \<and> frame {x} w w')"
    "eruns (RB_MARK_BLACK x) w (\<lambda>_ w'. at w' k (Dn d a x False b) \<and> rbt_minmax w' = rbt_minmax w \<and> frame {x} w w')"
proof -
  have l: "x \<in> live w" "x \<noteq> rbt_self w" using at_live(6) [OF assms, of x] by auto
  have p: "aligned (pfather w k)" using at_live [OF assms] by auto
  have i: "inf_of w x = mkinfo (pfather w k) (pdir k) c" using assms by (auto simp: at_def)
  have "x \<notin> set (pnodes k)" "x \<notin> set (inorder a)" "x \<notin> set (inorder b)" using assms by (auto simp: at_def okn_def)
  moreover have "okn w (pnodes k @ inorder (Dn d a x c' b))" for c' using assms by (simp add: at_def okn_def)
  ultimately show "eruns (RB_MARK_RED x) w (\<lambda>_ w'. at w' k (Dn d a x True b) \<and> rbt_minmax w' = rbt_minmax w \<and> frame {x} w w')"
    "eruns (RB_MARK_BLACK x) w (\<lambda>_ w'. at w' k (Dn d a x False b) \<and> rbt_minmax w' = rbt_minmax w \<and> frame {x} w w')"
    using assms l p i by (auto simp: eruns_def rb_acc info_set at_def)
qed

end
