(* ===== verification/Neb_Rb_Insert.thy ===== *)
theory Neb_Rb_Insert
  imports Neb_Rb_Rep
begin

text \<open>Insertion into the red-black tree: balance of trees and paths, rebalancing by recolouring and rotation, the search for the place and the
  link of the new leaf.\<close>

section \<open>Balance\<close>

text \<open>A red-black tree with a given black height; a path that completes such trees.\<close>

fun rbi :: "rtree \<Rightarrow> nat \<Rightarrow> bool" where
  "rbi Lf n \<longleftrightarrow> n = 0"
| "rbi (Br l x c r) n \<longleftrightarrow> (if c then \<not> red l \<and> \<not> red r \<and> rbi l n \<and> rbi r n else n \<noteq> 0 \<and> rbi l (n - 1) \<and> rbi r (n - 1))"

definition rb_balanced :: "rtree \<Rightarrow> bool" where "rb_balanced t \<longleftrightarrow> \<not> red t \<and> (\<exists>n. rbi t n)"

fun may_red :: "path \<Rightarrow> bool" where
  "may_red [] \<longleftrightarrow> False"
| "may_red ((d, x, c, s) # k) \<longleftrightarrow> \<not> c"

fun pok :: "path \<Rightarrow> nat \<Rightarrow> bool" where
  "pok [] n \<longleftrightarrow> True"
| "pok ((d, x, c, s) # k) n \<longleftrightarrow> rbi s n \<and> (if c then \<not> red s \<and> may_red k \<and> pok k n else pok k (Suc n))"

lemma rbi_Dn [simp]: "rbi (Dn d a x c b) n \<longleftrightarrow>
    (if c then \<not> red a \<and> \<not> red b \<and> rbi a n \<and> rbi b n else n \<noteq> 0 \<and> rbi a (n - 1) \<and> rbi b (n - 1))"
  by (auto simp: Dn_def)

lemma plug_balanced:
  assumes "pok k n" "rbi t n" "red t \<longrightarrow> may_red k"
  shows "rb_balanced (plug k t)"
  using assms
proof (induction k arbitrary: t n)
  case Nil
  then show ?case by (auto simp: rb_balanced_def)
next
  case (Cons f k)
  obtain d x c s where f: "f = (d, x, c, s)" by (cases f)
  show ?case
    using Cons.prems Cons.IH [of "if c then n else Suc n" "Dn d t x c s"] by (auto simp: f split: if_splits)
qed

lemma balanced_plug:
  assumes "rb_balanced (plug k t)"
  shows "\<exists>n. pok k n \<and> rbi t n \<and> (red t \<longrightarrow> may_red k)"
  using assms
proof (induction k arbitrary: t)
  case Nil
  then show ?case by (auto simp: rb_balanced_def)
next
  case (Cons f k)
  obtain d x c s where f: "f = (d, x, c, s)" by (cases f)
  obtain n where n: "pok k n" "rbi (Dn d t x c s) n" "c \<longrightarrow> may_red k"
    using Cons.IH [of "Dn d t x c s"] Cons.prems f by auto
  show ?case
  proof (cases c)
    case True
    then show ?thesis using n f by (intro exI [of _ n]) auto
  next
    case False
    then show ?thesis using n f by (intro exI [of _ "n - 1"]) auto
  qed
qed

section \<open>Rebalancing after an insertion\<close>

lemma all_nodes_plug: "all_nodes w k t = insert (rbt_self w) (set (inorder (plug k t)))"
  by (auto simp: inorder_plug set_pnodes)

text \<open>What is kept by the rebalancing of a tree \<open>T\<close>.\<close>

definition rebuilt :: "rb_world \<Rightarrow> rtree \<Rightarrow> rb_world \<Rightarrow> bool" where
  "rebuilt w T w' \<longleftrightarrow> (\<exists>T'. at w' [] T' \<and> rb_balanced T' \<and> inorder T' = inorder T) \<and> rbt_minmax w' = rbt_minmax w \<and>
     frame (insert (rbt_self w) (set (inorder T))) w w'"

text \<open>A state on the way there.\<close>

definition stage :: "rb_world \<Rightarrow> rtree \<Rightarrow> rb_world \<Rightarrow> path \<Rightarrow> rtree \<Rightarrow> bool" where
  "stage w T w' k t \<longleftrightarrow> at w' k t \<and> inorder (plug k t) = inorder T \<and> rbt_minmax w' = rbt_minmax w \<and>
     frame (insert (rbt_self w) (set (inorder T))) w w'"

lemma stage_refl: "at w k t \<Longrightarrow> stage w (plug k t) w k t"
  by (simp add: stage_def)

lemma stage_at: "stage w T w' k t \<Longrightarrow> at w' k t"
  by (simp add: stage_def)

lemma stage_focus: "stage w T w' ((d, x, c, s) # k) t \<longleftrightarrow> stage w T w' k (Dn d t x c s)"
  by (simp add: stage_def plug_refocus)

lemma stage_step:
  assumes "stage w T w1 k t" "eruns m w1 (\<lambda>_ w2. at w2 k t' \<and> rbt_minmax w2 = rbt_minmax w1 \<and> frame S w1 w2)"
    "inorder t' = inorder t" "S \<subseteq> all_nodes w1 k t"
  shows "eruns m w1 (\<lambda>_ w2. stage w T w2 k t')"
proof (rule eruns_mono [OF assms(2)])
  fix x :: 'a and w2
  assume w2: "at w2 k t' \<and> rbt_minmax w2 = rbt_minmax w1 \<and> frame S w1 w2"
  have "rbt_self w1 = rbt_self w" using assms(1) by (simp add: stage_def frame_def)
  then have "S \<subseteq> insert (rbt_self w) (set (inorder T))"
    using assms(1,4) unfolding all_nodes_plug by (simp add: stage_def)
  then have "frame (insert (rbt_self w) (set (inorder T))) w1 w2" using w2 frame_mono by blast
  then show "stage w T w2 k t'"
    using assms(1,3) w2 frame_trans [of _ w w1 w2] by (auto simp: stage_def inorder_plug)
qed

lemma stage_rotate:
  assumes "stage w T w1 k (Dn d (Dn d a y cy b) x cx s)"
  shows "eruns (rb_tree_reparent_nodes x d) w1 (\<lambda>_ w2. stage w T w2 k (Dn d a y cx (Dn d b x cy s)))"
  by (rule stage_step [OF assms reparent [OF stage_at [OF assms]]]) (auto simp: inorder_Dn)

lemma stage_red:
  assumes "stage w T w1 k (Dn d a x c b)"
  shows "eruns (RB_MARK_RED x) w1 (\<lambda>_ w2. stage w T w2 k (Dn d a x True b))"
  by (rule stage_step [OF assms at_mark(1) [OF stage_at [OF assms]]]) (auto simp: inorder_Dn)

lemma stage_black:
  assumes "stage w T w1 k (Dn d a x c b)"
  shows "eruns (RB_MARK_BLACK x) w1 (\<lambda>_ w2. stage w T w2 k (Dn d a x False b))"
  by (rule stage_step [OF assms at_mark(2) [OF stage_at [OF assms]]]) (auto simp: inorder_Dn)

lemma stage_top: "stage w T w' k t \<longleftrightarrow> stage w T w' [] (plug k t)"
  using at_plug [of w' k "[]" t] by (simp add: stage_def)

lemma stage_done:
  assumes "stage w T w' k t" "pok k n" "rbi t n" "red t \<longrightarrow> may_red k"
  shows "rebuilt w T w'"
  using assms(1) plug_balanced [OF assms(2-4)] unfolding stage_top [of w T w' k] by (auto simp: stage_def rebuilt_def)

text \<open>Marking the root of a balanced tree black.\<close>

lemma stage_root_black:
  assumes "stage w T w1 k (Dn d a x False b)" "pok k n" "rbi (Dn d a x False b) n"
  shows "eruns (ebind rbt_root RB_MARK_BLACK) w1 (\<lambda>_ w2. rebuilt w T w2)"
proof -
  let ?T = "plug k (Dn d a x False b)"
  have bal: "rb_balanced ?T" using plug_balanced [OF assms(2,3)] by simp
  have st: "stage w T w1 [] ?T" using assms(1) stage_top by blast
  have "?T \<noteq> Lf"
  proof
    assume "?T = Lf"
    then have "inorder ?T = []" by simp
    then show False by (simp add: inorder_plug inorder_Dn split: if_splits)
  qed
  then obtain a' r b' where T': "?T = Dn False a' r False b'"
    using Dn_ex [of ?T False] bal by (auto simp: rb_balanced_def)
  have st': "stage w T w1 [] (Dn False a' r False b')" using st T' by simp
  have "rbt_root w1 = Inr (r, w1)"
    using at_read(7) [OF stage_at [OF st']] by (simp add: rbt_root_def)
  then show ?thesis
    using eruns_mono [OF stage_black [OF st'], of "\<lambda>_ w2. rebuilt w T w2"] bal T'
    by (auto simp: eruns_ebind eruns_Inr rebuilt_def stage_def)
qed

lemma insert_rotate_ok:
  assumes st: "stage w T w1 ((d1, f, True, s1) # (d2, g, False, u) # k) t"
    and t: "red t" "rbi t n" and s: "rbi s1 n" "\<not> red s1" "rbi u n" "\<not> red u" "pok k (Suc n)"
  shows "eruns (insert_rotate (root t) f g d2) w1 (\<lambda>_ w2. rebuilt w T w2)"
proof -
  have st1: "stage w T w1 ((d2, g, False, u) # k) (Dn d1 t f True s1)" using st stage_focus by metis
  have st2: "stage w T w1 k (Dn d2 (Dn d1 t f True s1) g False u)" using st1 stage_focus by metis
  note rd = at_read [OF stage_at [OF st1]]
  have ne: "t \<noteq> Lf" using t by auto
  show ?thesis
  proof (cases "d1 = d2")
    case True
    have "root t \<noteq> root s1"
    proof -
      have "root t \<in> set (inorder t)" using ne root_in by blast
      moreover have "set (inorder t) \<inter> set (inorder s1) = {}" "root t \<noteq> 0"
        using stage_at [OF st1] at_live(6) [OF stage_at [OF st1], of "root t"] \<open>root t \<in> set (inorder t)\<close>
        by (auto simp: at_def okn_def)
      ultimately show ?thesis by (cases s1) auto
    qed
    then have "eruns (insert_rotate (root t) f g d2) w1 Q =
        eruns (eseq (rb_tree_reparent_nodes g d2) (ebind rbt_root RB_MARK_BLACK)) w1 Q" for Q
      using rd(2) True by (simp add: insert_rotate_def Let_def eruns_simps)
    moreover have "eruns (eseq (rb_tree_reparent_nodes g d2) (ebind rbt_root RB_MARK_BLACK)) w1 (\<lambda>_ w2. rebuilt w T w2)"
      unfolding eruns_eseq
      by (rule eruns_mono [OF stage_rotate [OF st2 [unfolded True]]])
        (erule stage_root_black [where n = "Suc n"], use t s in auto)
    ultimately show ?thesis by simp
  next
    case False
    then have d1: "d1 = (\<not> d2)" by auto
    obtain a x b where tt: "t = Dn d1 a x True b" using ne Dn_ex [of t d1] t(1) by auto
    have "eruns (insert_rotate (root t) f g d2) w1 Q =
        eruns (rb_tree_reparent_nodes f d1) w1 (\<lambda>_ w2. eruns (RB_FATHER f) w2 (\<lambda>_ w2.
          eruns (eseq (rb_tree_reparent_nodes g d2) (ebind rbt_root RB_MARK_BLACK)) w2 Q))" for Q
      using rd(1) d1 by (simp add: insert_rotate_def Let_def eruns_simps)
    moreover have "eruns (rb_tree_reparent_nodes f d1) w1 (\<lambda>_ w2. eruns (RB_FATHER f) w2 (\<lambda>_ w2.
          eruns (eseq (rb_tree_reparent_nodes g d2) (ebind rbt_root RB_MARK_BLACK)) w2 (\<lambda>_ w2. rebuilt w T w2)))"
    proof (rule eruns_mono [OF stage_rotate [OF st1 [unfolded tt]]])
      fix w2
      assume w2: "stage w T w2 ((d2, g, False, u) # k) (Dn d1 a x True (Dn d1 b f True s1))"
      have fa: "RB_FATHER f w2 = Inr (x, w2)"
        using at_read(3) [OF at_sub(2) [OF stage_at [OF w2]]] by simp
      have st3: "stage w T w2 k (Dn d2 (Dn d2 (Dn d1 b f True s1) x True a) g False u)"
        using w2 unfolding stage_focus d1 Dn_flip by (simp add: Dn_def)
      show "eruns (RB_FATHER f) w2 (\<lambda>_ w2.
          eruns (eseq (rb_tree_reparent_nodes g d2) (ebind rbt_root RB_MARK_BLACK)) w2 (\<lambda>_ w2. rebuilt w T w2))"
        unfolding eruns_Inr [where m = "RB_FATHER f", OF fa] eruns_eseq
        by (rule eruns_mono [OF stage_rotate [OF st3]])
          (erule stage_root_black [where n = "Suc n"], use t s tt in auto)
    qed
    ultimately show ?thesis by simp
  qed
qed

lemma insert_loop_ok:
  assumes "stage w T w1 k t" "red t" "rbi t n" "pok k n" "k \<noteq> []" "\<not> may_red k" "length k < fuel"
  shows "eruns (insert_loop fuel (root t) (pfather w1 k)) w1 (\<lambda>_ w2. rebuilt w T w2)"
  using assms
proof (induction fuel arbitrary: w1 k t n)
  case (Suc fuel)
  obtain d1 f s1 k1 where k: "k = (d1, f, True, s1) # k1" "may_red k1" "\<not> red s1" "rbi s1 n" "pok k1 n"
    using Suc.prems(4-6) by (cases k) auto
  obtain d2 g u k2 where k1: "k1 = (d2, g, False, u) # k2" "rbi u n" "pok k2 (Suc n)"
    using k(2,5) by (cases k1) auto
  note st = Suc.prems(1) [unfolded k k1]
  have st1: "stage w T w1 ((d2, g, False, u) # k2) (Dn d1 t f True s1)" using st by (simp add: stage_focus)
  have st2: "stage w T w1 k2 (Dn d2 (Dn d1 t f True s1) g False u)" using st1 by (simp add: stage_focus)
  note a1 = stage_at [OF st1] and a2 = stage_at [OF st2]
  have fu: "f \<noteq> root u"
    using a2 at_live(6) [OF a1, of f] root_in [of u] by (cases u) (auto simp: at_def okn_def)
  have ch: "rb_child g True w1 = Inr (if d2 then f else root u, w1)" "(f = (if d2 then f else root u)) = d2"
    using at_read(1,2) [OF a2] fu by (cases d2; simp)+
  have run: "eruns (insert_loop (Suc fuel) (root t) (pfather w1 k)) w1 Q \<longleftrightarrow>
      (if \<not> red u then eruns (insert_rotate (root t) f g d2) w1 Q
       else eruns (RB_MARK_BLACK (root u)) w1 (\<lambda>_ w2. eruns (RB_MARK_BLACK f) w2 (\<lambda>_ w2.
         eruns (RB_ROOT_P g) w2 (\<lambda>root w2. if root then Q () w2 else eruns (RB_MARK_RED g) w2 (\<lambda>_ w2.
           eruns (RB_FATHER g) w2 (\<lambda>father w2. eruns (RB_BLACK_P father) w2 (\<lambda>black w2.
             if black then Q () w2 else eruns (insert_loop fuel g father) w2 Q)))))))" for Q
    using at_read(3) [OF a1] ch at_read(1,2) [OF a2] at_colour [OF at_sub(2) [OF a2]] k(1)
    by (simp add: eruns_ebind eruns_eseq eruns_eret eruns_Inr Let_def if_distrib [of "\<lambda>m. eruns m w Q" for w Q] cong: if_cong)
  show ?case
  proof (cases "red u")
    case False
    then show ?thesis unfolding run using insert_rotate_ok [OF st Suc.prems(2,3) k(4,3) k1(2) _ k1(3)] by simp
  next
    case True
    obtain ul ur un where u: "u = Br ul un True ur" using True by (cases u) auto
    let ?u = "Br ul un False ur"
    let ?t = "\<lambda>c. Dn d2 (Dn d1 t f False s1) g c ?u"
    have bal: "rbi (?t False) (Suc (Suc n))" "rbi (?t True) (Suc n)" using Suc.prems(2,3) k(3,4) k1(2) u by auto
    have "stage w T w1 ((\<not> d2, g, False, Dn d1 t f True s1) # k2) (Dn False ul un True ur)"
      using st2 u by (cases d1; cases d2) (simp_all add: stage_focus Dn_def)
    note s1 = stage_black [OF this]
    have s2: "eruns (RB_MARK_BLACK f) w2 (\<lambda>_ w3. stage w T w3 k2 (?t False))"
      if "stage w T w2 ((\<not> d2, g, False, Dn d1 t f True s1) # k2) (Dn False ul un False ur)" for w2
    proof -
      have "stage w T w2 ((d2, g, False, ?u) # k2) (Dn d1 t f True s1)"
        using that by (cases d1; cases d2) (simp_all add: stage_focus Dn_def)
      from stage_black [OF this] show ?thesis by (simp add: stage_focus)
    qed
    have s3: "if k2 = [] then rebuilt w T w3 else eruns (RB_MARK_RED g) w3 (\<lambda>_ w2.
           eruns (RB_FATHER g) w2 (\<lambda>father w2. eruns (RB_BLACK_P father) w2 (\<lambda>black w2.
             if black then rebuilt w T w2 else eruns (insert_loop fuel g father) w2 (\<lambda>_ w2. rebuilt w T w2))))"
      if w3: "stage w T w3 k2 (?t False)" for w3
    proof (cases k2)
      case Nil
      then show ?thesis using stage_done [OF w3 _ bal(1)] by simp
    next
      case (Cons fr k3)
      obtain d3 x3 c3 u3 where fr: "fr = (d3, x3, c3, u3)" by (cases fr)
      have "eruns (RB_FATHER g) w4 (\<lambda>father w2. eruns (RB_BLACK_P father) w2 (\<lambda>black w2.
             if black then rebuilt w T w2 else eruns (insert_loop fuel g father) w2 (\<lambda>_ w2. rebuilt w T w2)))"
        if w4: "stage w T w4 k2 (?t True)" for w4
      proof -
        have f: "RB_FATHER g w4 = Inr (pfather w4 k2, w4)" using at_read(3) [OF stage_at [OF w4]] .
        have "at w4 k3 (Dn d3 (?t True) x3 c3 u3)"
          using stage_at [OF w4] Cons fr by (simp add: plug_refocus)
        then have b: "RB_BLACK_P (pfather w4 k2) w4 = Inr (\<not> c3, w4)" using at_read(6) Cons fr by simp
        have "c3 \<Longrightarrow> eruns (insert_loop fuel (root (?t True)) (pfather w4 k2)) w4 (\<lambda>_ w2. rebuilt w T w2)"
          by (rule Suc.IH [OF w4 _ bal(2) k1(3)]) (use Suc.prems(7) k k1 Cons fr in auto)
        moreover have "\<not> c3 \<Longrightarrow> rebuilt w T w4"
          using stage_done [OF w4 k1(3) bal(2)] Cons fr by simp
        ultimately show ?thesis using f b by (simp add: eruns_Inr)
      qed
      then show ?thesis using eruns_mono [OF stage_red [OF w3]] Cons by simp
    qed
    have s4: "eruns (RB_ROOT_P g) w3 (\<lambda>root w2. if root then rebuilt w T w2 else eruns (RB_MARK_RED g) w2 (\<lambda>_ w2.
           eruns (RB_FATHER g) w2 (\<lambda>father w2. eruns (RB_BLACK_P father) w2 (\<lambda>black w2.
             if black then rebuilt w T w2 else eruns (insert_loop fuel g father) w2 (\<lambda>_ w2. rebuilt w T w2)))))"
      if w3: "stage w T w3 k2 (?t False)" for w3
      unfolding eruns_Inr [where m = "RB_ROOT_P g", OF at_read(8) [OF stage_at [OF w3]]] by (rule s3 [OF w3])
    have nn: "\<not> \<not> red u" "root u = un" using True u by simp_all
    show ?thesis unfolding run if_not_P [OF nn(1)] nn(2)
      by (rule eruns_mono [OF s1], rule eruns_mono [OF s2], assumption, rule s4)
  qed
qed simp

section \<open>Insertion\<close>

fun depth :: "rtree \<Rightarrow> nat" where
  "depth Lf = 0"
| "depth (Br l x c r) = Suc (max (depth l) (depth r))"

text \<open>The search, with the result \<open>g\<close> of the comparison of a node with the new object or a key:
  the node that is equal, or the path to the place.\<close>

fun place :: "(u64 \<Rightarrow> int) \<Rightarrow> path \<Rightarrow> rtree \<Rightarrow> u64 + path" where
  "place g k Lf = Inr k"
| "place g k (Br l x c r) = (if g x = 0 then Inl x else if g x < 0 then place g ((True, x, c, l) # k) r else place g ((False, x, c, r) # k) l)"

text \<open>The comparison agrees with the order of the nodes.\<close>

definition along :: "(u64 \<Rightarrow> int) \<Rightarrow> u64 list \<Rightarrow> bool" where
  "along g xs \<longleftrightarrow> sorted_wrt (\<lambda>a b. (g b \<le> 0 \<longrightarrow> g a < 0) \<and> (0 \<le> g a \<longrightarrow> 0 < g b)) xs"

lemma depth_Dn [simp]: "depth (Dn d a x c b) = Suc (max (depth a) (depth b))"
  by (simp add: Dn_def max.commute)

lemma depth_plug: "length k + depth t \<le> depth (plug k t)"
proof (induction k arbitrary: t)
  case (Cons f k)
  obtain d x c s where "f = (d, x, c, s)" by (cases f)
  then show ?case using Cons.IH [of "Dn d t x c s"] by simp
qed simp

lemma at_Br: "at w k (Br l x c r) = at w k (Dn False l x c r)"
  by (simp add: Dn_def)

lemma place_loop_eval:
  assumes "at w k t" "depth t < fuel"
  shows "place_loop rbto object fuel (root t) (pfather w k) (pdir k) w =
    Inr (case place (\<lambda>x. rbto_compare_nodes rbto (RB_NODETOITEM rbto x) object) k t of
      Inl x \<Rightarrow> Inl (RB_NODETOITEM rbto x) | Inr k' \<Rightarrow> Inr (pfather w k', pdir k'), w)"
  using assms
proof (induction t arbitrary: k fuel)
  case Lf
  then show ?case by (cases fuel) (auto simp: RB_SENTINEL_P_def evm_simps)
next
  case (Br l x c r)
  obtain m where m: "fuel = Suc m" using Br.prems(2) by (cases fuel) auto
  note at = Br.prems(1) [unfolded at_Br]
  have x: "x \<noteq> 0" using at_live(6) [OF at, of x] by simp
  have l: "at w ((False, x, c, r) # k) l" and r: "at w ((True, x, c, l) # k) r" using at_sub [OF at] by auto
  show ?case
    using Br.IH(1) [OF l, of m] Br.IH(2) [OF r, of m] Br.prems(2) x at_read(1,2) [OF at] m
    by (auto simp: RB_SENTINEL_P_def evm_simps Let_def)
qed

lemma place_plug: "place g k t = Inr k' \<Longrightarrow> plug k' Lf = plug k t"
  by (induction g k t rule: place.induct) (auto simp: Dn_def split: if_splits)

lemma place_Inl: "place g k t = Inl x \<Longrightarrow> x \<in> set (inorder t) \<and> g x = 0"
  by (induction g k t rule: place.induct) (auto split: if_splits)

lemma place_Inr:
  assumes "place g k t = Inr k'" "along g (lefts k @ inorder t @ rights k)" "\<forall>a \<in> set (lefts k). g a < 0" "\<forall>a \<in> set (rights k). 0 < g a"
  shows "(\<forall>a \<in> set (lefts k'). g a < 0) \<and> (\<forall>a \<in> set (rights k'). 0 < g a)"
  using assms
proof (induction g k t rule: place.induct)
  case (2 g k l x c r)
  consider "g x < 0" | "0 < g x" using 2(3) by fastforce
  then show ?case
  proof cases
    case 1
    show ?thesis by (rule 2(1)) (use 1 2(3-) in \<open>auto simp: along_def sorted_wrt_append\<close>)
  next
    case 2
    show ?thesis by (rule "2.IH"(2)) (use 2 "2.prems" in \<open>auto simp: along_def sorted_wrt_append\<close>)
  qed
qed simp

text \<open>The first and the last node are kept in the tree.\<close>

definition ends :: "rb_world \<Rightarrow> u64 list \<Rightarrow> bool" where
  "ends w xs \<longleftrightarrow> (xs \<noteq> [] \<longrightarrow> rbt_minmax w False = hd xs \<and> rbt_minmax w True = last xs)"

definition rb_rep :: "rb_world \<Rightarrow> rtree \<Rightarrow> bool" where
  "rb_rep w T \<longleftrightarrow> at w [] T \<and> rb_balanced T \<and> ends w (inorder T)"

lemma rebuilt_rep: "rebuilt w T w' \<Longrightarrow> ends w (inorder T) \<Longrightarrow>
    \<exists>T'. rb_rep w' T' \<and> inorder T' = inorder T \<and> frame (insert (rbt_self w) (set (inorder T))) w w'"
  unfolding rebuilt_def rb_rep_def ends_def by metis

lemma parent_end:
  assumes "distinct (lefts k @ rights k)" "k \<noteq> []"
  shows "pdir k \<Longrightarrow> lefts k \<noteq> [] \<and> pfather w k = last (lefts k)" "\<not> pdir k \<Longrightarrow> rights k \<noteq> [] \<and> pfather w k = hd (rights k)"
  using assms by (cases k rule: pnodes.cases; auto)+

lemma upd_minmax [simp]: "upd_inf p i (w\<lparr>rbt_minmax := m\<rparr>) = (upd_inf p i w)\<lparr>rbt_minmax := m\<rparr>"
  "upd_chd p d v (w\<lparr>rbt_minmax := m\<rparr>) = (upd_chd p d v w)\<lparr>rbt_minmax := m\<rparr>"
  by (simp_all add: upd_inf_def upd_chd_def)

lemma repc_set_hole2:
  assumes "repc w h k" "okn w (pnodes k @ xs)" "p = pfather w k"
  shows "repc (upd_chd p (pdir k) v w) v k"
  using repc_set_hole [OF assms(1,2)] assms(3) by simp

lemma link_leaf:
  assumes "repc w h k" "okn w (x # pnodes k)" "inf_of w x = mkinfo (pfather w k) (pdir k) c"
  shows "at (upd_chd (pfather w k) (pdir k) x (upd_chd x True 0 (upd_chd x False 0 w))) k (Br Lf x c Lf)"
proof -
  have x: "x \<in> live w" "x \<noteq> rbt_self w" "x \<notin> set (pnodes k)" "x \<noteq> pfather w k" "okn w (pnodes k @ [x])"
    using assms(2) pfather_in [of w k] by (auto simp: okn_def)
  have p: "pfather w k \<in> live w" using pfather_live [OF x(5)] by simp
  let ?w = "upd_chd x True 0 (upd_chd x False 0 w)"
  have "repc (upd_chd (pfather w k) (pdir k) x ?w) x k"
    by (rule repc_set_hole2 [of _ h _ "[x]"]) (use assms(1) x in \<open>simp_all add: rb_acc\<close>)
  then show ?thesis using x p assms(3) by (simp add: at_def rb_acc)
qed

lemma insert_link:
  assumes at: "at w k Lf" and x: "x \<in> live w" "x \<noteq> rbt_self w" "aligned x" "x \<notin> set (pnodes k)"
    and ends: "ends w (lefts k @ rights k)"
    and pl: "place_loop rbto object fuel tmp (rbt_self w) False w = Inr (Inr (pfather w k, pdir k), w)"
    and rt: "rbt_root w = Inr (tmp, w)" and xo: "x = RB_ITEMTONODE rbto object"
  shows "\<exists>w1. at w1 k (Br Lf x (k \<noteq> []) Lf) \<and> ends w1 (lefts k @ x # rights k) \<and> frame (insert x (all_nodes w k Lf)) w w1 \<and>
     (\<forall>Q. eruns (rb_tree_insert_node rbto fuel object) w Q = (if k \<noteq> [] \<and> \<not> may_red k then eruns (rb_tree_insert_rebalance fuel x) w1 (\<lambda>_ w. Q object w) else Q object w1))"
proof -
  obtain f0 d0 c0 where i: "inf_of w x = mkinfo f0 d0 c0" "aligned f0" using info_ex by blast
  have ok: "okn w (x # pnodes k)" using at x by (auto simp: at_def okn_def)
  let ?p = "pfather w k"
  have p: "?p \<in> live w" "\<not> (?p = rbt_self w \<and> pdir k)" "aligned ?p" "rbt_self w \<in> live w" using at_live [OF at] by auto
  have px: "?p \<noteq> x" "x \<noteq> ?p" using pfather_in [of w k] x by auto
  have rc: "repc w 0 k" "chd w ?p (pdir k) = 0" using at by (auto simp: at_def) (cases k rule: pnodes.cases; simp)
  show ?thesis
  proof (cases k rule: pnodes.cases)
    case 1
    let ?w = "(upd_inf x (mkinfo ?p (pdir k) False) w)\<lparr>rbt_minmax := (rbt_minmax w)(False := x, True := x)\<rparr>"
    let ?w1 = "upd_chd ?p (pdir k) x (upd_chd x True 0 (upd_chd x False 0 ?w))"
    have "at ?w1 k (Br Lf x False Lf)"
      using link_leaf [of ?w 0 k x False] rc ok x by (simp add: rb_acc)
    moreover have "ends ?w1 (lefts k @ x # rights k)" using 1 by (simp add: ends_def rb_acc)
    moreover have "frame (insert x (all_nodes w k Lf)) w ?w1" using x p 1 by (simp add: rb_acc)
    moreover have "eruns (rb_tree_insert_node rbto fuel object) w Q = Q object ?w1" for Q
      using 1 x px p rc i
      by (simp add: rb_tree_insert_node_def Let_def evm_simps rt pl xo [symmetric] rb_acc info_set eruns_def)
    ultimately show ?thesis using 1 by (intro exI [of _ ?w1]) simp
  next
    case (2 d y c s k')
    let ?v = "upd_inf x (mkinfo ?p (pdir k) True) w"
    let ?w = "if rbt_minmax w d = y then ?v\<lparr>rbt_minmax := (rbt_minmax w)(d := x)\<rparr> else ?v"
    let ?w1 = "upd_chd ?p (pdir k) x (upd_chd x True 0 (upd_chd x False 0 ?w))"
    have "at w k' (Dn d Lf y c s)" using at 2 by (simp add: plug_refocus)
    note rd = at_read [OF this]
    have yl: "y \<in> live w" "y \<noteq> rbt_self w" "inf_of w y = mkinfo (pfather w k') (pdir k') c" "aligned (pfather w k')"
      using at_live [OF \<open>at w k' (Dn d Lf y c s)\<close>] at 2 by (auto simp: at_def)
    have "at ?w1 k (Br Lf x True Lf)"
      using link_leaf [of ?v 0 k x True] rc ok x by (simp add: rb_acc)
    moreover have "ends ?w1 (lefts k @ x # rights k)"
    proof -
      have dis: "distinct (lefts k @ rights k)"
        using at at_plug [of w k "[]" Lf] by (simp add: at_def okn_def inorder_plug)
      have "y \<in> set (lefts k) \<or> y \<in> set (rights k)" using 2 by (cases d) auto
      then have e: "rbt_minmax w False = hd (lefts k @ rights k)" "rbt_minmax w True = last (lefts k @ rights k)"
        using ends by (auto simp: ends_def)
      note pe = parent_end [OF dis, of w]
      show ?thesis
      proof (cases d)
        case True
        then have y: "lefts k \<noteq> []" "y = last (lefts k)" using pe(1) 2 by auto
        have "rights k \<noteq> [] \<Longrightarrow> y \<noteq> last (rights k)" using y dis by (metis disjoint_iff distinct_append last_in_set)
        then show ?thesis using e True y by (auto simp: ends_def rb_acc)
      next
        case False
        then have y: "rights k \<noteq> []" "y = hd (rights k)" using pe(2) 2 by auto
        have "lefts k \<noteq> [] \<Longrightarrow> y \<noteq> hd (lefts k)" using y dis by (metis disjoint_iff distinct_append list.set_sel(1))
        then show ?thesis using e False y by (cases "lefts k") (auto simp: ends_def rb_acc)
      qed
    qed
    moreover have "frame (insert x (all_nodes w k Lf)) w ?w1" using x p 2 by (simp add: rb_acc)
    moreover have "eruns (rb_tree_insert_node rbto fuel object) w Q =
        (if c then eruns (rb_tree_insert_rebalance fuel x) ?w1 (\<lambda>_ w. Q object w) else Q object ?w1)" for Q
      using 2 x px p rc(2) i rt yl
      by (cases "rbt_minmax w d = y")
        (simp_all add: rb_tree_insert_node_def Let_def evm_simps pl [unfolded 2] xo [symmetric] rb_acc info_set info_get eruns_simps)
    ultimately show ?thesis using 2 by (intro exI [of _ ?w1]) simp
  qed
qed
lemma insert_rebalance_ok:
  assumes at: "at w k (Br Lf x True Lf)" and k: "pok k 0" "k \<noteq> []" "\<not> may_red k" "length k < fuel"
  shows "eruns (rb_tree_insert_rebalance fuel x) w (\<lambda>_ w2. rebuilt w (plug k (Br Lf x True Lf)) w2)"
proof -
  obtain d y s k' where k': "k = (d, y, True, s) # k'" using k by (cases k) auto
  have f: "RB_FATHER x w = Inr (pfather w k, w)" using at_read(3) [OF at [unfolded at_Br]] .
  have "at w k' (Dn d (Br Lf x True Lf) y True s)" using at k' by (simp add: plug_refocus)
  then have g: "RB_FATHER y w = Inr (pfather w k', w)" using at_read(3) by blast
  show ?thesis
    using insert_loop_ok [OF stage_refl [OF at] _ _ k] f g k' by (simp add: rb_tree_insert_rebalance_def eruns_simps)
qed

lemma along_filter:
  assumes "along g (ls @ rs)" "\<forall>a \<in> set ls. g a < 0" "\<forall>a \<in> set rs. 0 < g a"
  shows "ls = filter (\<lambda>a. g a < 0) (ls @ rs)" "rs = filter (\<lambda>a. 0 < g a) (ls @ rs)" "\<forall>a \<in> set (ls @ rs). g a \<noteq> 0"
  using assms by (auto simp: filter_empty_conv filter_id_conv)

theorem insert_node_ok:
  fixes rbto :: "'k rb_tree_ops"
  assumes rep: "rb_rep w T" and al: "along g (inorder T)" and g: "g = (\<lambda>x. rbto_compare_nodes rbto (RB_NODETOITEM rbto x) object)"
    and x: "x = RB_ITEMTONODE rbto object" "x \<in> live w" "x \<noteq> rbt_self w" "aligned x" "x \<notin> set (inorder T)" and fuel: "depth T < fuel"
  shows "(\<exists>y \<in> set (inorder T). g y = 0 \<and> rb_tree_insert_node rbto fuel object w = Inr (RB_NODETOITEM rbto y, w)) \<or>
    (\<forall>y \<in> set (inorder T). g y \<noteq> 0) \<and> eruns (rb_tree_insert_node rbto fuel object) w (\<lambda>r w'. r = object \<and> (\<exists>T'. rb_rep w' T' \<and>
      inorder T' = filter (\<lambda>a. g a < 0) (inorder T) @ x # filter (\<lambda>a. 0 < g a) (inorder T) \<and>
      frame (insert x (insert (rbt_self w) (set (inorder T)))) w w'))"
proof -
  have at: "at w [] T" and bal: "rb_balanced T" and en: "ends w (inorder T)" using rep by (auto simp: rb_rep_def)
  have rt: "rbt_root w = Inr (root T, w)" using at by (simp add: at_def okn_def rb_acc)
  have pl: "place_loop rbto object fuel (root T) (rbt_self w) False w =
    Inr (case place g [] T of Inl x \<Rightarrow> Inl (RB_NODETOITEM rbto x) | Inr k' \<Rightarrow> Inr (pfather w k', pdir k'), w)"
    using place_loop_eval [OF at fuel] g by simp
  show ?thesis
  proof (cases "place g [] T")
    case (Inl y)
    then have "rb_tree_insert_node rbto fuel object w = Inr (RB_NODETOITEM rbto y, w)"
      using pl rt by (simp add: rb_tree_insert_node_def Let_def evm_simps)
    then show ?thesis using place_Inl [OF Inl] by blast
  next
    case (Inr k)
    have T: "plug k Lf = T" using place_plug [OF Inr] by simp
    then have lr: "inorder T = lefts k @ rights k" using inorder_plug [of k Lf] by simp
    have sgn: "\<forall>a \<in> set (lefts k). g a < 0" "\<forall>a \<in> set (rights k). 0 < g a" using place_Inr [OF Inr] al by auto
    note fl = along_filter [OF al [unfolded lr] sgn, folded lr]
    have atk: "at w k Lf" using at T at_plug [of w k "[]" Lf] by simp
    obtain w1 where w1: "at w1 k (Br Lf x (k \<noteq> []) Lf)" "ends w1 (lefts k @ x # rights k)" "frame (insert x (all_nodes w k Lf)) w w1"
      and run: "\<And>Q. eruns (rb_tree_insert_node rbto fuel object) w Q =
        (if k \<noteq> [] \<and> \<not> may_red k then eruns (rb_tree_insert_rebalance fuel x) w1 (\<lambda>_ w. Q object w) else Q object w1)"
      using insert_link [OF atk x(2-4) _ en [unfolded lr] _ rt x(1)] pl Inr x(5) lr by (auto simp: set_pnodes)
    have fr: "frame (insert x (insert (rbt_self w) (set (inorder T)))) w w1" using w1(3) lr by (simp add: set_pnodes)
    obtain n where n: "pok k n" "rbi Lf n" using balanced_plug [of k Lf] bal T by auto
    have io: "inorder (plug k (Br Lf x c Lf)) = lefts k @ x # rights k" for c by (simp add: inorder_plug)
    show ?thesis
    proof (cases "k \<noteq> [] \<and> \<not> may_red k")
      case True
      have "length k < fuel" using fuel depth_plug [of k Lf] T by simp
      then have r: "eruns (rb_tree_insert_rebalance fuel x) w1 (\<lambda>_ w2. rebuilt w1 (plug k (Br Lf x True Lf)) w2)"
        using insert_rebalance_ok [of w1 k x fuel] w1(1) n True by simp
      have "eruns (rb_tree_insert_node rbto fuel object) w (\<lambda>r w'. r = object \<and> (\<exists>T'. rb_rep w' T' \<and>
          inorder T' = lefts k @ x # rights k \<and> frame (insert x (insert (rbt_self w) (set (inorder T)))) w w'))"
        unfolding run if_P [OF True]
      proof (rule eruns_mono [OF r])
        fix w2
        assume "rebuilt w1 (plug k (Br Lf x True Lf)) w2"
        from rebuilt_rep [OF this] w1(2) obtain T' where T': "rb_rep w2 T'" "inorder T' = lefts k @ x # rights k"
          and f2: "frame (insert (rbt_self w1) (set (lefts k @ x # rights k))) w1 w2" unfolding io by blast
        have "rbt_self w1 = rbt_self w" using fr by (simp add: frame_def)
        then have "frame (insert x (insert (rbt_self w) (set (inorder T)))) w1 w2"
          using f2 lr by (auto intro: frame_mono)
        then show "object = object \<and> (\<exists>T'. rb_rep w2 T' \<and>
          inorder T' = lefts k @ x # rights k \<and> frame (insert x (insert (rbt_self w) (set (inorder T)))) w w2)"
          using T' frame_trans [OF fr] by blast
      qed
      then show ?thesis using fl by metis
    next
      case False
      let ?t = "Br Lf x (k \<noteq> []) Lf"
      have "rb_balanced (plug k ?t)"
        using plug_balanced [of k "if k = [] then 1 else 0" ?t] n False by (cases "k = []") auto
      moreover have "at w1 [] (plug k ?t)" using w1(1) at_plug [of w1 k "[]" ?t] by simp
      ultimately have "rb_rep w1 (plug k ?t)" using w1(2) by (simp add: rb_rep_def io)
      then show ?thesis unfolding run if_not_P [OF False] using fl fr io by metis
    qed
  qed
qed

end
