(* ===== verification/Neb_Rb_Remove.thy ===== *)
theory Neb_Rb_Remove
  imports Neb_Rb_Insert Neb_Rbtree
begin

text \<open>Removal from the red-black tree: rebalancing, the three ways to take a node out of the tree, and iteration.\<close>

section \<open>Rebalancing after a removal\<close>

lemma eand_eval: "a w = Inr (x, w) \<Longrightarrow> b w = Inr (y, w) \<Longrightarrow> eand a b w = Inr (x \<and> y, w)"
  by (simp add: evm_simps)

lemma both_black:
  assumes "at w k (Dn d a y c b)"
  shows "eand (ebind (rb_child y False) RB_BLACK_P) (ebind (rb_child y True) RB_BLACK_P) w = Inr (\<not> red a \<and> \<not> red b, w)"
  using at_read(1,2) [OF assms] at_colour [OF at_sub(1) [OF assms]] at_colour [OF at_sub(2) [OF assms]]
  by (cases d) (auto simp: evm_simps)

lemma stage_flip: "stage w T w1 k (Dn d a x c b) \<longleftrightarrow> stage w T w1 k (Dn (\<not> d) b x c a)"
  by (simp add: Dn_flip)

lemma stage_sub:
  assumes "stage w T w1 k (Dn d a x c b)"
  shows "stage w T w1 ((d, x, c, b) # k) a" "stage w T w1 ((\<not> d, x, c, a) # k) b"
  using assms by (auto simp: stage_focus Dn_flip)

lemma removal_finish_ok:
  assumes st: "stage w T w1 k (Dn d t x c (Dn d a y False b))"
    and t: "\<not> red t" "rbi t n" and s: "rbi a n" "rbi b n" "pok k (if c then Suc n else Suc (Suc n))" "c \<longrightarrow> may_red k"
    and r: "c \<or> red a \<or> red b"
  shows "eruns (removal_finish x d y) w1 (\<lambda>_ w2. rebuilt w T w2)"
proof -
  note ax = at_read [OF stage_at [OF st]]
  have sy: "stage w T w1 ((\<not> d, x, c, t) # k) (Dn d a y False b)" by (rule stage_sub(2) [OF st])
  note ay = at_read [OF stage_at [OF sy]]
  have far: "RB_BLACK_P (root b) w1 = Inr (\<not> red b, w1)" using at_colour [OF at_sub(2) [OF stage_at [OF sy]]] by simp
  have cond: "eand (RB_RED_P x) (eand (RB_BLACK_P y)
        (eand (ebind (rb_child y False) RB_BLACK_P) (ebind (rb_child y True) RB_BLACK_P))) w1 = Inr (c \<and> \<not> red a \<and> \<not> red b, w1)"
    using both_black [OF stage_at [OF sy]] ax(5) ay(6) by (simp add: eand_eval)
  have run: "eruns (removal_finish x d y) w1 Q \<longleftrightarrow>
      (if c \<and> \<not> red a \<and> \<not> red b then eruns (RB_MARK_BLACK x) w1 (\<lambda>_ w2. eruns (RB_MARK_RED y) w2 Q)
       else if red b then eruns (RB_MARK_BLACK (root b)) w1 (\<lambda>_ w2. eruns (rb_tree_reparent_nodes x (\<not> d)) w2 Q)
       else eruns (rb_tree_reparent_nodes y d) w1 (\<lambda>_ w2. eruns (rb_child x (\<not> d)) w2 (\<lambda>z w2. eruns (rb_child z (\<not> d)) w2
         (\<lambda>far w2. eruns (RB_MARK_BLACK far) w2 (\<lambda>_ w2. eruns (rb_tree_reparent_nodes x (\<not> d)) w2 Q)))))" for Q
    using cond ay(2) by (simp add: removal_finish_def Let_def eruns_simps eruns_Inr [where m = "RB_BLACK_P (root b)" and w = w1, OF far])
  consider "c \<and> \<not> red a \<and> \<not> red b" | "red b" | "red a" "\<not> red b" using r by blast
  then show ?thesis
  proof cases
    case 1
    have m: "eruns (RB_MARK_RED y) w2 (\<lambda>_ w3. rebuilt w T w3)" if "stage w T w2 k (Dn d t x False (Dn d a y False b))" for w2
      by (rule eruns_mono [OF stage_red [OF stage_sub(2) [OF that]]])
        (erule stage_done [where n = n], use 1 t s in auto)
    show ?thesis unfolding run if_P [OF 1] by (rule eruns_mono [OF stage_black [OF st]]) (rule m)
  next
    case 2
    then have n1: "\<not> (c \<and> \<not> red a \<and> \<not> red b)" by blast
    obtain bl bn br where b: "b = Dn d bl bn True br" using 2 Dn_ex [of b d] by auto
    let ?b = "Dn d bl bn False br"
    have fin: "eruns (rb_tree_reparent_nodes x (\<not> d)) w2 (\<lambda>_ w3. rebuilt w T w3)"
      if "stage w T w2 ((\<not> d, y, False, a) # (\<not> d, x, c, t) # k) ?b" for w2
    proof -
      have "stage w T w2 k (Dn (\<not> d) (Dn (\<not> d) ?b y False a) x c t)" using that by (simp add: stage_focus)
      from stage_rotate [OF this] show ?thesis
        by (rule eruns_mono) (erule stage_done [where n = "if c then Suc n else Suc (Suc n)"], use t s b in auto)
    qed
    have rb: "root b = bn" using b by simp
    show ?thesis unfolding run if_not_P [OF n1] if_P [OF 2] rb
      by (rule eruns_mono [OF stage_black [OF stage_sub(2) [OF sy, unfolded b]]]) (rule fin)
  next
    case 3
    then have n1: "\<not> (c \<and> \<not> red a \<and> \<not> red b)" by blast
    obtain a1 z a2 where a: "a = Dn d a1 z True a2" using 3 Dn_ex [of a d] by auto
    have fin: "eruns (rb_child x (\<not> d)) w2 (\<lambda>z w2. eruns (rb_child z (\<not> d)) w2
         (\<lambda>far w2. eruns (RB_MARK_BLACK far) w2 (\<lambda>_ w2. eruns (rb_tree_reparent_nodes x (\<not> d)) w2 (\<lambda>_ w3. rebuilt w T w3))))"
      if w2: "stage w T w2 ((\<not> d, x, c, t) # k) (Dn d a1 z False (Dn d a2 y True b))" for w2
    proof -
      have sx: "stage w T w2 k (Dn (\<not> d) (Dn d a1 z False (Dn d a2 y True b)) x c t)" using w2 by (simp add: stage_focus)
      have r1: "rb_child x (\<not> d) w2 = Inr (z, w2)" using at_read(1) [OF stage_at [OF sx]] by simp
      have r2: "rb_child z (\<not> d) w2 = Inr (y, w2)" using at_read(2) [OF stage_at [OF w2]] by simp
      have f2: "eruns (rb_tree_reparent_nodes x (\<not> d)) w3 (\<lambda>_ w3. rebuilt w T w3)"
        if "stage w T w3 ((\<not> d, z, False, a1) # (\<not> d, x, c, t) # k) (Dn d a2 y False b)" for w3
      proof -
        have "stage w T w3 k (Dn (\<not> d) (Dn (\<not> d) (Dn d a2 y False b) z False a1) x c t)" using that by (simp add: stage_focus)
        from stage_rotate [OF this] show ?thesis
          by (rule eruns_mono) (erule stage_done [where n = "if c then Suc n else Suc (Suc n)"], use t s a 3 in auto)
      qed
      have "eruns (RB_MARK_BLACK y) w2 (\<lambda>_ w2. eruns (rb_tree_reparent_nodes x (\<not> d)) w2 (\<lambda>_ w3. rebuilt w T w3))"
        by (rule eruns_mono [OF stage_black [OF stage_sub(2) [OF w2]]]) (rule f2)
      then show ?thesis using r1 r2 by (simp add: eruns_Inr)
    qed
    show ?thesis unfolding run if_not_P [OF n1] if_not_P [OF 3(2)]
      by (rule eruns_mono [OF stage_rotate [OF sy [unfolded a]]]) (rule fin)
  qed
qed

lemma removal_loop_ok:
  assumes "stage w T w1 k (Dn d t x c s)" "\<not> red t" "rbi t n" "pok ((d, x, c, s) # k) (Suc n)" "length k < fuel"
  shows "eruns (removal_loop fuel x d) w1 (\<lambda>_ w2. rebuilt w T w2)"
  using assms
proof (induction fuel arbitrary: w1 k d t x c s n)
  case (Suc fuel)
  note st = Suc.prems(1)
  have p: "rbi s (Suc n)" "c \<longrightarrow> \<not> red s \<and> may_red k" "pok k (if c then Suc n else Suc (Suc n))"
    using Suc.prems(4) by auto
  obtain a y cy b where s: "s = Dn d a y cy b" using p(1) Dn_ex [of s d] by auto
  note st1 = st [unfolded s]
  note ax = at_read [OF stage_at [OF st1]]
  have sy: "stage w T w1 ((\<not> d, x, c, t) # k) (Dn d a y cy b)" by (rule stage_sub(2) [OF st1])
  note ay = at_read [OF stage_at [OF sy]]
  have tb: "RB_BLACK_P (root t) w1 = Inr (True, w1)" using at_colour [OF at_sub(1) [OF stage_at [OF st1]]] Suc.prems(2) by simp
  have cond: "eand (RB_BLACK_P x) (eand (ebind (rb_child y False) RB_BLACK_P) (ebind (rb_child y True) RB_BLACK_P)) w1
      = Inr (\<not> c \<and> \<not> red a \<and> \<not> red b, w1)"
    using both_black [OF stage_at [OF sy]] ax(6) by (simp add: eand_eval)
  have run: "eruns (removal_loop (Suc fuel) x d) w1 Q \<longleftrightarrow>
      (if \<not> (\<not> c \<and> \<not> red a \<and> \<not> red b) then eruns (removal_finish x d y) w1 Q
       else if cy then eruns (rb_tree_reparent_nodes x (\<not> d)) w1 (\<lambda>_ w2. eruns (rb_child x (\<not> d)) w2 (\<lambda>z w2. eruns (removal_finish x d z) w2 Q))
       else eruns (RB_MARK_RED y) w1 (\<lambda>_ w2. eruns (RB_ROOT_P x) w2 (\<lambda>root w2. if root then Q () w2
         else eruns (RB_POSITION x) w2 (\<lambda>d w2. eruns (RB_FATHER x) w2 (\<lambda>x w2. eruns (removal_loop fuel x d) w2 Q)))))" for Q
    using cond ax(1,2) ay(5) tb by (simp add: eruns_ebind eruns_eseq eruns_eret eruns_Inr Let_def if_distrib [of "\<lambda>m. eruns m w Q" for w Q] cong: if_cong)
  consider "\<not> (\<not> c \<and> \<not> red a \<and> \<not> red b)" | "\<not> c \<and> \<not> red a \<and> \<not> red b" cy | "\<not> c \<and> \<not> red a \<and> \<not> red b" "\<not> cy" by blast
  then show ?case
  proof cases
    case 1
    have "\<not> cy" using 1 p(1,2) s by (auto split: if_splits)
    then show ?thesis unfolding run if_P [OF 1]
      using removal_finish_ok [of w T w1 k d t x c a y b n] st1 Suc.prems(2,3) p s 1 by auto
  next
    case 2
    have "stage w T w1 k (Dn (\<not> d) (Dn (\<not> d) b y True a) x False t)" using st1 2 by (simp add: Dn_flip)
    note rot = stage_rotate [OF this]
    have fin: "eruns (rb_child x (\<not> d)) w2 (\<lambda>z w2. eruns (removal_finish x d z) w2 (\<lambda>_ w3. rebuilt w T w3))"
      if w2: "stage w T w2 k (Dn (\<not> d) b y False (Dn (\<not> d) a x True t))" for w2
    proof -
      have sx: "stage w T w2 ((d, y, False, b) # k) (Dn d t x True a)" using stage_sub(2) [OF w2] by (simp add: Dn_flip)
      obtain a1 z a2 where a: "a = Dn d a1 z False a2" using 2 p(1) s Dn_ex [of a d] by auto
      have r: "rb_child x (\<not> d) w2 = Inr (z, w2)" using at_read(2) [OF stage_at [OF sx]] a by simp
      have "eruns (removal_finish x d z) w2 (\<lambda>_ w3. rebuilt w T w3)"
        by (rule removal_finish_ok [OF sx [unfolded a], of n]) (use Suc.prems(2,3) p s 2 a in auto)
      then show ?thesis using r by (simp add: eruns_Inr)
    qed
    show ?thesis unfolding run using 2 by simp (rule eruns_mono [OF rot], rule fin)
  next
    case 3
    have bal: "rbi (Dn d t x False (Dn d a y True b)) (Suc n)" using Suc.prems(2,3) p(1) s 3 by auto
    have fin: "eruns (RB_ROOT_P x) w2 (\<lambda>root w2. if root then rebuilt w T w2
         else eruns (RB_POSITION x) w2 (\<lambda>d w2. eruns (RB_FATHER x) w2 (\<lambda>x w2. eruns (removal_loop fuel x d) w2 (\<lambda>_ w3. rebuilt w T w3))))"
      if "stage w T w2 ((\<not> d, x, c, t) # k) (Dn d a y True b)" for w2
    proof -
      have w2: "stage w T w2 k (Dn d t x False (Dn d a y True b))" using that 3 by (simp add: stage_focus Dn_flip)
      note rx = at_read [OF stage_at [OF w2]]
      have "k = [] \<Longrightarrow> rebuilt w T w2" using stage_done [OF w2 _ bal] by simp
      moreover have "eruns (removal_loop fuel (pfather w2 k) (pdir k)) w2 (\<lambda>_ w3. rebuilt w T w3)" if ne: "k \<noteq> []"
      proof -
        obtain d' x' c' s' k' where k: "k = (d', x', c', s') # k'" using ne by (cases k) auto
        have "stage w T w2 k' (Dn d' (Dn d t x False (Dn d a y True b)) x' c' s')" using w2 k by (simp add: stage_focus)
        from Suc.IH [OF this _ bal] show ?thesis using p(3) Suc.prems(5) k 3 by simp
      qed
      ultimately show ?thesis using rx(3,4,8) by (simp add: eruns_Inr)
    qed
    have n1: "\<not> \<not> (\<not> c \<and> \<not> red a \<and> \<not> red b)" using 3(1) by blast
    show ?thesis unfolding run if_not_P [OF n1] if_not_P [OF 3(2)]
      by (rule eruns_mono [OF stage_red [OF sy]]) (rule fin)
  qed
qed simp

section \<open>Iteration\<close>

lemma down_loop_eval:
  assumes "at w k t" "t \<noteq> Lf" "depth t < fuel"
  shows "down_loop rbto fuel (root t) e w = Inr (RB_NODETOITEM rbto (if e then last (inorder t) else hd (inorder t)), w)"
  using assms
proof (induction fuel arbitrary: k t)
  case (Suc fuel)
  obtain a x c b where t: "t = Dn e a x c b" using Suc.prems(2) Dn_ex [of t e] by auto
  note at = Suc.prems(1) [unfolded t]
  show ?case
  proof (cases "a = Lf")
    case True
    then show ?thesis using at_read(1) [OF at] t by (simp add: evm_simps RB_SENTINEL_P_def inorder_Dn)
  next
    case False
    then have "root a \<noteq> 0" "inorder a \<noteq> []" using at_live(6) [OF at, of "root a"] root_in [of a] by auto
    then show ?thesis
      using at_read(1) [OF at] t Suc.IH [OF at_sub(1) [OF at] False] Suc.prems(3)
      by (simp add: evm_simps RB_SENTINEL_P_def inorder_Dn)
  qed
qed simp

definition next_above :: "dir \<Rightarrow> path \<Rightarrow> u64 option" where
  "next_above e k = (if e then (if lefts k = [] then None else Some (last (lefts k))) else (if rights k = [] then None else Some (hd (rights k))))"

lemma up_loop_eval:
  assumes "at w k t" "t \<noteq> Lf" "length k < fuel"
  shows "up_loop rbto fuel (root t) e w = Inr (case next_above e k of None \<Rightarrow> 0 | Some y \<Rightarrow> RB_NODETOITEM rbto y, w)"
  using assms
proof (induction fuel arbitrary: k t)
  case (Suc fuel)
  obtain a x c b where t: "t = Dn e a x c b" using Suc.prems(2) Dn_ex [of t e] by auto
  note rd = at_read [OF Suc.prems(1) [unfolded t]]
  show ?case
  proof (cases k)
    case Nil
    then show ?thesis using rd(8) t by (simp add: evm_simps next_above_def)
  next
    case (Cons fr k')
    obtain d y c' s where fr: "fr = (d, y, c', s)" by (cases fr)
    have "at w k' (Dn d t y c' s)" using Suc.prems(1) Cons fr by (simp add: plug_refocus)
    from Suc.IH [OF this] show ?thesis using rd(3,4,8) t Cons fr Suc.prems(3) by (auto simp: evm_simps next_above_def)
  qed
qed simp

text \<open>The neighbour of an element of a list, to the right or to the left.\<close>

definition neighbour :: "dir \<Rightarrow> 'a \<Rightarrow> 'a list \<Rightarrow> 'a option" where
  "neighbour d n xs = (if d then seq_next n xs else seq_next n (rev xs))"

lemma seq_next_append: "n \<notin> set xs \<Longrightarrow> seq_next n (xs @ n # ys) = (case ys of [] \<Rightarrow> None | y # _ \<Rightarrow> Some y)"
  by (induction xs) auto

lemma neighbour_append: "n \<notin> set xs \<Longrightarrow> n \<notin> set ys \<Longrightarrow> neighbour d n (xs @ n # ys) =
    (if d then (if ys = [] then None else Some (hd ys)) else (if xs = [] then None else Some (last xs)))"
  by (auto simp: neighbour_def seq_next_append hd_rev split: list.splits)

lemma iterate_eval:
  assumes at: "at w k (Br l x c r)" and fuel: "depth (plug k (Br l x c r)) < fuel"
    and o: "object \<noteq> 0" "x = RB_ITEMTONODE rbto object"
  shows "rb_tree_iterate rbto fuel object d w =
    Inr (case neighbour d x (inorder (plug k (Br l x c r))) of None \<Rightarrow> 0 | Some y \<Rightarrow> RB_NODETOITEM rbto y, w)"
proof -
  let ?t = "Br l x c r"
  have dp: "length k + depth ?t < fuel" using fuel depth_plug [of k ?t] by linarith
  have lr: "inorder (plug k ?t) = (lefts k @ inorder l) @ x # (inorder r @ rights k)" by (simp add: inorder_plug)
  have x: "x \<notin> set (lefts k @ inorder l)" "x \<notin> set (inorder r @ rights k)"
    using at by (auto simp: at_def okn_def set_pnodes)
  define s where "s = (if d then r else l)"
  have ch: "rb_child x d w = Inr (root s, w)"
    using at_read(1,2) [OF at [unfolded at_Br]] by (cases d) (auto simp: s_def)
  have ats: "\<exists>k'. at w k' s"
    using at_sub [OF at [unfolded at_Br]] by (cases d) (auto simp: s_def)
  show ?thesis
  proof (cases "s = Lf")
    case True
    have up: "up_loop rbto fuel x (\<not> d) w = Inr (case next_above (\<not> d) k of None \<Rightarrow> 0 | Some y \<Rightarrow> RB_NODETOITEM rbto y, w)"
      using up_loop_eval [OF at, of fuel rbto "\<not> d"] dp by simp
    have "next_above (\<not> d) k = neighbour d x (inorder (plug k ?t))"
      unfolding lr neighbour_append [OF x] using True by (auto simp: next_above_def s_def split: if_splits)
    then show ?thesis using up True ch o by (simp add: rb_tree_iterate_def Let_def evm_simps RB_SENTINEL_P_def)
  next
    case False
    obtain k' where k': "at w k' s" using ats by blast
    have "root s \<noteq> 0" "inorder s \<noteq> []" using at_live(6) [OF k', of "root s"] root_in [OF False] by auto
    moreover have "depth s < fuel" using dp by (auto simp: s_def)
    moreover have "neighbour d x (inorder (plug k ?t)) = Some (if \<not> d then last (inorder s) else hd (inorder s))"
      unfolding lr neighbour_append [OF x] using \<open>inorder s \<noteq> []\<close> by (auto simp: s_def split: if_splits)
    ultimately show ?thesis
      using down_loop_eval [OF k' False, of fuel rbto "\<not> d"] ch o by (simp add: rb_tree_iterate_def Let_def evm_simps RB_SENTINEL_P_def)
  qed
qed

lemma focus_ex: "x \<in> set (inorder t) \<Longrightarrow> \<exists>k l c r. t = plug k (Br l x c r)"
proof (induction t)
  case (Br l y c r)
  consider "x = y" | "x \<in> set (inorder l)" | "x \<in> set (inorder r)" using Br.prems by auto
  then show ?case
  proof cases
    case 1
    then show ?thesis by (metis plug.simps(1))
  next
    case 2
    then obtain k l' c' r' where "l = plug k (Br l' x c' r')" using Br.IH(1) by blast
    then have "Br l y c r = plug (k @ [(False, y, c, r)]) (Br l' x c' r')" by (simp add: plug_append Dn_def)
    then show ?thesis by blast
  next
    case 3
    then obtain k l' c' r' where "r = plug k (Br l' x c' r')" using Br.IH(2) by blast
    then have "Br l y c r = plug (k @ [(True, y, c, l)]) (Br l' x c' r')" by (simp add: plug_append Dn_def)
    then show ?thesis by blast
  qed
qed simp

section \<open>Taking a node out\<close>

lemma info_orphan: "aligned f \<Longrightarrow> mkinfo f d c AND RB_FLAG_MASK = mkinfo 0 d c"
  using info_set(1) [OF _ aligned_0, of f d c] by simp

lemma info_adopt: "f OR mkinfo 0 d c = mkinfo f d c"
  by (simp add: mkinfo_def or.assoc)

text \<open>How the ends change when a node with neighbours only on the side of its father leaves.\<close>

lemma ends_prune:
  assumes en: "ends w (lefts k @ x # rights k)" and dis: "distinct (lefts k @ x # rights k)"
    and m: "rbt_minmax w' = (if rbt_minmax w (pdir k) = x then (rbt_minmax w)(pdir k := pfather w k) else rbt_minmax w)" and "k \<noteq> []"
  shows "ends w' (lefts k @ rights k)"
proof -
  have e: "rbt_minmax w False = hd (lefts k @ x # rights k)" "rbt_minmax w True = last (lefts k @ x # rights k)"
    using en by (simp_all add: ends_def)
  have d: "distinct (lefts k @ rights k)" using dis by simp
  note pe = parent_end [OF d \<open>k \<noteq> []\<close>, of w]
  show ?thesis
  proof (cases "pdir k")
    case True
    then have "lefts k \<noteq> []" "pfather w k = last (lefts k)" "last (x # rights k) = x \<longleftrightarrow> rights k = []"
      using pe(1) dis by (auto simp: last_ConsR)
    then show ?thesis using e m True by (auto simp: ends_def)
  next
    case False
    then have "rights k \<noteq> []" "pfather w k = hd (rights k)" "hd (lefts k @ [x]) = x \<longleftrightarrow> lefts k = []"
      using pe(2) dis by (cases "lefts k"; auto)+
    then show ?thesis using e m False by (cases "lefts k") (auto simp: ends_def)
  qed
qed

lemma upd_inf_chd: "upd_inf p i (upd_chd q d v w) = upd_chd q d v (upd_inf p i w)"
proof -
  have c: "n\<lparr>rb_nodes := a, rb_info := i\<rparr> = n\<lparr>rb_info := i, rb_nodes := a\<rparr>" for n :: rb_node and a by (cases n) simp
  show ?thesis by (cases "p = q") (auto simp: upd_inf_def upd_chd_def fun_upd_twist, simp only: c)
qed

lemma minmax_idem: "rbt_minmax w = m \<Longrightarrow> w\<lparr>rbt_minmax := m\<rparr> = w"
  by auto

lemma at_set_hole:
  assumes "repc w h k" "rep w (pfather w k) (pdir k) t" "okn w (pnodes k @ inorder t)" "p = pfather w k"
  shows "at (upd_chd p (pdir k) (root t) w) k t"
proof -
  have "p \<notin> set (inorder t)" "p \<in> live w"
    using pfather_in [of w k] pfather_live [OF assms(3)] assms(3,4) by (auto simp: okn_def)
  then show ?thesis using repc_set_hole2 [OF assms(1,3,4), of "root t"] assms by (simp add: at_def)
qed

lemma finish_removal:
  assumes at: "at w1 k t" and t: "\<not> red t" "rbi t n" and ends: "ends w1 (inorder (plug k t))"
    and fr: "frame S w w1" "insert (rbt_self w1) (set (inorder (plug k t))) \<subseteq> S"
    and k: "if reb then k \<noteq> [] \<and> pok k (Suc n) \<and> length k \<le> fuel else pok k n"
  shows "eruns (ewhen reb (rb_tree_removal_rebalance fuel (pfather w1 k) (pdir k))) w1
    (\<lambda>_ w'. \<exists>T'. rb_rep w' T' \<and> inorder T' = inorder (plug k t) \<and> frame S w w')"
proof (cases reb)
  case False
  have "rb_balanced (plug k t)" using plug_balanced [of k n t] k t False by simp
  moreover have "at w1 [] (plug k t)" using at at_plug [of w1 k "[]" t] by simp
  ultimately have "rb_rep w1 (plug k t)" using ends by (simp add: rb_rep_def)
  then show ?thesis using False fr by (auto simp: eruns_ewhen)
next
  case True
  obtain d x c s k' where k': "k = (d, x, c, s) # k'" using k True by (cases k) auto
  have "stage w1 (plug k t) w1 k' (Dn d t x c s)" using stage_refl [OF at] k' by (simp add: stage_focus)
  then have "eruns (removal_loop fuel x d) w1 (\<lambda>_ w'. rebuilt w1 (plug k t) w')"
    by (rule removal_loop_ok [OF _ t]) (use k True k' in auto)
  then have "eruns (ewhen reb (rb_tree_removal_rebalance fuel (pfather w1 k) (pdir k))) w1 (\<lambda>_ w'. rebuilt w1 (plug k t) w')"
    using k' True by (simp add: eruns_ewhen rb_tree_removal_rebalance_def)
  then show ?thesis
    by (rule eruns_mono) (metis rebuilt_rep [OF _ ends] fr frame_mono frame_trans)
qed

text \<open>The outcome of a removal.\<close>

definition removed :: "rb_world \<Rightarrow> rtree \<Rightarrow> u64 \<Rightarrow> rb_world \<Rightarrow> bool" where
  "removed w T x w' \<longleftrightarrow> (\<exists>T'. rb_rep w' T' \<and> inorder T' = remove1 x (inorder T) \<and> frame (insert (rbt_self w) (set (inorder T))) w w')"

lemma distinct_plug: "at w k t \<Longrightarrow> distinct (lefts k @ inorder t @ rights k)"
  using at_plug [of w k "[]" t] by (simp add: at_def okn_def inorder_plug)

lemma prune_ok:
  assumes at: "at w k (Br Lf x c Lf)" and en: "ends w (lefts k @ x # rights k)"
    and n: "pok k n" "rbi (Br Lf x c Lf) n" "c \<longrightarrow> may_red k" and fuel: "length k \<le> fuel"
  shows "eruns (rb_tree_prune_node fuel x (\<not> c \<and> k \<noteq> [])) w (\<lambda>_ w'. removed w (plug k (Br Lf x c Lf)) x w')"
proof -
  let ?p = "pfather w k"
  note rd = at_read [OF at [unfolded at_Br]]
  have x: "x \<in> live w" "x \<noteq> rbt_self w" "x \<noteq> ?p" "?p \<noteq> x" "x \<notin> set (pnodes k)" using at_live(6,7) [OF at, of x] by auto
  have p: "?p \<in> live w" "\<not> (?p = rbt_self w \<and> pdir k)" "aligned ?p" using at_live [OF at] by auto
  have i: "inf_of w x = mkinfo ?p (pdir k) c" "chd w x False = 0" "repc w x k" using at by (auto simp: at_def)
  let ?v = "upd_chd ?p (pdir k) 0 w"
  let ?u = "if rbt_minmax w (pdir k) = x then (let m = (rbt_minmax w)(pdir k := ?p) in
      ?v\<lparr>rbt_minmax := if k = [] then m(True := ?p) else m\<rparr>) else ?v"
  let ?y = "upd_inf x (mkinfo 0 (pdir k) c) ?u"
  have run: "eruns (rb_tree_prune_node fuel x reb) w Q = eruns (ewhen reb (rb_tree_removal_rebalance fuel ?p (pdir k))) ?y Q" for Q reb
    using rd(3,4,8) x p i
    by (cases "rbt_minmax w (pdir k) = x"; cases "k = []")
      (simp_all add: rb_tree_prune_node_def evm_simps rb_acc info_get info_orphan eruns_simps Let_def)
  have ok: "okn w (pnodes k @ inorder Lf)" using at by (auto simp: at_def okn_def)
  have "at ?v k Lf" using at_set_hole [OF i(3) _ ok refl] by simp
  then have aty: "at ?y k Lf" using x p by (simp add: at_def Let_def rb_acc)
  have dis: "distinct (lefts k @ x # rights k)" using distinct_plug [OF at] by simp
  have eny: "ends ?y (lefts k @ rights k)"
  proof (cases "k = []")
    case False
    show ?thesis by (rule ends_prune [OF en dis _ False]) (use False in \<open>simp add: rb_acc Let_def\<close>)
  qed (simp add: ends_def)
  have pf: "pfather ?y k = ?p" "rbt_self ?y = rbt_self w" by (simp_all add: Let_def rb_acc)
  have io: "inorder (plug k Lf) = lefts k @ rights k" "inorder (plug k (Br Lf x c Lf)) = lefts k @ x # rights k"
    by (simp_all add: inorder_plug)
  have r1: "remove1 x (lefts k @ x # rights k) = lefts k @ rights k" using dis by (simp add: remove1_append)
  have fr: "frame (insert (rbt_self w) (set (lefts k @ x # rights k))) w ?y"
    using x p pfather_in [of w k] by (auto simp: Let_def rb_acc set_pnodes)
  have "n = (if c then 0 else 1)" using n(2) by (auto split: if_splits)
  then have n0: "if \<not> c \<and> k \<noteq> [] then k \<noteq> [] \<and> pok k (Suc 0) \<and> length k \<le> fuel else pok k 0"
    using n(1) fuel by auto
  have "eruns (rb_tree_prune_node fuel x (\<not> c \<and> k \<noteq> [])) w
      (\<lambda>_ w'. \<exists>T'. rb_rep w' T' \<and> inorder T' = inorder (plug k Lf) \<and> frame (insert (rbt_self w) (set (lefts k @ x # rights k))) w w')"
    unfolding run
    by (rule finish_removal [OF aty _ _ _ fr _ n0, unfolded pf(1)]) (use eny in \<open>auto simp add: io(1) pf(2)\<close>)
  then show ?thesis unfolding removed_def io r1 .
qed

lemma ends_blackred:
  assumes en: "ends w (lefts k @ inorder (Dn e (Br Lf z True Lf) x False Lf) @ rights k)"
    and dis: "distinct (lefts k @ inorder (Dn e (Br Lf z True Lf) x False Lf) @ rights k)"
    and m: "rbt_minmax w' = (if k = [] then (rbt_minmax w)(\<not> e := z)
      else if rbt_minmax w (pdir k) = x then (rbt_minmax w)(pdir k := z) else rbt_minmax w)"
  shows "ends w' (lefts k @ z # rights k)"
proof (cases "k = []")
  case True
  then show ?thesis using en m by (cases e) (auto simp: ends_def Dn_def)
next
  case False
  have d: "distinct (lefts k @ rights k)" using dis by simp
  note pe = parent_end [OF d False, of w]
  show ?thesis
  proof (cases "pdir k")
    case True
    then have "lefts k \<noteq> []" using pe(1) by simp
    then show ?thesis using en dis m False True by (cases e; cases "rights k" rule: rev_cases) (auto simp: ends_def Dn_def)
  next
    case f: False
    then have "rights k \<noteq> []" using pe(2) by simp
    then show ?thesis using en dis m False f by (cases e; cases "lefts k") (auto simp: ends_def Dn_def)
  qed
qed

lemma blackred_ok:
  assumes at: "at w k (Dn e (Br Lf z True Lf) x False Lf)" and en: "ends w (lefts k @ inorder (Dn e (Br Lf z True Lf) x False Lf) @ rights k)"
    and n: "pok k 1"
  shows "eruns (rb_tree_prune_blackred_branch x e) w (\<lambda>_ w'. removed w (plug k (Dn e (Br Lf z True Lf) x False Lf)) x w')"
proof -
  let ?p = "pfather w k"
  let ?t = "Dn e (Br Lf z True Lf) x False Lf"
  note rd = at_read [OF at]
  have x: "x \<in> live w" "x \<noteq> rbt_self w" "x \<noteq> ?p" "?p \<noteq> x" "x \<notin> set (pnodes k)" "aligned x" using at_live(6,7) [OF at, of x] by auto
  have z: "z \<in> live w" "z \<noteq> rbt_self w" "z \<noteq> ?p" "?p \<noteq> z" "z \<notin> set (pnodes k)" "aligned z" using at_live(6,7) [OF at, of z] by auto
  have xz: "x \<noteq> z" "z \<noteq> x" using at by (auto simp: at_def okn_def)
  have p: "?p \<in> live w" "\<not> (?p = rbt_self w \<and> pdir k)" "aligned ?p" using at_live [OF at] by auto
  have i: "inf_of w x = mkinfo ?p (pdir k) False" "inf_of w z = mkinfo x e True" "chd w z False = 0" "chd w z True = 0" "repc w x k"
    using at by (auto simp: at_def)
  let ?v = "upd_inf x (mkinfo 0 (pdir k) False) (upd_inf z (mkinfo ?p (pdir k) False) w)"
  let ?u = "upd_chd ?p (pdir k) z ?v"
  let ?y = "?u\<lparr>rbt_minmax := if k = [] then (rbt_minmax w)(\<not> e := z)
      else if rbt_minmax w (pdir k) = x then (rbt_minmax w)(pdir k := z) else rbt_minmax w\<rparr>"
  have run: "eruns (rb_tree_prune_blackred_branch x e) w Q = Q () ?y" for Q
    using rd(1,3,8) x z xz p i
    by (cases "k = []"; cases "rbt_minmax w (pdir k) = x")
      (simp_all add: rb_tree_prune_blackred_branch_def evm_simps rb_acc info_get info_set info_orphan info_adopt eruns_simps upd_inf_chd minmax_idem)
  have ok: "okn w (pnodes k @ [z])" using at by (auto simp: at_def okn_def)
  have "at ?u k (Br Lf z False Lf)"
    using at_set_hole [of ?v x k "Br Lf z False Lf" ?p] i(3-5) ok x z xz by (simp add: rb_acc)
  then have aty: "at ?y k (Br Lf z False Lf)" by simp
  have dis: "distinct (lefts k @ inorder ?t @ rights k)" using distinct_plug [OF at] .
  have eny: "ends ?y (lefts k @ z # rights k)" by (rule ends_blackred [OF en dis]) simp
  have "rb_balanced (plug k (Br Lf z False Lf))" using plug_balanced [OF n, of "Br Lf z False Lf"] by simp
  moreover have "at ?y [] (plug k (Br Lf z False Lf))" using aty at_plug [of ?y k "[]"] by simp
  ultimately have "rb_rep ?y (plug k (Br Lf z False Lf))" using eny by (simp add: rb_rep_def inorder_plug)
  moreover have "inorder (plug k (Br Lf z False Lf)) = remove1 x (inorder (plug k ?t))"
    using dis xz by (auto simp: inorder_plug inorder_Dn remove1_append)
  moreover have "frame (insert (rbt_self w) (set (inorder (plug k ?t)))) w ?y"
    using x z p pfather_in [of w k] by (auto simp: rb_acc inorder_plug set_pnodes)
  ultimately show ?thesis unfolding run removed_def by metis
qed

end
