(* ===== verification/Neb_Rb_Swap.thy ===== *)
theory Neb_Rb_Swap imports Neb_Rb_Remove begin

text \<open>Removal of a node with two children from the red-black tree: its neighbour takes its place.\<close>

section \<open>The stand-in\<close>

fun blacken :: "rtree \<Rightarrow> rtree" where
  "blacken Lf = Lf"
| "blacken (Br l x c r) = Br l x False r"

lemma blacken_simps [simp]: "root (blacken t) = root t" "inorder (blacken t) = inorder t" "\<not> red (blacken t)"
  by (cases t; simp)+

lemma rep_set_father:
  assumes "rep w f d t" "t \<noteq> Lf" "distinct (inorder t)"
  shows "rep (upd_inf (root t) (mkinfo f' d' (red t)) w) f' d' t"
  using assms by (cases t) (auto simp: rb_acc)

lemma rep_root_info: "rep w f d t \<Longrightarrow> t \<noteq> Lf \<Longrightarrow> inf_of w (root t) = mkinfo f d (red t)"
  by (cases t) auto

text \<open>The stand-in takes the place of a node whose sons it has adopted.\<close>

lemma at_adopt:
  assumes at: "at w k (Dn e A x cx B)" and A: "A \<noteq> Lf" "B \<noteq> Lf"
    and s: "s \<in> live w" "s \<noteq> rbt_self w" "aligned s" "s \<notin> set (pnodes k @ inorder (Dn e A x cx B))"
  shows "at (upd_chd (pfather w k) (pdir k) s (upd_chd s (\<not> e) (root B) (upd_chd s e (root A)
      (upd_inf x i (upd_inf s (mkinfo (pfather w k) (pdir k) cx)
        (upd_inf (root B) (mkinfo s (\<not> e) (red B)) (upd_inf (root A) (mkinfo s e (red A)) w))))))) k (Dn e A s cx B)"
proof -
  let ?v = "upd_chd s (\<not> e) (root B) (upd_chd s e (root A)
      (upd_inf x i (upd_inf s (mkinfo (pfather w k) (pdir k) cx)
        (upd_inf (root B) (mkinfo s (\<not> e) (red B)) (upd_inf (root A) (mkinfo s e (red A)) w)))))"
  have r: "root A \<in> set (inorder A)" "root B \<in> set (inorder B)" using A root_in by blast+
  have rp: "rep w x e A" "rep w x (\<not> e) B" "repc w x k" using at by (auto simp: at_def)
  have ok: "okn w (pnodes k @ inorder (Dn e A x cx B))" using at by (simp add: at_def)
  then have dis: "distinct (inorder A)" "distinct (inorder B)" "set (inorder A) \<inter> set (inorder B) = {}" "x \<notin> set (inorder A)" "x \<notin> set (inorder B)"
    "set (pnodes k) \<inter> (insert x (set (inorder A) \<union> set (inorder B))) = {}"
    by (auto simp: okn_def)
  have nl: "root A \<in> live w" "root B \<in> live w" "x \<in> live w" "root A \<noteq> rbt_self w" "root B \<noteq> rbt_self w" "x \<noteq> rbt_self w" using ok r by (auto simp: okn_def)
  have n: "s \<notin> set (inorder A)" "s \<notin> set (inorder B)" "s \<noteq> x" "s \<notin> set (pnodes k)" "root A \<notin> set (inorder B)" "root B \<notin> set (inorder A)"
    "root A \<noteq> s" "root B \<noteq> s" "root A \<noteq> x" "root B \<noteq> x" "root A \<notin> set (pnodes k)" "root B \<notin> set (pnodes k)" "x \<notin> set (pnodes k)" using s(4) dis r by auto
  have rs: "rep (upd_inf (root A) (mkinfo s e (red A)) w) s e A" "rep (upd_inf (root B) (mkinfo s (\<not> e) (red B)) (upd_inf (root A) (mkinfo s e (red A)) w)) s (\<not> e) B"
    using rep_set_father [OF rp(1) A(1) dis(1)] rep_set_father [of "upd_inf (root A) (mkinfo s e (red A)) w" x "\<not> e" B s "\<not> e"] rp(2) A(2) dis n by auto
  have ok': "okn w (pnodes k @ inorder (Dn e A s cx B))" using ok s n by (auto simp: okn_def)
  have "at (upd_chd (pfather w k) (pdir k) (root (Dn e A s cx B)) ?v) k (Dn e A s cx B)"
    by (rule at_set_hole [where h = x]) (use rs rp(3) ok' n s nl dis in \<open>simp_all add: rb_acc\<close>)
  then show ?thesis by simp
qed

text \<open>The stand-in is a son of the node.\<close>

lemma at_adopt_son:
  assumes at: "at w k (Dn e (Dn e t s cs Lf) x cx B)" and B: "B \<noteq> Lf"
  shows "at (upd_chd (pfather w k) (pdir k) s (upd_chd s (\<not> e) (root B)
      (upd_inf x i (upd_inf s (mkinfo (pfather w k) (pdir k) cx) (upd_inf (root B) (mkinfo s (\<not> e) (red B)) w))))) k (Dn e t s cx B)"
proof -
  let ?v = "upd_chd s (\<not> e) (root B)
      (upd_inf x i (upd_inf s (mkinfo (pfather w k) (pdir k) cx) (upd_inf (root B) (mkinfo s (\<not> e) (red B)) w)))"
  have r: "root B \<in> set (inorder B)" using B root_in by blast
  have rp: "rep w s e t" "rep w x (\<not> e) B" "repc w x k" "chd w s e = root t" using at by (auto simp: at_def)
  have ok: "okn w (pnodes k @ inorder (Dn e (Dn e t s cs Lf) x cx B))" using at by (simp add: at_def)
  then have dis: "distinct (inorder B)" "set (inorder t) \<inter> set (inorder B) = {}" "x \<notin> set (inorder t)" "x \<notin> set (inorder B)" "s \<notin> set (inorder t)" "s \<notin> set (inorder B)" "s \<noteq> x" "x \<noteq> s"
    "set (pnodes k) \<inter> (insert s (insert x (set (inorder t) \<union> set (inorder B)))) = {}"
    by (auto simp: okn_def)
  have nl: "s \<in> live w" "root B \<in> live w" "x \<in> live w" "s \<noteq> rbt_self w" "root B \<noteq> rbt_self w" "x \<noteq> rbt_self w" using ok r by (auto simp: okn_def)
  have n: "s \<notin> set (pnodes k)" "root B \<notin> set (inorder t)" "root B \<noteq> s" "root B \<noteq> x" "root B \<notin> set (pnodes k)" "x \<notin> set (pnodes k)" using dis r by auto
  have rs: "rep (upd_inf (root B) (mkinfo s (\<not> e) (red B)) w) s (\<not> e) B"
    using rep_set_father [OF rp(2) B dis(1)] .
  have ok': "okn w (pnodes k @ inorder (Dn e t s cx B))" using ok by (auto simp: okn_def)
  have "at (upd_chd (pfather w k) (pdir k) (root (Dn e t s cx B)) ?v) k (Dn e t s cx B)"
    by (rule at_set_hole [where h = x]) (use rs rp ok' n nl dis in \<open>simp_all add: rb_acc\<close>)
  then show ?thesis by simp
qed

lemma red_root_in: "red t \<Longrightarrow> root t \<in> set (inorder t)"
  by (cases t) auto

lemma at_blacken:
  assumes "at w k t" "t \<noteq> Lf"
  shows "at (upd_inf (root t) (mkinfo (pfather w k) (pdir k) False) w) k (blacken t)"
proof -
  obtain a x c b where t: "t = Dn False a x c b" using assms(2) Dn_ex [of t False] by auto
  have "blacken t = Dn False a x False b" using t by (simp add: Dn_def)
  then show ?thesis
    using at_mark(2) [OF assms(1) [unfolded t]] at_live(6) [OF assms(1), of x] assms(1) t at_live(5) [OF assms(1)]
    by (auto simp: eruns_def rb_acc at_def info_set)
qed

lemma swap_son_run:
  assumes at: "at w k (Dn e (Dn e t s cs Lf) x cx B)" and B: "B \<noteq> Lf" and t: "t = Lf \<or> red t" and m: "rbt_minmax w (pdir k) \<noteq> x"
  shows "\<exists>w1. at w1 ((e, s, cx, B) # k) (blacken t) \<and> rbt_minmax w1 = rbt_minmax w \<and>
    frame (all_nodes w k (Dn e (Dn e t s cs Lf) x cx B)) w w1 \<and>
    (\<forall>Q. eruns (rb_tree_swap_prune_and_rebalance fuel x s) w Q = eruns (ewhen (\<not> cs \<and> \<not> red t) (rb_tree_removal_rebalance fuel s e)) w1 Q)"
proof -
  let ?p = "pfather w k"
  have ats: "at w ((e, x, cx, B) # k) (Dn e t s cs Lf)" by (rule at_sub(1) [OF at])
  have att: "at w ((e, s, cs, Lf) # (e, x, cx, B) # k) t" by (rule at_sub(1) [OF ats])
  let ?w = "if red t then upd_inf (root t) (mkinfo s e False) w else w"
  have ww: "at ?w k (Dn e (Dn e (blacken t) s cs Lf) x cx B)"
    using at_blacken [OF att] att t by (cases t) (auto simp: plug_refocus)
  note rx = at_read [OF at] and rs = at_read [OF ats]
  have x: "x \<in> live w" "x \<noteq> rbt_self w" "x \<noteq> ?p" "?p \<noteq> x" "aligned x" using at_live(6,7) [OF at, of x] by auto
  have s: "s \<in> live w" "s \<noteq> rbt_self w" "s \<noteq> ?p" "?p \<noteq> s" "aligned s" using at_live(6,7) [OF at, of s] by auto
  have b: "root B \<in> live w" "root B \<noteq> rbt_self w" "root B \<noteq> ?p" "?p \<noteq> root B" "aligned (root B)"
    using at_live(6,7) [OF at, of "root B"] root_in [OF B] by auto
  have tr: "red t \<Longrightarrow> root t \<in> live w \<and> root t \<noteq> rbt_self w \<and> root t \<noteq> ?p \<and> ?p \<noteq> root t \<and> aligned (root t) \<and> root t \<noteq> s \<and> root t \<noteq> x \<and> root t \<noteq> root B"
    using at_live(6,7) [OF at, of "root t"] root_in [of t] root_in [OF B] at by (cases t) (auto simp: at_def okn_def)
  have ne: "s \<noteq> x" "x \<noteq> s" "root B \<noteq> s" "root B \<noteq> x" "s \<noteq> root B" "x \<noteq> root B" using at root_in [OF B] by (auto simp: at_def okn_def)
  have p: "?p \<in> live w" "\<not> (?p = rbt_self w \<and> pdir k)" "aligned ?p" using at_live [OF at] by auto
  have i: "inf_of w x = mkinfo ?p (pdir k) cx" "inf_of w s = mkinfo x e cs" "inf_of w (root B) = mkinfo x (\<not> e) (red B)" "red t \<Longrightarrow> inf_of w (root t) = mkinfo s e True"
    "chd w x (\<not> e) = root B" "chd w s e = root t" "chd w x e = s"
    using at rep_root_info [of w x "\<not> e" B] B rep_root_info [of w s e t] by (auto simp: at_def) (cases t; auto)
  let ?y = "upd_chd ?p (pdir k) s (upd_chd s (\<not> e) (root B)
      (upd_inf x (mkinfo 0 (pdir k) cx) (upd_inf s (mkinfo ?p (pdir k) cx) (upd_inf (root B) (mkinfo s (\<not> e) (red B)) ?w))))"
  have "at ?y k (Dn e (blacken t) s cx B)"
    using at_adopt_son [OF ww B, of "mkinfo 0 (pdir k) cx"] by (cases "red t") simp_all
  then have "at ?y ((e, s, cx, B) # k) (blacken t)" by (simp add: plug_refocus)
  moreover have "rbt_minmax ?y = rbt_minmax w" by (simp add: rb_acc)
  moreover have "frame (all_nodes w k (Dn e (Dn e t s cs Lf) x cx B)) w ?y"
  proof -
    let ?S = "all_nodes w k (Dn e (Dn e t s cs Lf) x cx B)"
    have "x \<in> ?S" "s \<in> ?S" "root B \<in> ?S" "?p \<in> ?S" "red t \<Longrightarrow> root t \<in> ?S"
      using pfather_in [of w k] root_in [OF B] red_root_in [of t] by auto
    then show ?thesis using x(1) s(1) b(1) p(1) tr by (simp add: rb_acc del: set_Dn insert_iff Un_iff)
  qed
  moreover have "rb_tree_swap_prune_and_rebalance fuel x s w =
      ewhen (\<not> cs \<and> \<not> red t) (rb_tree_removal_rebalance fuel s e) ?y"
  proof (cases "red t")
    case True
    note r = tr [OF True] and it = i(4) [OF True]
    have "s \<noteq> root t" "x \<noteq> root t" "root B \<noteq> root t" using r by auto
    then show ?thesis using x s b ne p i(1-3,5-7) m r it True
      by (simp add: rb_tree_swap_prune_and_rebalance_def evm_simps rb_acc info_get info_set info_orphan info_adopt upd_inf_chd Let_def)
  next
    case False
    then have "t = Lf" using t by blast
    then show ?thesis using x s b ne p i(1-3,5-7) m
      by (simp add: rb_tree_swap_prune_and_rebalance_def evm_simps rb_acc info_get info_set info_orphan info_adopt upd_inf_chd Let_def)
  qed
  ultimately show ?thesis unfolding eruns_def by metis
qed

lemma info_pos: "aligned f \<Longrightarrow> (if d then mkinfo f d' c OR RB_FLAG_POSITION else mkinfo f d' c AND NOT RB_FLAG_POSITION) = mkinfo f d c"
  by (simp add: info_set)

lemma plug_top: "j \<noteq> [] \<Longrightarrow> root (plug j t) = root (plug j t') \<and> red (plug j t) = red (plug j t') \<and> root (plug j t) \<in> set (pnodes j)"
proof (induction j arbitrary: t t')
  case (Cons f j)
  obtain d x c s where f: "f = (d, x, c, s)" by (cases f)
  then show ?case using Cons.IH [of "Dn d t x c s" "Dn d t' x c s"] by (cases "j = []") auto
qed simp

lemma pnodes_append: "pnodes (j @ k) = pnodes j @ pnodes k"
  by (induction j rule: pnodes.induct) auto

lemma at_sever:
  assumes at: "at w ((d, f, c, b) # k) (Dn e t s cs Lf)" and t: "t = Lf \<or> red t"
  shows "at (upd_chd f d (root t) (if red t then upd_inf (root t) (mkinfo f d False) w else w)) ((d, f, c, b) # k) (blacken t)"
proof -
  let ?k = "(d, f, c, b) # k"
  let ?w = "if red t then upd_inf (root t) (mkinfo f d False) w else w"
  have ok: "okn w (pnodes ?k @ inorder (Dn e t s cs Lf))" and rp: "rep w s e t" "repc w s ?k" using at by (auto simp: at_def)
  have n: "red t \<Longrightarrow> root t \<in> live w \<and> root t \<notin> set (pnodes ?k) \<and> root t \<noteq> rbt_self w" using ok red_root_in [of t] by (auto simp: okn_def)
  have "rep ?w f d (blacken t)" using rp(1) t ok by (cases t) (auto simp: rb_acc okn_def)
  moreover have "okn ?w (pnodes ?k @ inorder (blacken t))" using ok n by (auto simp: okn_def rb_acc)
  moreover have "repc ?w s ?k" using rp(2) n by (auto simp: rb_acc)
  ultimately show ?thesis using at_set_hole [of ?w s ?k "blacken t" f] by simp
qed

lemma swap_far_run:
  assumes at: "at w (j @ (e, x, cx, B) # k) (Dn e t s cs Lf)" and j: "j = (\<not> e, f, cf, bf) # j'" and B: "B \<noteq> Lf" and t: "t = Lf \<or> red t"
    and m: "rbt_minmax w (pdir k) \<noteq> x"
  shows "\<exists>w1. at w1 (j @ (e, s, cx, B) # k) (blacken t) \<and> rbt_minmax w1 = rbt_minmax w \<and>
    frame (all_nodes w (j @ (e, x, cx, B) # k) (Dn e t s cs Lf)) w w1 \<and>
    (\<forall>Q. eruns (rb_tree_swap_prune_and_rebalance fuel x s) w Q = eruns (ewhen (\<not> cs \<and> \<not> red t) (rb_tree_removal_rebalance fuel f (\<not> e))) w1 Q)"
proof -
  let ?p = "pfather w k"
  let ?A = "plug j (Dn e t s cs Lf)" and ?A' = "plug j (blacken t)"
  have jn: "j \<noteq> []" using j by simp
  note top = plug_top [OF jn, of "blacken t" "Dn e t s cs Lf"]
  define ra where "ra = root ?A"
  define ca where "ca = red ?A"
  have top': "root ?A' = ra" "red ?A' = ca" "ra \<in> set (pnodes j)" "?A \<noteq> Lf" "?A' \<noteq> Lf" using top ra_def ca_def plug_top [OF jn, of "Dn e t s cs Lf" Lf] 
    by (auto, (metis inorder.simps(1) inorder_plug append_is_Nil_conv inorder_Dn list.distinct(1)), (metis inorder.simps(1) inorder_plug append_is_Nil_conv j lefts.simps(2) list.distinct(1) rights.simps(2)))
  have atx: "at w k (Dn e ?A x cx B)" using at by (simp add: at_plug plug_refocus)
  have ok: "okn w (pnodes (j @ (e, x, cx, B) # k) @ inorder (Dn e t s cs Lf))" using at by (simp add: at_def)
  let ?w = "if red t then upd_inf (root t) (mkinfo f (\<not> e) False) w else w"
  let ?v = "upd_chd f (\<not> e) (root t) ?w"
  have "at ?v (j @ (e, x, cx, B) # k) (blacken t)" using at_sever [of w "\<not> e" f cf bf "j' @ (e, x, cx, B) # k" e t s cs] at t j by simp
  then have atv: "at ?v k (Dn e ?A' x cx B)" by (simp add: at_plug plug_refocus)
  have x: "x \<in> live w" "x \<noteq> rbt_self w" "x \<noteq> ?p" "?p \<noteq> x" "aligned x" using at_live(6,7) [OF atx, of x] by auto
  have inA: "s \<in> set (inorder ?A)" "f \<in> set (inorder ?A)" "ra \<in> set (inorder ?A)" "red t \<Longrightarrow> root t \<in> set (inorder ?A)"
    using j top'(3) red_root_in [of t] by (auto simp: inorder_plug set_pnodes split: if_splits)
  have s: "s \<in> live w" "s \<noteq> rbt_self w" "s \<noteq> ?p" "?p \<noteq> s" "aligned s" using at_live(6,7) [OF atx, of s] inA by auto
  have f: "f \<in> live w" "f \<noteq> rbt_self w" "f \<noteq> ?p" "?p \<noteq> f" "aligned f" using at_live(6,7) [OF atx, of f] inA by auto
  have ra: "ra \<in> live w" "ra \<noteq> rbt_self w" "ra \<noteq> ?p" "?p \<noteq> ra" "aligned ra" using at_live(6,7) [OF atx, of ra] inA by auto
  have b: "root B \<in> live w" "root B \<noteq> rbt_self w" "root B \<noteq> ?p" "?p \<noteq> root B" "aligned (root B)"
    using at_live(6,7) [OF atx, of "root B"] root_in [OF B] by auto
  have tr: "red t \<Longrightarrow> root t \<in> live w \<and> root t \<noteq> rbt_self w \<and> root t \<noteq> ?p \<and> ?p \<noteq> root t \<and> aligned (root t) \<and> root t \<noteq> s \<and> root t \<noteq> x \<and> root t \<noteq> root B \<and> root t \<noteq> f \<and> root t \<noteq> ra"
    using at_live(6,7) [OF atx, of "root t"] inA red_root_in [of t] root_in [OF B] ok top'(3) j by (auto simp: okn_def pnodes_append)
  have ne: "s \<noteq> x" "x \<noteq> s" "root B \<noteq> s" "root B \<noteq> x" "s \<noteq> root B" "x \<noteq> root B" "f \<noteq> x" "x \<noteq> f" "f \<noteq> s" "s \<noteq> f" "f \<noteq> root B" "root B \<noteq> f"
    "ra \<noteq> x" "x \<noteq> ra" "ra \<noteq> s" "s \<noteq> ra" "ra \<noteq> root B" "root B \<noteq> ra"
    using ok root_in [OF B] j top'(3) by (auto simp: okn_def pnodes_append)
  have p: "?p \<in> live w" "\<not> (?p = rbt_self w \<and> pdir k)" "aligned ?p" using at_live [OF atx] by auto
  have i1: "inf_of w x = mkinfo ?p (pdir k) cx" "inf_of w (root B) = mkinfo x (\<not> e) (red B)" "inf_of w ra = mkinfo x e ca"
    "chd w x (\<not> e) = root B" "chd w x e = ra"
    using atx rep_root_info [of w x "\<not> e" B] B rep_root_info [of w x e ?A] top'(4) by (auto simp: at_def ra_def ca_def)
  have i2: "inf_of w s = mkinfo f (\<not> e) cs" "chd w s e = root t" "red t \<Longrightarrow> inf_of w (root t) = mkinfo s e True"
    using at j rep_root_info [of w s e t] by (auto simp: at_def) (cases t; auto)
  let ?y = "upd_chd ?p (pdir k) s (upd_chd s (\<not> e) (root B) (upd_chd s e ra
      (upd_inf x (mkinfo 0 (pdir k) cx) (upd_inf s (mkinfo ?p (pdir k) cx)
        (upd_inf (root B) (mkinfo s (\<not> e) (red B)) (upd_inf ra (mkinfo s e ca) ?v))))))"
  have pv: "pfather ?v k = ?p" "live ?v = live w" "rbt_self ?v = rbt_self w" "rbt_minmax ?v = rbt_minmax w" using f tr by (auto simp: rb_acc)
  have sn: "s \<notin> set (pnodes k @ inorder (Dn e ?A' x cx B))" using ok by (auto simp: okn_def pnodes_append inorder_plug set_pnodes)
  have "at ?y k (Dn e ?A' s cx B)"
    using at_adopt [OF atv top'(5) B, of s "mkinfo 0 (pdir k) cx"] s sn unfolding pv top' by simp
  then have "at ?y (j @ (e, s, cx, B) # k) (blacken t)" by (simp add: at_plug plug_refocus)
  moreover have "rbt_minmax ?y = rbt_minmax w" by (simp add: rb_acc)
  moreover have "frame (all_nodes w (j @ (e, x, cx, B) # k) (Dn e t s cs Lf)) w ?y"
  proof -
    let ?S = "all_nodes w (j @ (e, x, cx, B) # k) (Dn e t s cs Lf)"
    have "x \<in> ?S" "s \<in> ?S" "root B \<in> ?S" "?p \<in> ?S" "f \<in> ?S" "ra \<in> ?S" "red t \<Longrightarrow> root t \<in> ?S"
      using pfather_in [of w k] root_in [OF B] red_root_in [of t] top'(3) j by (auto simp: pnodes_append)
    then show ?thesis using x(1) s(1) b(1) p(1) f(1) ra(1) tr by (simp add: rb_acc del: set_Dn insert_iff Un_iff)
  qed
  moreover have "rb_tree_swap_prune_and_rebalance fuel x s w =
      ewhen (\<not> cs \<and> \<not> red t) (rb_tree_removal_rebalance fuel f (\<not> e)) ?y"
  proof (cases "red t")
    case True
    note r = tr [OF True] and it = i2(3) [OF True]
    have "s \<noteq> root t" "x \<noteq> root t" "root B \<noteq> root t" "f \<noteq> root t" "ra \<noteq> root t" using r by auto
    then show ?thesis using x s b f ra ne p i1 i2(1,2) m r it True
      by (simp add: rb_tree_swap_prune_and_rebalance_def evm_simps rb_acc info_get info_set info_pos info_orphan info_adopt upd_inf_chd Let_def)
  next
    case False
    then have "t = Lf" using t by blast
    then show ?thesis using x s b f ra ne p i1 i2(1,2) m
      by (simp add: rb_tree_swap_prune_and_rebalance_def evm_simps rb_acc info_get info_set info_pos info_orphan info_adopt upd_inf_chd Let_def)
  qed
  ultimately show ?thesis unfolding eruns_def by metis
qed

section \<open>Removal\<close>

lemma pok_rename: "pok (j @ (d, x, c, b) # k) n = pok (j @ (d, y, c, b) # k) n" "may_red (j @ (d, x, c, b) # k) = may_red (j @ (d, y, c, b) # k)"
proof -
  show "may_red (j @ (d, x, c, b) # k) = may_red (j @ (d, y, c, b) # k)" for j
    by (cases j) (auto elim: may_red.elims)
  then show "pok (j @ (d, x, c, b) # k) n = pok (j @ (d, y, c, b) # k) n"
  proof (induction j arbitrary: n)
    case (Cons f j)
    obtain d' x' c' s' where "f = (d', x', c', s')" by (cases f)
    then show ?case using Cons by auto
  qed simp
qed

text \<open>The nearest node below in a direction, and the way to it.\<close>

lemma standin_ex: "A \<noteq> Lf \<Longrightarrow> \<exists>j t s c. A = plug j (Dn e t s c Lf) \<and> (\<forall>f \<in> set j. fst f = (\<not> e))"
proof (induction A)
  case (Br l x c r)
  define near where "near = (if e then l else r)"
  define far where "far = (if e then r else l)"
  have A: "Br l x c r = Dn e far x c near" by (simp add: near_def far_def Dn_def)
  show ?case
  proof (cases "near = Lf")
    case True
    then have "Br l x c r = plug [] (Dn e far x c Lf)" using A by simp
    then show ?thesis by fastforce
  next
    case False
    then obtain j t s c' where j: "near = plug j (Dn e t s c' Lf)" "\<forall>f \<in> set j. fst f = (\<not> e)"
      using Br.IH by (auto simp: near_def split: if_splits)
    have "Br l x c r = plug (j @ [(\<not> e, x, c, far)]) (Dn e t s c' Lf)" using A j by (simp add: plug_append Dn_flip)
    moreover have "\<forall>f \<in> set (j @ [(\<not> e, x, c, far)]). fst f = (\<not> e)" using j(2) by auto
    ultimately show ?thesis by blast
  qed
qed simp

lemma sided: "\<forall>f \<in> set j. fst f = d \<Longrightarrow> (if d then rights j = [] else lefts j = [])"
  by (induction j rule: lefts.induct) auto

lemma standin_inorder:
  assumes "\<forall>f \<in> set j. fst f = (\<not> e)"
  shows "inorder (plug j (Dn e t s c Lf)) = (if e then s # inorder (plug j t) else inorder (plug j t) @ [s])"
  using sided [OF assms] by (auto simp: inorder_plug inorder_Dn)

lemma swap_ok:
  assumes at: "at w (j @ (e, x, cx, B) # k) (Dn e t s cs Lf)" and j: "\<forall>f \<in> set j. fst f = (\<not> e)" and B: "B \<noteq> Lf"
    and bal: "rb_balanced (plug (j @ (e, x, cx, B) # k) (Dn e t s cs Lf))"
    and en: "ends w (inorder (plug (j @ (e, x, cx, B) # k) (Dn e t s cs Lf)))"
    and fuel: "depth (plug (j @ (e, x, cx, B) # k) (Dn e t s cs Lf)) < fuel"
  shows "eruns (rb_tree_swap_prune_and_rebalance fuel x s) w (\<lambda>_ w'. removed w (plug (j @ (e, x, cx, B) # k) (Dn e t s cs Lf)) x w')"
proof -
  let ?K = "j @ (e, x, cx, B) # k" and ?K' = "j @ (e, s, cx, B) # k"
  let ?T = "plug ?K (Dn e t s cs Lf)"
  obtain n where n: "pok ?K n" "rbi (Dn e t s cs Lf) n" using balanced_plug [OF bal] by auto
  have pk: "pok ?K' n" using n(1) pok_rename(1) by blast
  have t: "t = Lf \<or> red t" using n(2) by (cases t) (auto split: if_splits)
  have n': "n = (if cs then 0 else 1)" "rbi t 0" "cs \<longrightarrow> t = Lf" using n(2) t by (auto split: if_splits)
  have io: "inorder ?T = lefts k @ (if e then inorder B @ x # s # inorder (plug j t) else (inorder (plug j t) @ [s]) @ x # inorder B) @ rights k"
    by (simp add: plug_append inorder_plug inorder_Dn standin_inorder [OF j, unfolded inorder_plug inorder_Dn] sided [OF j])
  have io': "inorder (plug ?K' (blacken t)) = lefts k @ (if e then inorder B @ s # inorder (plug j t) else (inorder (plug j t) @ [s]) @ inorder B) @ rights k"
    by (simp add: plug_append inorder_plug inorder_Dn)
  have dis: "distinct (inorder ?T)" using distinct_plug [OF at] by (simp add: inorder_plug)
  have rm: "remove1 x (inorder ?T) = inorder (plug ?K' (blacken t))"
    unfolding io io' using dis [unfolded io] by (auto simp: remove1_append split: if_splits)
  have m: "rbt_minmax w d \<noteq> x" for d
  proof -
    obtain as bs where ab: "inorder ?T = as @ x # bs" "as \<noteq> []" "bs \<noteq> []"
    proof (cases e)
      case True
      show thesis by (rule that [of "lefts k @ inorder B" "s # inorder (plug j t) @ rights k"]) (use True io B in \<open>auto dest: root_in\<close>)
    next
      case False
      show thesis by (rule that [of "lefts k @ inorder (plug j t) @ [s]" "inorder B @ rights k"]) (use False io B in \<open>auto dest: root_in\<close>)
    qed
    then have "hd (inorder ?T) \<noteq> x" "last (inorder ?T) \<noteq> x"
      using dis by (auto simp: neq_Nil_conv) (metis last_in_set last.simps list.set_intros(2))
    then show ?thesis using en ab by (cases d) (auto simp: ends_def)
  qed
  have "\<exists>w1. at w1 ?K' (blacken t) \<and> rbt_minmax w1 = rbt_minmax w \<and> frame (all_nodes w ?K (Dn e t s cs Lf)) w w1 \<and>
      (\<forall>Q. eruns (rb_tree_swap_prune_and_rebalance fuel x s) w Q = eruns (ewhen (\<not> cs \<and> \<not> red t) (rb_tree_removal_rebalance fuel (pfather w1 ?K') (pdir ?K'))) w1 Q)"
  proof (cases j)
    case Nil
    have "at w k (Dn e (Dn e t s cs Lf) x cx B)" using at Nil by (simp add: plug_refocus)
    from swap_son_run [OF this B t m] show ?thesis using Nil by (simp add: Un_commute insert_commute Un_left_commute)
  next
    case (Cons f j')
    then obtain f' cf bf where f: "j = (\<not> e, f', cf, bf) # j'" using j by (cases f) auto
    show ?thesis using swap_far_run [OF at f B t m, of fuel] f by simp
  qed
  then obtain w1 where w1: "at w1 ?K' (blacken t)" "rbt_minmax w1 = rbt_minmax w" "frame (insert (rbt_self w) (set (inorder ?T))) w w1"
    and run: "\<And>Q. eruns (rb_tree_swap_prune_and_rebalance fuel x s) w Q =
      eruns (ewhen (\<not> cs \<and> \<not> red t) (rb_tree_removal_rebalance fuel (pfather w1 ?K') (pdir ?K'))) w1 Q"
    unfolding all_nodes_plug by blast
  have en1: "ends w1 (inorder (plug ?K' (blacken t)))"
    using en w1(2) io io' B dis by (cases e) (auto simp: ends_def hd_append dest: root_in)
  have bl: "rbi (blacken t) (if red t then 1 else 0)" using n'(2) t by (cases t) auto
  have len: "length ?K' \<le> fuel" using fuel depth_plug [of ?K "Dn e t s cs Lf"] by simp
  have "eruns (rb_tree_swap_prune_and_rebalance fuel x s) w
      (\<lambda>_ w'. \<exists>T'. rb_rep w' T' \<and> inorder T' = inorder (plug ?K' (blacken t)) \<and> frame (insert (rbt_self w) (set (inorder ?T))) w w')"
    unfolding run
    by (rule finish_removal [OF w1(1) _ bl en1 w1(3)])
      (use n' t pk len w1(3) in \<open>auto simp: io io' frame_def\<close>)
  then show ?thesis unfolding removed_def rm .
qed

lemma rbi_black_0: "rbi t 0 \<Longrightarrow> \<not> red t \<Longrightarrow> t = Lf"
  by (cases t) auto

text \<open>Every node of the tree can be removed.\<close>

lemma remove_node_ok:
  assumes rep: "rb_rep w T" and x: "x \<in> set (inorder T)" "object \<noteq> 0" "x = RB_ITEMTONODE rbto object" and fuel: "depth T < fuel"
  shows "eruns (rb_tree_remove_node rbto fuel object) w (\<lambda>_ w'. removed w T x w')"
proof -
  obtain k l c r where T: "T = plug k (Br l x c r)" using focus_ex [OF x(1)] by blast
  have at: "at w k (Br l x c r)" and bal: "rb_balanced (plug k (Br l x c r))" and en: "ends w (inorder (plug k (Br l x c r)))"
    using rep T at_plug [of w k "[]" "Br l x c r"] by (auto simp: rb_rep_def)
  obtain n where n: "pok k n" "rbi (Br l x c r) n" "c \<longrightarrow> may_red k" using balanced_plug [OF bal] by auto
  note rd = at_read [OF at [unfolded at_Br]]
  have x0: "x \<noteq> 0" "x \<in> live w" "x \<noteq> rbt_self w" using at_live(6) [OF at, of x] by auto
  have nz: "root l = 0 \<longleftrightarrow> l = Lf" "root r = 0 \<longleftrightarrow> r = Lf"
    using at_live(6) [OF at, of "root l"] at_live(6) [OF at, of "root r"] root_in [of l] root_in [of r] by auto
  have sent: "RB_LEFT_SENTINEL_P x w = Inr (l = Lf, w)" "RB_RIGHT_SENTINEL_P x w = Inr (r = Lf, w)"
    using rd(1,2) nz by (simp_all add: RB_LEFT_SENTINEL_P_def RB_RIGHT_SENTINEL_P_def RB_SENTINEL_P_def evm_simps)
  have cl: "RB_CHILDLESS_P x w = Inr (l = Lf \<and> r = Lf, w)" "RB_TWOCHILDREN_P x w = Inr (l \<noteq> Lf \<and> r \<noteq> Lf, w)"
    using sent x0 by (simp_all add: RB_CHILDLESS_P_def RB_TWOCHILDREN_P_def RB_SENTINEL_P_def evm_simps)
  consider "l = Lf" "r = Lf" | "l = Lf" "r \<noteq> Lf" | "l \<noteq> Lf" "r = Lf" | "l \<noteq> Lf" "r \<noteq> Lf" by blast
  then show ?thesis
  proof cases
    case 1
    have "length k \<le> fuel" using fuel T depth_plug [of k "Br l x c r"] by simp
    moreover have "eand (RB_BLACK_P x) (ebind (RB_ROOT_P x) (\<lambda>root. eret (\<not> root))) w = Inr (\<not> c \<and> k \<noteq> [], w)"
      using rd(6,8) by (auto simp: evm_simps)
    moreover have "ends w (lefts k @ x # rights k)" using en 1 by (simp add: inorder_plug)
    ultimately show ?thesis
      using prune_ok [OF at [unfolded 1] _ n(1) n(2) [unfolded 1] n(3)] cl 1 x(3) T
      by (simp add: rb_tree_remove_node_def Let_def eruns_simps)
  next
    case 2
    obtain z where z: "r = Br Lf z True Lf" "\<not> c" "n = 1" using n(2) 2 by (cases r; cases "n") (auto split: if_splits dest: rbi_black_0)
    have "at w k (Dn True (Br Lf z True Lf) x False Lf)" "ends w (lefts k @ inorder (Dn True (Br Lf z True Lf) x False Lf) @ rights k)"
      using at en z 2 by (simp_all add: Dn_def inorder_plug)
    from blackred_ok [OF this] n(1) z have "eruns (rb_tree_prune_blackred_branch x True) w (\<lambda>_ w'. removed w T x w')"
      using T 2 by (simp add: Dn_def)
    then show ?thesis using cl 2 x(3) sent by (simp add: rb_tree_remove_node_def Let_def eruns_simps)
  next
    case 3
    obtain z where z: "l = Br Lf z True Lf" "\<not> c" "n = 1" using n(2) 3 by (cases l; cases "n") (auto split: if_splits dest: rbi_black_0)
    have "at w k (Dn False (Br Lf z True Lf) x False Lf)" "ends w (lefts k @ inorder (Dn False (Br Lf z True Lf) x False Lf) @ rights k)"
      using at en z 3 by (simp_all add: Dn_def inorder_plug)
    from blackred_ok [OF this] n(1) z have "eruns (rb_tree_prune_blackred_branch x False) w (\<lambda>_ w'. removed w T x w')"
      using T 3 by (simp add: Dn_def)
    then show ?thesis using cl 3 x(3) sent by (simp add: rb_tree_remove_node_def Let_def eruns_simps)
  next
    case 4
    let ?e = "\<not> pdir k"
    define A where "A = (if ?e then r else l)"
    define B where "B = (if ?e then l else r)"
    have AB: "Br l x c r = Dn ?e A x c B" "A \<noteq> Lf" "B \<noteq> Lf" using 4 by (auto simp: A_def B_def Dn_def)
    obtain j t s cs where j: "A = plug j (Dn ?e t s cs Lf)" "\<forall>f \<in> set j. fst f = (\<not> ?e)" using standin_ex [OF AB(2), of ?e] by blast
    have Tj: "T = plug (j @ (?e, x, c, B) # k) (Dn ?e t s cs Lf)" using T AB(1) j(1) by (simp add: plug_append)
    have atj: "at w (j @ (?e, x, c, B) # k) (Dn ?e t s cs Lf)" using at AB(1) j(1) by (simp add: at_plug plug_refocus)
    have nb: "neighbour ?e x (inorder T) = Some s"
    proof -
      have "distinct (inorder T)" using distinct_plug [OF at] T by (simp add: inorder_plug)
      moreover have "inorder T = (lefts k @ inorder l) @ x # (inorder r @ rights k)" using T by (simp add: inorder_plug)
      moreover have "inorder A = (if ?e then s # inorder (plug j t) else inorder (plug j t) @ [s])"
        using standin_inorder [OF j(2), of t s cs] j(1) by simp
      ultimately show ?thesis
        using neighbour_append [of x "lefts k @ inorder l" "inorder r @ rights k" ?e] by (cases "pdir k") (auto simp: A_def)
    qed
    have it: "rb_tree_iterate rbto fuel object ?e w = Inr (RB_NODETOITEM rbto s, w)"
      using iterate_eval [OF at _ x(2,3), of fuel ?e] fuel T nb by simp
    have "eruns (rb_tree_swap_prune_and_rebalance fuel x s) w (\<lambda>_ w'. removed w T x w')"
      using swap_ok [OF atj j(2) AB(3)] rep fuel Tj by (simp add: rb_rep_def)
    then show ?thesis
      using cl 4 x(3) rd(4) it by (simp add: rb_tree_remove_node_def Let_def eruns_simps RB_ITEMTONODE_def RB_NODETOITEM_def)
  qed
qed

end
