(* ===== verification/Neb_Rb_Api.thy ===== *)
theory Neb_Rb_Api
  imports Neb_Rb_Swap
begin

text \<open>Search in the red-black tree, the bound on its depth, and the operations as an implementation of the ordered sequence of
  \<open>Neb_Rbtree\<close>.\<close>

section \<open>Search\<close>

lemma along_split:
  assumes "along g (xs @ x # ys)"
  shows "g x \<le> 0 \<Longrightarrow> \<forall>a \<in> set xs. g a < 0" "0 \<le> g x \<Longrightarrow> \<forall>a \<in> set ys. 0 < g a" "along g xs" "along g ys"
  using assms by (auto simp: along_def sorted_wrt_append)

definition item_or_null :: "'k rb_tree_ops \<Rightarrow> u64 option \<Rightarrow> u64" where
  "item_or_null rbto r = (case r of None \<Rightarrow> 0 | Some x \<Rightarrow> RB_NODETOITEM rbto x)"

lemma find_none: "\<forall>a \<in> set xs. \<not> P a \<Longrightarrow> find P (xs @ ys) = find P ys"
  by (induction xs) auto

lemma find_append: "find P (xs @ ys) = (case find P xs of None \<Rightarrow> find P ys | Some x \<Rightarrow> Some x)"
  by (induction xs) auto

lemma find_Some_in: "find P xs = Some x \<Longrightarrow> x \<in> set xs \<and> P x"
  by (auto simp: find_Some_iff)

lemma find_loop_eval:
  assumes "at w k t" "depth t < fuel" "along g (inorder t)" and g: "g = (\<lambda>x. rbto_compare_key rbto (RB_NODETOITEM rbto x) key)"
  shows "find_loop rbto key fuel (root t) w = Inr (item_or_null rbto (find (\<lambda>x. g x = 0) (inorder t)), w)"
  using assms(1-3)
proof (induction t arbitrary: k fuel)
  case Lf
  then show ?case by (cases fuel) (auto simp: RB_SENTINEL_P_def evm_simps item_or_null_def)
next
  case (Br l x c r)
  obtain m where m: "fuel = Suc m" using Br.prems(2) by (cases fuel) auto
  note at = Br.prems(1) [unfolded at_Br] and al = along_split [OF Br.prems(3) [simplified]]
  have x: "x \<noteq> 0" using at_live(6) [OF at, of x] by simp
  note sub = at_sub [OF at]
  have l: "g x \<le> 0 \<Longrightarrow> find (\<lambda>x. g x = 0) (inorder l @ x # inorder r) = find (\<lambda>x. g x = 0) (x # inorder r)" 
    by (rule find_none) (use al(1) in fastforce)
  have r: "0 < g x \<Longrightarrow> find (\<lambda>x. g x = 0) (x # inorder r) = None" using al(2) by (fastforce simp: find_None_iff)
  show ?case
    using Br.IH(1) [OF sub(1) _ al(3), of m] Br.IH(2) [OF sub(2) _ al(4), of m] Br.prems(2) x at_read(1,2) [OF at] m l r
    by (cases "g x" "0::int" rule: linorder_cases)
      (simp_all add: RB_SENTINEL_P_def evm_simps Let_def item_or_null_def g [symmetric] fun_cong [OF g, symmetric] find_append split: option.split)
qed

lemma geq_loop_eval:
  assumes "at w k t" "depth t < fuel" "along g (inorder t)" and g: "g = (\<lambda>x. rbto_compare_key rbto (RB_NODETOITEM rbto x) key)"
  shows "geq_loop rbto key fuel lastp (root t) w =
    Inr (item_or_null rbto (case find (\<lambda>x. 0 \<le> g x) (inorder t) of None \<Rightarrow> if lastp = 0 then None else Some lastp | Some x \<Rightarrow> Some x), w)"
  using assms(1-3)
proof (induction t arbitrary: k fuel lastp)
  case Lf
  then show ?case by (cases fuel) (auto simp: RB_SENTINEL_P_def evm_simps item_or_null_def)
next
  case (Br l x c r)
  obtain m where m: "fuel = Suc m" using Br.prems(2) by (cases fuel) auto
  note at = Br.prems(1) [unfolded at_Br] and al = along_split [OF Br.prems(3) [simplified]]
  have x: "x \<noteq> 0" using at_live(6) [OF at, of x] by simp
  note sub = at_sub [OF at]
  have l: "g x \<le> 0 \<Longrightarrow> find (\<lambda>x. 0 \<le> g x) (inorder l @ x # inorder r) = find (\<lambda>x. 0 \<le> g x) (x # inorder r)"
    by (rule find_none) (use al(1) in fastforce)
  show ?case
    using Br.IH(1) [OF sub(1) _ al(3), of m] Br.IH(2) [OF sub(2) _ al(4), of m] Br.prems(2) x at_read(1,2) [OF at] m l
    by (cases "g x" "0::int" rule: linorder_cases)
      (simp_all add: RB_SENTINEL_P_def evm_simps Let_def item_or_null_def g [symmetric] fun_cong [OF g, symmetric] find_append split: option.split)
qed

lemma leq_loop_eval:
  assumes "at w k t" "depth t < fuel" "along g (inorder t)" and g: "g = (\<lambda>x. rbto_compare_key rbto (RB_NODETOITEM rbto x) key)"
  shows "leq_loop rbto key fuel lastp (root t) w =
    Inr (item_or_null rbto (case find (\<lambda>x. g x \<le> 0) (rev (inorder t)) of None \<Rightarrow> if lastp = 0 then None else Some lastp | Some x \<Rightarrow> Some x), w)"
  using assms(1-3)
proof (induction t arbitrary: k fuel lastp)
  case Lf
  then show ?case by (cases fuel) (auto simp: RB_SENTINEL_P_def evm_simps item_or_null_def)
next
  case (Br l x c r)
  obtain m where m: "fuel = Suc m" using Br.prems(2) by (cases fuel) auto
  note at = Br.prems(1) [unfolded at_Br] and al = along_split [OF Br.prems(3) [simplified]]
  have x: "x \<noteq> 0" using at_live(6) [OF at, of x] by simp
  note sub = at_sub [OF at]
  have r: "0 \<le> g x \<Longrightarrow> find (\<lambda>x. g x \<le> 0) (rev (inorder r) @ x # rev (inorder l)) = find (\<lambda>x. g x \<le> 0) (x # rev (inorder l))"
    by (rule find_none) (use al(2) in fastforce)
  show ?case
    using Br.IH(1) [OF sub(1) _ al(3), of m] Br.IH(2) [OF sub(2) _ al(4), of m] Br.prems(2) x at_read(1,2) [OF at] m r
    by (cases "g x" "0::int" rule: linorder_cases)
      (simp_all add: RB_SENTINEL_P_def evm_simps Let_def item_or_null_def g [symmetric] fun_cong [OF g, symmetric] find_append split: option.split)
qed

section \<open>How deep a tree can be\<close>

lemma rbi_depth: "rbi t n \<Longrightarrow> depth t \<le> 2 * n + (if red t then 1 else 0)"
proof (induction t arbitrary: n)
  case (Br l x c r)
  show ?case
  proof (cases c)
    case True
    then show ?thesis using Br.IH(1) [of n] Br.IH(2) [of n] Br.prems by auto
  next
    case False
    then show ?thesis using Br.IH(1) [of "n - 1"] Br.IH(2) [of "n - 1"] Br.prems by (cases n) (auto split: if_splits)
  qed
qed simp

lemma rbi_size: "rbi t n \<Longrightarrow> 2 ^ n \<le> length (inorder t) + 1"
proof (induction t arbitrary: n)
  case (Br l x c r)
  show ?case
  proof (cases c)
    case True
    then show ?thesis using Br.IH(1) [of n] Br.prems by auto
  next
    case False
    then show ?thesis using Br.IH(1) [of "n - 1"] Br.IH(2) [of "n - 1"] Br.prems by (cases n) auto
  qed
qed simp

lemma balanced_depth: "rb_balanced T \<Longrightarrow> 2 ^ (depth T div 2) \<le> length (inorder T) + 1"
proof -
  assume "rb_balanced T"
  then obtain n where n: "rbi T n" "\<not> red T" by (auto simp: rb_balanced_def)
  have "depth T div 2 \<le> n" using rbi_depth [OF n(1)] n(2) by simp
  then have "(2::nat) ^ (depth T div 2) \<le> 2 ^ n" by (rule power_increasing) simp
  then show ?thesis using rbi_size [OF n(1)] by linarith
qed

text \<open>No tree has more nodes than there are addresses, so the loops of the source run at most 129 times.\<close>

lemma rep_length: "rb_rep w T \<Longrightarrow> length (inorder T) < 2 ^ 64"
proof -
  assume "rb_rep w T"
  then have "distinct (inorder T)" "0 \<notin> set (inorder T)" by (auto simp: rb_rep_def at_def okn_def live_def)
  then have "length (inorder T) = card (set (inorder T))" "set (inorder T) \<subseteq> UNIV - {0}" by (auto simp: distinct_card)
  then have "length (inorder T) \<le> card (UNIV - {0 :: u64})" using card_mono [of "UNIV - {0 :: u64}" "set (inorder T)"] by simp
  also have "\<dots> < card (UNIV :: u64 set)" by (rule psubset_card_mono) auto
  also have "\<dots> = 2 ^ LENGTH(64)" by (rule card_word)
  also have "LENGTH(64) = 64" by simp
  finally show ?thesis .
qed

definition rb_fuel :: nat where "rb_fuel = 130"

lemma exp_le_length: "(2::nat) ^ a \<le> l + 1 \<Longrightarrow> l < 2 ^ b \<Longrightarrow> a \<le> b"
  by (rule power_le_imp_le_exp [of "2::nat"]) (simp_all add: Suc_le_eq [symmetric] order_trans)

lemma rep_depth: "rb_rep w T \<Longrightarrow> depth T < rb_fuel"
proof -
  assume a: "rb_rep w T"
  then have "rb_balanced T" by (simp add: rb_rep_def)
  from exp_le_length [OF balanced_depth [OF this] rep_length [OF a]] have "depth T div 2 \<le> 64" .
  then show ?thesis by (simp add: rb_fuel_def)
qed

section \<open>The operations as calls\<close>

datatype 'k rb_call = CallInsert u64 | CallRemove u64 | CallFind 'k | CallGeq 'k | CallLeq 'k | CallIterate u64 dir

fun rb_run :: "'k rb_tree_ops \<Rightarrow> 'k rb_call \<Rightarrow> u64 rbc" where
  "rb_run rbto (CallInsert object) = rb_tree_insert_node rbto rb_fuel object"
| "rb_run rbto (CallRemove object) = eseq (rb_tree_remove_node rbto rb_fuel object) (eret 0)"
| "rb_run rbto (CallFind key) = rb_tree_find_node rbto rb_fuel key"
| "rb_run rbto (CallGeq key) = rb_tree_find_node_geq rbto rb_fuel key"
| "rb_run rbto (CallLeq key) = rb_tree_find_node_leq rbto rb_fuel key"
| "rb_run rbto (CallIterate object d) = rb_tree_iterate rbto rb_fuel object d"

text \<open>The nodes of the tree in order.\<close>

fun seq_of :: "nat \<Rightarrow> rb_world \<Rightarrow> u64 \<Rightarrow> u64 list" where
  "seq_of 0 w p = []"
| "seq_of (Suc n) w p = (if p = 0 then [] else seq_of n w (chd w p False) @ p # seq_of n w (chd w p True))"

definition rb_seq :: "rb_world \<Rightarrow> u64 list" where "rb_seq w = seq_of rb_fuel w (chd w (rbt_self w) False)"

definition is_live :: "rb_world \<Rightarrow> u64 \<Rightarrow> bool" where
  "is_live w p \<longleftrightarrow> p \<noteq> 0 \<and> (case rb_mem w p of None \<Rightarrow> False | Some n \<Rightarrow> True)"

lemma is_live_iff: "is_live w p \<longleftrightarrow> p \<in> live w"
  by (auto simp: is_live_def live_def split: option.splits)

text \<open>How the operations may be called: an object that is inserted is not null and its node is memory outside the tree, suitably aligned;
  an object that is removed or asked for its neighbour is in the tree.\<close>

fun rb_legal :: "'k rb_tree_ops \<Rightarrow> rb_world \<Rightarrow> 'k rb_call \<Rightarrow> bool" where
  "rb_legal rbto w (CallInsert object) \<longleftrightarrow> object \<noteq> 0 \<and> is_live w (RB_ITEMTONODE rbto object) \<and> RB_ITEMTONODE rbto object \<noteq> rbt_self w \<and>
     aligned (RB_ITEMTONODE rbto object) \<and> RB_ITEMTONODE rbto object \<notin> set (rb_seq w)"
| "rb_legal rbto w (CallRemove object) \<longleftrightarrow> RB_ITEMTONODE rbto object \<in> set (rb_seq w)"
| "rb_legal rbto w (CallIterate object d) \<longleftrightarrow> object = 0 \<or> RB_ITEMTONODE rbto object \<in> set (rb_seq w)"
| "rb_legal rbto w c \<longleftrightarrow> True"

text \<open>What they do to the sequence.\<close>

fun rb_spec :: "'k rb_tree_ops \<Rightarrow> 'k rb_call \<Rightarrow> u64 list \<Rightarrow> u64 \<Rightarrow> u64 list \<Rightarrow> bool" where
  "rb_spec rbto (CallInsert object) xs r ys \<longleftrightarrow>
     (\<exists>n. seq_insert (rbto_compare_nodes rbto) (RB_NODETOITEM rbto) (RB_ITEMTONODE rbto object) xs = (n, ys) \<and> r = RB_NODETOITEM rbto n)"
| "rb_spec rbto (CallRemove object) xs r ys \<longleftrightarrow> ys = remove1 (RB_ITEMTONODE rbto object) xs \<and> r = 0"
| "rb_spec rbto (CallFind key) xs r ys \<longleftrightarrow> r = item_or_null rbto (seq_find (rbto_compare_key rbto) (RB_NODETOITEM rbto) key xs) \<and> ys = xs"
| "rb_spec rbto (CallGeq key) xs r ys \<longleftrightarrow> r = item_or_null rbto (find (\<lambda>x. 0 \<le> rbto_compare_key rbto (RB_NODETOITEM rbto x) key) xs) \<and> ys = xs"
| "rb_spec rbto (CallLeq key) xs r ys \<longleftrightarrow> r = item_or_null rbto (find (\<lambda>x. rbto_compare_key rbto (RB_NODETOITEM rbto x) key \<le> 0) (rev xs)) \<and> ys = xs"
| "rb_spec rbto (CallIterate object d) xs r ys \<longleftrightarrow> ys = xs \<and> r = item_or_null rbto
     (if object = 0 then (if xs = [] then None else Some (if d then last xs else hd xs)) else neighbour d (RB_ITEMTONODE rbto object) xs)"

definition rb_sorted :: "'k rb_tree_ops \<Rightarrow> u64 list \<Rightarrow> bool" where
  "rb_sorted rbto xs \<longleftrightarrow> sorted_wrt (\<lambda>a b. rbto_compare_nodes rbto (RB_NODETOITEM rbto a) (RB_NODETOITEM rbto b) < 0) xs \<and>
     (\<forall>x \<in> set xs. RB_NODETOITEM rbto x \<noteq> 0)"

definition rb_inv :: "'k rb_tree_ops \<Rightarrow> rb_world \<Rightarrow> bool" where
  "rb_inv rbto w \<longleftrightarrow> (\<exists>T. rb_rep w T \<and> rb_sorted rbto (inorder T))"

text \<open>The comparison functions a client may give to the tree.\<close>

locale rb_client = rb_total_order "rbto_compare_nodes rbto" for rbto :: "'k rb_tree_ops" +
  assumes key_along: "rbto_compare_nodes rbto a b < 0 \<Longrightarrow>
    (rbto_compare_key rbto b key \<le> 0 \<longrightarrow> rbto_compare_key rbto a key < 0) \<and> (0 \<le> rbto_compare_key rbto a key \<longrightarrow> 0 < rbto_compare_key rbto b key)"

section \<open>Refinement\<close>

lemma item_node [simp]: "RB_NODETOITEM rbto (RB_ITEMTONODE rbto p) = p" "RB_ITEMTONODE rbto (RB_NODETOITEM rbto p) = p"
  by (simp_all add: RB_NODETOITEM_def RB_ITEMTONODE_def)

lemma seq_of_rep: "rep w f d t \<Longrightarrow> 0 \<notin> set (inorder t) \<Longrightarrow> depth t \<le> n \<Longrightarrow> seq_of n w (root t) = inorder t"
proof (induction t arbitrary: n f d)
  case Lf
  then show ?case by (cases n) auto
next
  case (Br l x c r)
  then show ?case by (cases n) auto
qed

lemma rb_seq_rep: "rb_rep w T \<Longrightarrow> rb_seq w = inorder T"
proof -
  assume a: "rb_rep w T"
  then have "rep w (rbt_self w) False T" "chd w (rbt_self w) False = root T" "0 \<notin> set (inorder T)"
    by (auto simp: rb_rep_def at_def okn_def live_def)
  then show ?thesis using seq_of_rep rep_depth [OF a] by (simp add: rb_seq_def)
qed

lemma seq_insert_along:
  assumes "along g xs" "g = (\<lambda>y. cmp (key y) (key n))"
  shows "if \<exists>y \<in> set xs. g y = 0 then \<forall>y \<in> set xs. g y = 0 \<longrightarrow> seq_insert cmp key n xs = (y, xs)
    else seq_insert cmp key n xs = (n, filter (\<lambda>a. g a < 0) xs @ n # filter (\<lambda>a. 0 < g a) xs)"
  using assms(1)
proof (induction xs)
  case (Cons x xs)
  have x: "along g xs" "0 \<le> g x \<Longrightarrow> \<forall>a \<in> set xs. 0 < g a" using Cons.prems by (auto simp: along_def)
  consider "g x = 0" | "g x < 0" | "0 < g x" by linarith
  then show ?case
  proof cases
    case 1
    then show ?thesis using x(2) assms(2) by fastforce
  next
    case 2
    then show ?thesis using Cons.IH [OF x(1)] assms(2) by (auto split: if_splits prod.splits)
  next
    case 3
    then have "filter (\<lambda>a. g a < 0) xs = []" "filter (\<lambda>a. 0 < g a) xs = xs" "\<forall>y \<in> set xs. g y \<noteq> 0"
      using x(2) by (auto simp: filter_empty_conv filter_id_conv)
    then show ?thesis using 3 assms(2) by auto
  qed
qed simp

context rb_client
begin

lemma sorted_along: "rb_sorted rbto xs \<Longrightarrow> along (\<lambda>x. rbto_compare_nodes rbto (RB_NODETOITEM rbto x) object) xs"
  unfolding along_def rb_sorted_def by (elim conjE, erule sorted_wrt_mono_rel [rotated], rule cmp_along)

lemma sorted_along_key: "rb_sorted rbto xs \<Longrightarrow> along (\<lambda>x. rbto_compare_key rbto (RB_NODETOITEM rbto x) key) xs"
  unfolding along_def rb_sorted_def by (elim conjE, erule sorted_wrt_mono_rel [rotated], rule key_along)

lemma sorted_insert:
  assumes "rb_sorted rbto xs" "object \<noteq> 0" "g = (\<lambda>x. rbto_compare_nodes rbto (RB_NODETOITEM rbto x) object)"
  shows "rb_sorted rbto (filter (\<lambda>a. g a < 0) xs @ RB_ITEMTONODE rbto object # filter (\<lambda>a. 0 < g a) xs)"
  using assms cmp_swap cmp_trans by (auto simp: rb_sorted_def sorted_wrt_append sorted_wrt_filter)

lemma insert_refines:
  assumes "rb_rep w T" "rb_sorted rbto (inorder T)" "rb_legal rbto w (CallInsert object)"
  shows "\<exists>r w'. rb_tree_insert_node rbto rb_fuel object w = Inr (r, w') \<and> rb_inv rbto w' \<and> rb_spec rbto (CallInsert object) (rb_seq w) r (rb_seq w')"
proof -
  let ?x = "RB_ITEMTONODE rbto object"
  define g where "g = (\<lambda>x. rbto_compare_nodes rbto (RB_NODETOITEM rbto x) object)"
  have al: "along g (inorder T)" unfolding g_def by (rule sorted_along [OF assms(2)])
  note sq = rb_seq_rep [OF assms(1)]
  note si = seq_insert_along [OF al, of "rbto_compare_nodes rbto" "RB_NODETOITEM rbto" ?x, unfolded item_node, OF g_def]
  have "(\<exists>y \<in> set (inorder T). g y = 0 \<and> rb_tree_insert_node rbto rb_fuel object w = Inr (RB_NODETOITEM rbto y, w)) \<or>
    (\<forall>y \<in> set (inorder T). g y \<noteq> 0) \<and> eruns (rb_tree_insert_node rbto rb_fuel object) w (\<lambda>r w'. r = object \<and> (\<exists>T'. rb_rep w' T' \<and>
      inorder T' = filter (\<lambda>a. g a < 0) (inorder T) @ ?x # filter (\<lambda>a. 0 < g a) (inorder T) \<and>
      frame (insert ?x (insert (rbt_self w) (set (inorder T)))) w w'))"
    by (rule insert_node_ok [OF assms(1) al g_def refl]) (use assms(3) sq rep_depth [OF assms(1)] in \<open>auto simp: is_live_iff\<close>)
  then show ?thesis
  proof
    assume "\<exists>y \<in> set (inorder T). g y = 0 \<and> rb_tree_insert_node rbto rb_fuel object w = Inr (RB_NODETOITEM rbto y, w)"
    then obtain y where y: "y \<in> set (inorder T)" "g y = 0" "rb_tree_insert_node rbto rb_fuel object w = Inr (RB_NODETOITEM rbto y, w)" by blast
    have "\<exists>y \<in> set (inorder T). g y = 0" using y by blast
    from si [unfolded if_P [OF this]] have "seq_insert (rbto_compare_nodes rbto) (RB_NODETOITEM rbto) ?x (inorder T) = (y, inorder T)" using y by blast
    then show ?thesis using y assms(1,2) sq by (auto simp: rb_inv_def)
  next
    assume "(\<forall>y \<in> set (inorder T). g y \<noteq> 0) \<and> eruns (rb_tree_insert_node rbto rb_fuel object) w (\<lambda>r w'. r = object \<and> (\<exists>T'. rb_rep w' T' \<and>
      inorder T' = filter (\<lambda>a. g a < 0) (inorder T) @ ?x # filter (\<lambda>a. 0 < g a) (inorder T) \<and>
      frame (insert ?x (insert (rbt_self w) (set (inorder T)))) w w'))"
    then obtain w' T' where w': "\<forall>y \<in> set (inorder T). g y \<noteq> 0" "rb_tree_insert_node rbto rb_fuel object w = Inr (object, w')" "rb_rep w' T'"
      "inorder T' = filter (\<lambda>a. g a < 0) (inorder T) @ ?x # filter (\<lambda>a. 0 < g a) (inorder T)" by (auto simp: eruns_def)
    then have "seq_insert (rbto_compare_nodes rbto) (RB_NODETOITEM rbto) ?x (inorder T) = (?x, inorder T')" using si by auto
    moreover have "rb_sorted rbto (inorder T')" unfolding w'(4) by (rule sorted_insert [OF assms(2) _ g_def]) (use assms(3) in simp)
    ultimately show ?thesis using w' sq rb_seq_rep [OF w'(3)] by (auto simp: rb_inv_def)
  qed
qed

lemma remove_refines:
  assumes "rb_rep w T" "rb_sorted rbto (inorder T)" "rb_legal rbto w (CallRemove object)"
  shows "\<exists>w'. rb_tree_remove_node rbto rb_fuel object w = Inr ((), w') \<and> rb_inv rbto w' \<and> rb_seq w' = remove1 (RB_ITEMTONODE rbto object) (rb_seq w)"
proof -
  let ?x = "RB_ITEMTONODE rbto object"
  note sq = rb_seq_rep [OF assms(1)]
  have x: "?x \<in> set (inorder T)" using assms(3) sq by simp
  then have "object \<noteq> 0" using assms(2) by (auto simp: rb_sorted_def)
  from remove_node_ok [OF assms(1) x this refl rep_depth [OF assms(1)]]
  obtain w' T' where w': "rb_tree_remove_node rbto rb_fuel object w = Inr ((), w')" "rb_rep w' T'" "inorder T' = remove1 ?x (inorder T)"
    by (auto simp: eruns_def removed_def)
  have "rb_sorted rbto (inorder T')"
    using assms(2) ordered_by_remove1 [of "RB_NODETOITEM rbto" "inorder T" ?x] unfolding w'(3) rb_sorted_def ordered_by_def
    by (auto dest: notin_set_remove1)
  then show ?thesis using w' sq rb_seq_rep [OF w'(2)] by (auto simp: rb_inv_def)
qed

lemma iterate_refines:
  assumes "rb_rep w T" "rb_sorted rbto (inorder T)" "rb_legal rbto w (CallIterate object d)"
  shows "\<exists>r. rb_tree_iterate rbto rb_fuel object d w = Inr (r, w) \<and> rb_spec rbto (CallIterate object d) (rb_seq w) r (rb_seq w)"
proof (cases "object = 0")
  case True
  have at: "at w [] T" and en: "ends w (inorder T)" using assms(1) by (auto simp: rb_rep_def)
  have rt: "rbt_root w = Inr (root T, w)" using at by (simp add: at_def okn_def rb_acc)
  have "root T = 0 \<longleftrightarrow> inorder T = []" using at_live(6) [OF at, of "root T"] root_in [of T] by (cases T) auto
  then show ?thesis
    using True rt en rb_seq_rep [OF assms(1)] by (cases d) (auto simp: rb_tree_iterate_def evm_simps RB_SENTINEL_P_def rb_acc item_or_null_def ends_def)
next
  case False
  note sq = rb_seq_rep [OF assms(1)]
  have "RB_ITEMTONODE rbto object \<in> set (inorder T)" using assms(3) sq False by simp
  then obtain k l c r where T: "T = plug k (Br l (RB_ITEMTONODE rbto object) c r)" using focus_ex by blast
  have at: "at w k (Br l (RB_ITEMTONODE rbto object) c r)" using assms(1) T at_plug [of w k "[]"] by (simp add: rb_rep_def)
  show ?thesis
    using iterate_eval [OF at _ False refl, of rb_fuel d] rep_depth [OF assms(1)] T sq False by (simp add: item_or_null_def)
qed

lemma find_refines:
  assumes "rb_rep w T" "rb_sorted rbto (inorder T)"
  shows "\<exists>r. rb_tree_find_node rbto rb_fuel key w = Inr (r, w) \<and> rb_spec rbto (CallFind key) (rb_seq w) r (rb_seq w)"
    "\<exists>r. rb_tree_find_node_geq rbto rb_fuel key w = Inr (r, w) \<and> rb_spec rbto (CallGeq key) (rb_seq w) r (rb_seq w)"
    "\<exists>r. rb_tree_find_node_leq rbto rb_fuel key w = Inr (r, w) \<and> rb_spec rbto (CallLeq key) (rb_seq w) r (rb_seq w)"
proof -
  have at: "at w [] T" using assms(1) by (simp add: rb_rep_def)
  have rt: "rbt_root w = Inr (root T, w)" using at by (simp add: at_def okn_def rb_acc)
  note al = sorted_along_key [OF assms(2), of key] and sq = rb_seq_rep [OF assms(1)] and dp = rep_depth [OF assms(1)]
  show "\<exists>r. rb_tree_find_node rbto rb_fuel key w = Inr (r, w) \<and> rb_spec rbto (CallFind key) (rb_seq w) r (rb_seq w)"
    using find_loop_eval [OF at dp al refl] rt sq by (simp add: rb_tree_find_node_def evm_simps seq_find_def)
  show "\<exists>r. rb_tree_find_node_geq rbto rb_fuel key w = Inr (r, w) \<and> rb_spec rbto (CallGeq key) (rb_seq w) r (rb_seq w)"
    using geq_loop_eval [OF at dp al refl, of 0] rt sq by (simp add: rb_tree_find_node_geq_def evm_simps split: option.split)
  show "\<exists>r. rb_tree_find_node_leq rbto rb_fuel key w = Inr (r, w) \<and> rb_spec rbto (CallLeq key) (rb_seq w) r (rb_seq w)"
    using leq_loop_eval [OF at dp al refl, of 0] rt sq by (simp add: rb_tree_find_node_leq_def evm_simps split: option.split)
qed

lemma call_refines_rb:
  assumes "rb_inv rbto w" "rb_legal rbto w c"
  shows "\<exists>r w'. rb_run rbto c w = Inr (r, w') \<and> rb_inv rbto w' \<and> rb_spec rbto c (rb_seq w) r (rb_seq w')"
proof -
  obtain T where T: "rb_rep w T" "rb_sorted rbto (inorder T)" using assms(1) by (auto simp: rb_inv_def)
  show ?thesis
  proof (cases c)
    case (CallInsert object)
    then show ?thesis using insert_refines [OF T, of object] assms(2) by simp
  next
    case (CallRemove object)
    then show ?thesis using remove_refines [OF T, of object] assms(2) by (auto simp: evm_simps)
  next
    case (CallIterate object d)
    then show ?thesis using iterate_refines [OF T, of object d] assms by auto
  qed (use find_refines [OF T] assms in auto)
qed

end

sublocale rb_client \<subseteq> rb_api: api_refinement "rb_run rbto" "rb_legal rbto" "rb_inv rbto" rb_seq "rb_spec rbto"
  by unfold_locales (rule call_refines_rb)

context rb_client
begin

lemma rb_calls_refine:
  "rb_inv rbto w \<Longrightarrow> legal_calls (rb_run rbto) (rb_legal rbto) cs w \<Longrightarrow>
   \<exists>rs w'. run_calls (rb_run rbto) cs w = Inr (rs, w') \<and> rb_inv rbto w' \<and> spec_calls (rb_spec rbto) cs (rb_seq w) rs (rb_seq w')"
  by (rule rb_api.calls_refine)

end

lemma rb_init_ok:
  assumes "is_live w (rbt_self w)" "aligned (rbt_self w)"
  shows "\<exists>w0. rb_tree_init w = Inr ((), w0) \<and> rb_inv rbto w0 \<and> rb_seq w0 = [] \<and> frame {rbt_self w} w w0"
proof -
  let ?w = "(upd_chd (rbt_self w) False 0 w)\<lparr>rbt_minmax := (rbt_minmax w)(False := 0, True := 0)\<rparr>"
  have l: "rbt_self w \<in> live w" using assms(1) by (simp add: is_live_iff)
  have "rb_tree_init w = Inr ((), ?w)" using l by (simp add: rb_tree_init_def evm_simps rb_acc)
  moreover have r: "rb_rep ?w Lf" using l assms(2) by (simp add: rb_rep_def at_def okn_def rb_acc rb_balanced_def ends_def)
  then have "rb_inv rbto ?w" "rb_seq ?w = []" using rb_seq_rep [OF r] by (auto simp: rb_inv_def rb_sorted_def intro!: exI [of _ Lf])
  moreover have "frame {rbt_self w} w ?w" using l by simp
  ultimately show ?thesis by blast
qed

lemma inv_depth: "rb_inv rbto w \<Longrightarrow> length (rb_seq w) + 1 < 2 ^ n \<Longrightarrow>
    \<exists>T. rb_rep w T \<and> rb_sorted rbto (inorder T) \<and> inorder T = rb_seq w \<and> depth T < 2 * n"
proof -
  assume a: "rb_inv rbto w" "length (rb_seq w) + 1 < 2 ^ n"
  then obtain T where T: "rb_rep w T" "rb_sorted rbto (inorder T)" by (auto simp: rb_inv_def)
  have "2 ^ (depth T div 2) \<le> length (rb_seq w) + 1" using balanced_depth [of T] T(1) rb_seq_rep [OF T(1)] by (simp add: rb_rep_def)
  then have "depth T div 2 < n" using power_less_imp_less_exp [of "2::nat", OF _ order.strict_trans1 [OF _ a(2)]] by simp
  then show ?thesis using T rb_seq_rep [OF T(1)] by (intro exI [of _ T]) simp
qed

section \<open>Properties\<close>

text \<open>C9. The red-black tree is an implementation of an ordered sequence: from the initialised tree on, any sequence of insertions, removals, searches and
  iterations, each called as its users must, ends without a fault (no null or released pointer is followed and no loop runs more than 130 times), returns what the sequence
  gives, and leaves the nodes in order; for every memory, every node offset and every comparison that orders the objects.\<close>

theorem rb_tree_refines:
  assumes "rb_client rbto" "is_live w (rbt_self w)" "aligned (rbt_self w)" "legal_calls (rb_run rbto) (rb_legal rbto) cs (snd (projr (rb_tree_init w)))"
  shows "\<exists>w0 rs w'. rb_tree_init w = Inr ((), w0) \<and> run_calls (rb_run rbto) cs w0 = Inr (rs, w') \<and>
    spec_calls (rb_spec rbto) cs [] rs (rb_seq w') \<and> rb_sorted rbto (rb_seq w')"
proof -
  obtain w0 where w0: "rb_tree_init w = Inr ((), w0)" "rb_inv rbto w0" "rb_seq w0 = []" using rb_init_ok [OF assms(2,3)] by blast
  then obtain rs w' where r: "run_calls (rb_run rbto) cs w0 = Inr (rs, w')" "rb_inv rbto w'" "spec_calls (rb_spec rbto) cs [] rs (rb_seq w')"
    using rb_client.rb_calls_refine [OF assms(1) w0(2)] assms(4) by fastforce
  then show ?thesis using w0 by (auto simp: rb_inv_def dest: rb_seq_rep)
qed

text \<open>The comparison of addresses and a memory with a few nodes, for the examples.\<close>

definition addr_ops :: "u64 \<Rightarrow> int rb_tree_ops" where
  "addr_ops off = \<lparr>rbto_compare_nodes = (\<lambda>a b. uint a - uint b), rbto_compare_key = (\<lambda>a k. uint a - k), rbto_node_offset = off\<rparr>"

definition sample_memory :: rb_world where
  "sample_memory = \<lparr>rb_mem = map_of (map (\<lambda>p. (p, \<lparr>rb_nodes = (\<lambda>d. 7), rb_info = 9\<rparr>)) [8, 16, 24, 32, 40, 48]), rbt_self = 48, rbt_minmax = (\<lambda>d. 5)\<rparr>"

interpretation addr_rb: rb_client "addr_ops off" for off
  by unfold_locales (auto simp: addr_ops_def)

theorem rb_tree_refines_witness:
  "\<exists>w0 rs w'. rb_tree_init sample_memory = Inr ((), w0) \<and>
    run_calls (rb_run (addr_ops 0)) [CallInsert 16, CallInsert 8, CallInsert 24, CallRemove 16, CallGeq 9] w0 = Inr (rs, w') \<and>
    spec_calls (rb_spec (addr_ops 0)) [CallInsert 16, CallInsert 8, CallInsert 24, CallRemove 16, CallGeq 9] [] rs (rb_seq w')"
proof -
  have "legal_calls (rb_run (addr_ops 0)) (rb_legal (addr_ops 0)) [CallInsert 16, CallInsert 8, CallInsert 24, CallRemove 16, CallGeq 9]
      (snd (projr (rb_tree_init sample_memory)))" by code_simp
  moreover have "is_live sample_memory (rbt_self sample_memory)" "aligned (rbt_self sample_memory)" by code_simp+
  ultimately show ?thesis using rb_tree_refines [OF addr_rb.rb_client_axioms, of sample_memory] by blast
qed

text \<open>C13. The tree stays balanced: with fewer than \<open>2 ^ n - 1\<close> nodes, no loop of a search, an insertion or a removal
  runs more than \<open>2 * n\<close> times.\<close>

theorem rb_passes_logarithmic:
  assumes "rb_client rbto" "rb_inv rbto w" "length (rb_seq w) + 1 < 2 ^ n" "2 * n \<le> fuel"
  shows "(\<exists>r. rb_tree_find_node rbto fuel key w = Inr (r, w)) \<and>
    (rb_legal rbto w (CallInsert object) \<longrightarrow> (\<exists>r w'. rb_tree_insert_node rbto fuel object w = Inr (r, w'))) \<and>
    (rb_legal rbto w (CallRemove old) \<longrightarrow> (\<exists>w'. rb_tree_remove_node rbto fuel old w = Inr ((), w')))"
proof -
  obtain T where T: "rb_rep w T" "rb_sorted rbto (inorder T)" "inorder T = rb_seq w" "depth T < fuel"
    using inv_depth [OF assms(2,3)] assms(4) by force
  note al = rb_client.sorted_along [OF assms(1) T(2)] and ak = rb_client.sorted_along_key [OF assms(1) T(2), of key]
  have at: "at w [] T" using T(1) by (simp add: rb_rep_def)
  have "rbt_root w = Inr (root T, w)" using at by (simp add: at_def okn_def rb_acc)
  then have "\<exists>r. rb_tree_find_node rbto fuel key w = Inr (r, w)"
    using find_loop_eval [OF at T(4) ak refl] by (simp add: rb_tree_find_node_def evm_simps)
  moreover have "\<exists>r w'. rb_tree_insert_node rbto fuel object w = Inr (r, w')" if "rb_legal rbto w (CallInsert object)"
    using insert_node_ok [OF T(1) al [of object] refl refl _ _ _ _ T(4)] that T(3) by (auto simp: is_live_iff eruns_def)
  moreover have "\<exists>w'. rb_tree_remove_node rbto fuel old w = Inr ((), w')" if "rb_legal rbto w (CallRemove old)"
  proof -
    have x: "RB_ITEMTONODE rbto old \<in> set (inorder T)" "old \<noteq> 0" using that T(2,3) by (auto simp: rb_sorted_def)
    show ?thesis using remove_node_ok [OF T(1) x refl T(4)] by (auto simp: eruns_def)
  qed
  ultimately show ?thesis by blast
qed

theorem rb_passes_logarithmic_witness:
  "(\<exists>r. rb_tree_find_node (addr_ops 8) 2 5 (snd (projr (rb_tree_init sample_memory))) = Inr (r, snd (projr (rb_tree_init sample_memory)))) \<and>
    (\<exists>r w'. rb_tree_insert_node (addr_ops 8) 2 8 (snd (projr (rb_tree_init sample_memory))) = Inr (r, w'))"
proof -
  let ?w = "snd (projr (rb_tree_init sample_memory))"
  have l: "is_live sample_memory (rbt_self sample_memory)" "aligned (rbt_self sample_memory)" by code_simp+
  have i: "rb_inv (addr_ops 8) ?w" "rb_seq ?w = []" using rb_init_ok [OF l, of "addr_ops 8"] by auto
  have "rb_legal (addr_ops 8) ?w (CallInsert 8)" by code_simp
  then show ?thesis using rb_passes_logarithmic [OF addr_rb.rb_client_axioms i(1), of 1 2 5 8] i(2) by simp
qed

text \<open>C14. An insertion or a removal writes to nothing but the tree's head, its nodes and the new node: two trees in one memory, or
  a tree and any other data, do not disturb each other.\<close>

theorem rb_touches_only_nodes:
  assumes "rb_client rbto" "rb_inv rbto w"
  shows "(rb_legal rbto w (CallInsert object) \<longrightarrow> rb_tree_insert_node rbto rb_fuel object w = Inr (r, w') \<longrightarrow>
      (\<forall>p. p \<notin> insert (RB_ITEMTONODE rbto object) (insert (rbt_self w) (set (rb_seq w))) \<longrightarrow> rb_mem w' p = rb_mem w p)) \<and>
    (rb_legal rbto w (CallRemove object) \<longrightarrow> rb_tree_remove_node rbto rb_fuel object w = Inr ((), w') \<longrightarrow>
      (\<forall>p. p \<notin> insert (rbt_self w) (set (rb_seq w)) \<longrightarrow> rb_mem w' p = rb_mem w p))"
proof -
  obtain T where T: "rb_rep w T" "rb_sorted rbto (inorder T)" using assms(2) by (auto simp: rb_inv_def)
  note sq = rb_seq_rep [OF T(1)] and al = rb_client.sorted_along [OF assms(1) T(2), of object]
  have "\<forall>p. p \<notin> insert (RB_ITEMTONODE rbto object) (insert (rbt_self w) (set (rb_seq w))) \<longrightarrow> rb_mem w' p = rb_mem w p"
    if "rb_legal rbto w (CallInsert object)" "rb_tree_insert_node rbto rb_fuel object w = Inr (r, w')"
    using insert_node_ok [OF T(1) al refl refl _ _ _ _ rep_depth [OF T(1)]] that sq by (auto simp: is_live_iff eruns_def frame_def)
  moreover have "\<forall>p. p \<notin> insert (rbt_self w) (set (rb_seq w)) \<longrightarrow> rb_mem w' p = rb_mem w p"
    if l: "rb_legal rbto w (CallRemove object)" and r: "rb_tree_remove_node rbto rb_fuel object w = Inr ((), w')"
  proof -
    have x: "RB_ITEMTONODE rbto object \<in> set (inorder T)" "object \<noteq> 0" using l T(2) sq by (auto simp: rb_sorted_def)
    show ?thesis using remove_node_ok [OF T(1) x refl rep_depth [OF T(1)]] r sq by (auto simp: eruns_def removed_def frame_def)
  qed
  ultimately show ?thesis by blast
qed

theorem rb_touches_only_nodes_witness:
  "rb_mem (snd (projr (rb_tree_insert_node (addr_ops 0) rb_fuel 8 (snd (projr (rb_tree_init sample_memory)))))) 16 =
    rb_mem (snd (projr (rb_tree_init sample_memory))) 16"
proof -
  let ?w = "snd (projr (rb_tree_init sample_memory))"
  have l: "is_live sample_memory (rbt_self sample_memory)" "aligned (rbt_self sample_memory)" by code_simp+
  have i: "rb_inv (addr_ops 0) ?w" "rb_seq ?w = []" using rb_init_ok [OF l, of "addr_ops 0"] by auto
  have s: "rbt_self ?w = 48" by code_simp
  have lg: "rb_legal (addr_ops 0) ?w (CallInsert 8)" by code_simp
  obtain r w' where r: "rb_tree_insert_node (addr_ops 0) rb_fuel 8 ?w = Inr (r, w')"
    using addr_rb.rb_api.call_refines [OF i(1) lg] by auto
  have "RB_ITEMTONODE (addr_ops 0) 8 = 8" by (simp add: RB_ITEMTONODE_def addr_ops_def)
  then show ?thesis using rb_touches_only_nodes [OF addr_rb.rb_client_axioms i(1), of 8 r w'] lg r i(2) s by simp
qed

end
