(* ===== verification/Neb_Rb_Clients.thy ===== *)
theory Neb_Rb_Clients
  imports Neb_Rb_Api Neb_Timer Neb_Thread
begin

text \<open>
  The red-black tree under its clients: the comparison functions of the timer and of the thread registry meet what the tree asks of them,
  and the tree at pointer level simulates the sequence that the models of these components use.
\<close>

section \<open>The operations the clients give to the tree\<close>

text \<open>\<open>key\<close> is what the memory holds at the address of an object, \<open>off\<close> the offset of the tree's node in it.\<close>

definition evdp_timer_rbtree_ops :: "u64 \<Rightarrow> (u64 \<Rightarrow> evdp_timer_rbtree_node) \<Rightarrow> timespec rb_tree_ops" where
  "evdp_timer_rbtree_ops off key = \<lparr>rbto_compare_nodes = (\<lambda>a b. evdp_timer_rbtree_cmp_node (key a) (key b)),
     rbto_compare_key = (\<lambda>a k. evdp_timer_rbtree_cmp_key (tn_ts (key a)) k), rbto_node_offset = off\<rparr>"

definition thread_rbt_ops :: "u64 \<Rightarrow> (u64 \<Rightarrow> int) \<Rightarrow> int rb_tree_ops" where
  "thread_rbt_ops off key = \<lparr>rbto_compare_nodes = (\<lambda>a b. thread_rbt_cmp_node (key a) (key b)),
     rbto_compare_key = (\<lambda>a k. thread_rbt_cmp_key (key a) k), rbto_node_offset = off\<rparr>"

interpretation timer_rb: rb_client "evdp_timer_rbtree_ops off key" for off key
proof
  fix a b c :: u64 and k :: timespec
  let ?c = "rbto_compare_nodes (evdp_timer_rbtree_ops off key)" and ?k = "rbto_compare_key (evdp_timer_rbtree_ops off key)"
  show "?c a b < 0 \<longleftrightarrow> 0 < ?c b a" using timer_order.cmp_swap by (simp add: evdp_timer_rbtree_ops_def)
  show "?c a b < 0 \<Longrightarrow> ?c b c < 0 \<Longrightarrow> ?c a c < 0" using timer_order.cmp_trans by (simp add: evdp_timer_rbtree_ops_def)
  show "?c a b = 0 \<Longrightarrow> ?c c a < 0 \<longleftrightarrow> ?c c b < 0" using timer_order.cmp_zero by (simp add: evdp_timer_rbtree_ops_def)
  show "?c a b < 0 \<Longrightarrow> (?k b k \<le> 0 \<longrightarrow> ?k a k < 0) \<and> (0 \<le> ?k a k \<longrightarrow> 0 < ?k b k)"
    by (auto simp: evdp_timer_rbtree_ops_def evdp_timer_rbtree_cmp_node_def evdp_timer_rbtree_cmp_key_def CMP_def split: if_splits)
qed

interpretation thread_rb: rb_client "thread_rbt_ops off key" for off key
  by unfold_locales (auto simp: thread_rbt_ops_def thread_rbt_cmp_node_def thread_rbt_cmp_key_def split: if_splits)

section \<open>Simulation\<close>

text \<open>The tree holds the objects at the addresses of \<open>ns\<close>.\<close>

definition tree_holds :: "'k rb_tree_ops \<Rightarrow> (nat \<Rightarrow> u64) \<Rightarrow> nat list \<Rightarrow> rb_world \<Rightarrow> bool" where
  "tree_holds rbto addr ns w \<longleftrightarrow> rb_inv rbto w \<and> rb_seq w = map (\<lambda>n. RB_ITEMTONODE rbto (addr n)) ns"

lemma seq_insert_map: "seq_insert cmp key (f n) (map f xs) = map_prod f (map f) (seq_insert cmp (\<lambda>x. key (f x)) n xs)"
  by (induction xs) (auto split: prod.split)

lemma seq_insert_cong: "\<forall>x \<in> set xs. c (k x) (k n) = c' (k' x) (k' n) \<Longrightarrow> seq_insert c k n xs = seq_insert c' k' n xs"
  by (induction xs) (auto split: prod.split)

lemma find_map: "find P (map f xs) = map_option f (find (\<lambda>x. P (f x)) xs)"
  by (induction xs) auto

lemma remove1_map_inj: "inj_on f (insert x (set xs)) \<Longrightarrow> remove1 (f x) (map f xs) = map f (remove1 x xs)"
  by (induction xs) (auto simp: inj_on_def)

lemma seq_next_map: "inj_on f (set xs) \<Longrightarrow> n \<in> set xs \<Longrightarrow> seq_next (f n) (map f xs) = map_option f (seq_next n xs)"
proof (induction xs)
  case (Cons x xs)
  then show ?case by (cases "x = n") (auto split: list.split dest: inj_onD)
qed simp

lemma inj_node: "inj_on addr S \<Longrightarrow> inj_on (\<lambda>n. RB_ITEMTONODE rbto (addr n)) S"
  by (auto simp: inj_on_def RB_ITEMTONODE_def)

context rb_client
begin

lemma holds_insert:
  assumes "tree_holds rbto addr ns w" "rb_legal rbto w (CallInsert (addr n))"
  shows "\<exists>r ns' w'. seq_insert (rbto_compare_nodes rbto) addr n ns = (r, ns') \<and> rb_tree_insert_node rbto rb_fuel (addr n) w = Inr (addr r, w') \<and>
    tree_holds rbto addr ns' w'"
proof -
  obtain m w' where w': "rb_tree_insert_node rbto rb_fuel (addr n) w = Inr (RB_NODETOITEM rbto m, w')" "rb_inv rbto w'"
    "seq_insert (rbto_compare_nodes rbto) (RB_NODETOITEM rbto) (RB_ITEMTONODE rbto (addr n)) (rb_seq w) = (m, rb_seq w')"
    using call_refines_rb [of w "CallInsert (addr n)"] assms by (auto simp: tree_holds_def)
  then show ?thesis
    using assms(1) seq_insert_map [of "rbto_compare_nodes rbto" "RB_NODETOITEM rbto" "\<lambda>n. RB_ITEMTONODE rbto (addr n)" n ns]
    by (auto simp: tree_holds_def map_prod_def split: prod.splits)
qed

lemma holds_remove:
  assumes "tree_holds rbto addr ns w" "inj_on addr (set ns)" "n \<in> set ns"
  shows "\<exists>w'. rb_tree_remove_node rbto rb_fuel (addr n) w = Inr ((), w') \<and> tree_holds rbto addr (remove1 n ns) w'"
proof -
  obtain T where "rb_rep w T" "rb_sorted rbto (inorder T)" using assms(1) by (auto simp: tree_holds_def rb_inv_def)
  from remove_refines [OF this, of "addr n"] show ?thesis
    using assms remove1_map_inj [of "\<lambda>n. RB_ITEMTONODE rbto (addr n)" n ns] inj_node [OF assms(2), of rbto]
    by (auto simp: tree_holds_def insert_absorb)
qed

lemma holds_find:
  assumes "tree_holds rbto addr ns w"
  shows "rb_tree_find_node rbto rb_fuel key w = Inr (case seq_find (rbto_compare_key rbto) addr key ns of None \<Rightarrow> 0 | Some n \<Rightarrow> addr n, w)"
proof -
  obtain T where "rb_rep w T" "rb_sorted rbto (inorder T)" using assms(1) by (auto simp: tree_holds_def rb_inv_def)
  from find_refines(1) [OF this, of key] show ?thesis
    using assms by (auto simp: tree_holds_def seq_find_def find_map item_or_null_def split: option.split)
qed

lemma holds_min:
  assumes "tree_holds rbto addr ns w"
  shows "rb_tree_iterate rbto rb_fuel 0 False w = Inr (case ns of [] \<Rightarrow> 0 | n # _ \<Rightarrow> addr n, w)"
proof -
  obtain T where "rb_rep w T" "rb_sorted rbto (inorder T)" using assms(1) by (auto simp: tree_holds_def rb_inv_def)
  from iterate_refines [OF this, of 0 False] show ?thesis
    using assms by (auto simp: tree_holds_def item_or_null_def split: list.split)
qed

lemma holds_next:
  assumes "tree_holds rbto addr ns w" "inj_on addr (set ns)" "n \<in> set ns"
  shows "rb_tree_iterate rbto rb_fuel (addr n) True w = Inr (case seq_next n ns of None \<Rightarrow> 0 | Some m \<Rightarrow> addr m, w)"
proof -
  obtain T where T: "rb_rep w T" "rb_sorted rbto (inorder T)" using assms(1) by (auto simp: tree_holds_def rb_inv_def)
  have m: "rb_seq w = map (\<lambda>n. RB_ITEMTONODE rbto (addr n)) ns" using assms(1) by (simp add: tree_holds_def)
  then have "RB_ITEMTONODE rbto (addr n) \<in> set (inorder T)" using assms(3) rb_seq_rep [OF T(1)] by auto
  moreover from this have "addr n \<noteq> 0" using T(2) by (force simp: rb_sorted_def)
  ultimately show ?thesis
    using iterate_refines [OF T, of "addr n" True] m assms(3) rb_seq_rep [OF T(1)]
      seq_next_map [OF inj_node [OF assms(2), of rbto] assms(3)]
    by (auto simp: neighbour_def item_or_null_def split: option.split)
qed

end

section \<open>Properties\<close>

text \<open>C12. The registry of threads over the tree at pointer level: when the tree holds the registry's nodes, inserting, finding and
  removing a node in the model of the registry and in the memory give the same answer, and the tree holds the nodes of the new registry.\<close>

theorem thread_tree_simulated:
  assumes "inj_on addr {n. rbt_nodes s n \<noteq> None}" "rbt_alive s" "\<forall>n. rbt_nodes s n \<noteq> None \<longrightarrow> key (addr n) = the (rbt_nodes s n)"
    and "tree_holds (thread_rbt_ops off key) addr (thread_rbt s) w"
  shows "(rbt_nodes s n \<noteq> None \<longrightarrow> rb_legal (thread_rbt_ops off key) w (CallInsert (addr n)) \<longrightarrow>
      (\<exists>r s' w'. th_insert_node n s = Inr (r, s') \<and> rb_tree_insert_node (thread_rbt_ops off key) rb_fuel (addr n) w = Inr (addr r, w') \<and>
        tree_holds (thread_rbt_ops off key) addr (thread_rbt s') w')) \<and>
    (\<exists>r. th_find_node p s = Inr (r, s) \<and> rb_tree_find_node (thread_rbt_ops off key) rb_fuel p w = Inr (case r of None \<Rightarrow> 0 | Some n \<Rightarrow> addr n, w)) \<and>
    (n \<in> set (thread_rbt s) \<longrightarrow>
      (\<exists>s' w'. th_remove_node (Some n) s = Inr ((), s') \<and> rb_tree_remove_node (thread_rbt_ops off key) rb_fuel (addr n) w = Inr ((), w') \<and>
        tree_holds (thread_rbt_ops off key) addr (thread_rbt s') w'))"
proof -
  let ?ops = "thread_rbt_ops off key"
  have ij: "inj_on addr (set (thread_rbt s))" by (rule inj_on_subset [OF assms(1)]) (use assms(2) in \<open>auto simp: rbt_alive_def list_all_iff\<close>)
  have k: "\<forall>n \<in> set (thread_rbt s). key (addr n) = the (rbt_nodes s n)" using assms(2,3) by (auto simp: rbt_alive_def list_all_iff)
  have "\<exists>r s' w'. th_insert_node n s = Inr (r, s') \<and> rb_tree_insert_node ?ops rb_fuel (addr n) w = Inr (addr r, w') \<and>
        tree_holds ?ops addr (thread_rbt s') w'" if "rbt_nodes s n \<noteq> None" "rb_legal ?ops w (CallInsert (addr n))"
  proof -
    have "seq_insert (rbto_compare_nodes ?ops) addr n (thread_rbt s) = seq_insert thread_rbt_cmp_node (\<lambda>a. the (rbt_nodes s a)) n (thread_rbt s)"
      by (rule seq_insert_cong) (use k that(1) assms(3) in \<open>simp add: thread_rbt_ops_def\<close>)
    then show ?thesis using thread_rb.holds_insert [OF assms(4) that(2)] assms(2) by (auto simp: th_insert_node_def)
  qed
  moreover have "seq_find (rbto_compare_key ?ops) addr p (thread_rbt s) = seq_find thread_rbt_cmp_key (\<lambda>a. the (rbt_nodes s a)) p (thread_rbt s)"
    unfolding seq_find_def by (rule find_cong) (use k in \<open>auto simp: thread_rbt_ops_def\<close>)
  then have "\<exists>r. th_find_node p s = Inr (r, s) \<and> rb_tree_find_node ?ops rb_fuel p w = Inr (case r of None \<Rightarrow> 0 | Some n \<Rightarrow> addr n, w)"
    using thread_rb.holds_find [OF assms(4), of p] assms(2) by (simp add: th_find_node_def)
  moreover have "\<exists>s' w'. th_remove_node (Some n) s = Inr ((), s') \<and> rb_tree_remove_node ?ops rb_fuel (addr n) w = Inr ((), w') \<and>
        tree_holds ?ops addr (thread_rbt s') w'" if "n \<in> set (thread_rbt s)"
    using thread_rb.holds_remove [OF assms(4) ij that] assms(2) by (auto simp: th_remove_node_def)
  ultimately show ?thesis by blast
qed

definition sample_threads :: thread_state where
  "sample_threads = thread_start\<lparr>thread_rbt_lock_ok := True, thread_rbt_ok := True, rbt_nodes := [0 \<mapsto> 5]\<rparr>"

lemma sample_tree_holds: "tree_holds rbto addr [] (snd (projr (rb_tree_init sample_memory)))"
proof -
  have "is_live sample_memory (rbt_self sample_memory)" "aligned (rbt_self sample_memory)" by code_simp+
  from rb_init_ok [OF this, of rbto] show ?thesis by (auto simp: tree_holds_def)
qed

theorem thread_tree_simulated_witness:
  "\<exists>r s' w'. th_insert_node 0 sample_threads = Inr (r, s') \<and>
    rb_tree_insert_node (thread_rbt_ops 8 (\<lambda>a. 5)) rb_fuel 8 (snd (projr (rb_tree_init sample_memory))) = Inr (8, w') \<and>
    tree_holds (thread_rbt_ops 8 (\<lambda>a. 5)) (\<lambda>n. 8) (thread_rbt s') w'"
proof -
  have "rb_legal (thread_rbt_ops 8 (\<lambda>a. 5)) (snd (projr (rb_tree_init sample_memory))) (CallInsert 8)" by code_simp
  moreover have "\<exists>r s' w'. th_insert_node 0 sample_threads = Inr (r, s') \<and> rb_tree_insert_node (thread_rbt_ops 8 (\<lambda>a. 5)) rb_fuel 8 w = Inr (8, w') \<and>
      tree_holds (thread_rbt_ops 8 (\<lambda>a. 5)) (\<lambda>n. 8) (thread_rbt s') w'"
    if "rb_legal (thread_rbt_ops 8 (\<lambda>a. 5)) w (CallInsert 8)" "tree_holds (thread_rbt_ops 8 (\<lambda>a. 5)) (\<lambda>n. 8) [] w" for w
  proof -
    have p: "inj_on (\<lambda>n. 8 :: u64) {n. rbt_nodes sample_threads n \<noteq> None}" "rbt_alive sample_threads"
      "\<forall>n. rbt_nodes sample_threads n \<noteq> None \<longrightarrow> 5 = the (rbt_nodes sample_threads n)" "rbt_nodes sample_threads 0 \<noteq> None" "thread_rbt sample_threads = []"
      by (auto simp: sample_threads_def thread_start_def rbt_alive_def inj_on_def split: if_splits)
    show ?thesis
      by (rule thread_tree_simulated [where addr = "\<lambda>n. 8" and key = "\<lambda>a. 5", OF p(1-3), THEN conjunct1, rule_format]) (use p that in simp_all)
  qed
  ultimately show ?thesis using sample_tree_holds by blast
qed

text \<open>C11. The timer over the tree at pointer level: inserting and removing a node, finding the first
  one and finding the one behind a given one agree in the same way.\<close>

theorem timer_tree_simulated:
  assumes "inj_on addr {n. tns t n \<noteq> None}" "tree_alive t" "\<forall>n. tns t n \<noteq> None \<longrightarrow> key (addr n) = the (tns t n)"
    and "tree_holds (evdp_timer_rbtree_ops off key) addr (rbtree t) w"
  shows "(tns t n \<noteq> None \<longrightarrow> rb_legal (evdp_timer_rbtree_ops off key) w (CallInsert (addr n)) \<longrightarrow>
      (\<exists>r t' w'. timer_insert_node n t = Inr (r, t') \<and> rb_tree_insert_node (evdp_timer_rbtree_ops off key) rb_fuel (addr n) w = Inr (addr r, w') \<and>
        tree_holds (evdp_timer_rbtree_ops off key) addr (rbtree t') w')) \<and>
    rb_tree_iterate (evdp_timer_rbtree_ops off key) rb_fuel 0 RB_DIR_LEFT w = Inr (case RB_TREE_MIN t of None \<Rightarrow> 0 | Some n \<Rightarrow> addr n, w) \<and>
    (n \<in> set (rbtree t) \<longrightarrow>
      rb_tree_iterate (evdp_timer_rbtree_ops off key) rb_fuel (addr n) RB_DIR_RIGHT w = Inr (case seq_next n (rbtree t) of None \<Rightarrow> 0 | Some m \<Rightarrow> addr m, w) \<and>
      (\<exists>t' w'. timer_remove_node n t = Inr ((), t') \<and> rb_tree_remove_node (evdp_timer_rbtree_ops off key) rb_fuel (addr n) w = Inr ((), w') \<and>
        tree_holds (evdp_timer_rbtree_ops off key) addr (rbtree t') w'))"
proof -
  let ?ops = "evdp_timer_rbtree_ops off key"
  have ij: "inj_on addr (set (rbtree t))" by (rule inj_on_subset [OF assms(1)]) (use assms(2) in \<open>auto simp: tree_alive_def list_all_iff\<close>)
  have k: "\<forall>n \<in> set (rbtree t). key (addr n) = the (tns t n)" using assms(2,3) by (auto simp: tree_alive_def list_all_iff)
  have "\<exists>r t' w'. timer_insert_node n t = Inr (r, t') \<and> rb_tree_insert_node ?ops rb_fuel (addr n) w = Inr (addr r, w') \<and>
        tree_holds ?ops addr (rbtree t') w'" if "tns t n \<noteq> None" "rb_legal ?ops w (CallInsert (addr n))"
  proof -
    have "seq_insert (rbto_compare_nodes ?ops) addr n (rbtree t) = seq_insert evdp_timer_rbtree_cmp_node (\<lambda>a. the (tns t a)) n (rbtree t)"
      by (rule seq_insert_cong) (use k that(1) assms(3) in \<open>simp add: evdp_timer_rbtree_ops_def\<close>)
    then show ?thesis using timer_rb.holds_insert [OF assms(4) that(2)] assms(2) that(1)
      by (auto simp: timer_insert_node_def get_tn_def get_timer_def upd_timer_def evm_simps)
  qed
  moreover have "rb_tree_iterate ?ops rb_fuel 0 RB_DIR_LEFT w = Inr (case RB_TREE_MIN t of None \<Rightarrow> 0 | Some n \<Rightarrow> addr n, w)"
    using timer_rb.holds_min [OF assms(4)] by (simp add: RB_TREE_MIN_def split: list.split)
  moreover have "rb_tree_iterate ?ops rb_fuel (addr n) RB_DIR_RIGHT w = Inr (case seq_next n (rbtree t) of None \<Rightarrow> 0 | Some m \<Rightarrow> addr m, w)"
    if "n \<in> set (rbtree t)" by (rule timer_rb.holds_next [OF assms(4) ij that])
  moreover have "\<exists>t' w'. timer_remove_node n t = Inr ((), t') \<and> rb_tree_remove_node ?ops rb_fuel (addr n) w = Inr ((), w') \<and>
        tree_holds ?ops addr (rbtree t') w'" if "n \<in> set (rbtree t)"
    using timer_rb.holds_remove [OF assms(4) ij that] assms(2) that by (auto simp: timer_remove_node_def get_timer_def upd_timer_def evm_simps)
  ultimately show ?thesis by blast
qed

definition sample_node :: evdp_timer_rbtree_node where
  "sample_node = \<lparr>tn_ts = \<lparr>tv_sec = 1, tv_nsec = 2\<rparr>, cblist = [], no_auto_del = False\<rparr>"

theorem timer_tree_simulated_witness:
  "\<exists>t r t' w'. tns t 0 = Some sample_node \<and> timer_insert_node 0 t = Inr (r, t') \<and>
    rb_tree_insert_node (evdp_timer_rbtree_ops 8 (\<lambda>a. sample_node)) rb_fuel 8 (snd (projr (rb_tree_init sample_memory))) = Inr (8, w') \<and>
    tree_holds (evdp_timer_rbtree_ops 8 (\<lambda>a. sample_node)) (\<lambda>n. 8) (rbtree t') w'"
proof -
  define t where "t = \<lparr>rbtree = [], tcache_nodes = [], tcache_size = 0, lcache_nodes = [], lcache_size = 0, keeplist = [],
    tns = [0 \<mapsto> sample_node], lns = Map.empty\<rparr>"
  have "rb_legal (evdp_timer_rbtree_ops 8 (\<lambda>a. sample_node)) (snd (projr (rb_tree_init sample_memory))) (CallInsert 8)" by code_simp
  moreover have "\<exists>r t' w'. timer_insert_node 0 t = Inr (r, t') \<and> rb_tree_insert_node (evdp_timer_rbtree_ops 8 (\<lambda>a. sample_node)) rb_fuel 8 w = Inr (8, w') \<and>
      tree_holds (evdp_timer_rbtree_ops 8 (\<lambda>a. sample_node)) (\<lambda>n. 8) (rbtree t') w'"
    if "rb_legal (evdp_timer_rbtree_ops 8 (\<lambda>a. sample_node)) w (CallInsert 8)" "tree_holds (evdp_timer_rbtree_ops 8 (\<lambda>a. sample_node)) (\<lambda>n. 8) [] w" for w
  proof -
    have p: "inj_on (\<lambda>n. 8 :: u64) {n. tns t n \<noteq> None}" "tree_alive t"
      "\<forall>n. tns t n \<noteq> None \<longrightarrow> sample_node = the (tns t n)" "tns t 0 \<noteq> None" "rbtree t = []"
      by (auto simp: t_def tree_alive_def inj_on_def split: if_splits)
    show ?thesis
      by (rule timer_tree_simulated [where addr = "\<lambda>n. 8" and key = "\<lambda>a. sample_node", OF p(1-3), THEN conjunct1, rule_format]) (use p that in simp_all)
  qed
  moreover have "tns t 0 = Some sample_node" by (simp add: t_def)
  ultimately show ?thesis using sample_tree_holds by blast
qed

end
