(* ===== verification/Neb_Obstack.thy ===== *)
theory Neb_Obstack
  imports Neb_Prelude
begin

text \<open>
  Object stacks: \<^verbatim>\<open>compat/obstack/obstack.c\<close> and the macros of \<^verbatim>\<open>include/nebase/compat/obstack/gnulib/obstack.h\<close>
  (the variant for GNU C). An object stack hands out objects from chunks that it gets from an allocator; an object may grow while it is
  the last one, and moves to a larger chunk when it does not fit. The allocator and its answers are arguments; the model has the live blocks of the
  heap, the headers of the chunks and the bytes of memory, and faults when a byte outside the contents of a live chunk is written or copied, or a
  released chunk is used.
\<close>

section \<open>State\<close>

record obstack_chunk =
  limit :: u64
  prev :: u64

record obstack =
  chunk_size :: u64
  chunk :: u64
  object_base :: u64
  next_free :: u64
  chunk_limit :: u64
  alignment_mask :: u64
  extra_arg :: u64
  use_extra_arg :: bool
  maybe_empty_object :: bool

text \<open>The heap: live blocks with their sizes, chunk headers, bytes. \<^verbatim>\<open>contents\<close> starts behind a header of 16 bytes.\<close>

record ob_mem =
  blocks :: "(u64 \<times> u64) list"
  headers :: "u64 \<Rightarrow> obstack_chunk"
  bytes :: "u64 \<Rightarrow> u8"

text \<open>The allocation functions, without and with an extra argument: the address for a block of a size, or 0.\<close>

record chunk_fns =
  chunkfun_plain :: "(u64 \<times> u64) list \<Rightarrow> u64 \<Rightarrow> u64"
  chunkfun_extra :: "u64 \<Rightarrow> (u64 \<times> u64) list \<Rightarrow> u64 \<Rightarrow> u64"

type_synonym 'a obc = "('a, obstack \<times> ob_mem) comp"

definition get_ob :: "obstack obc" where "get_ob w = Inr (fst w, w)"

definition upd_ob :: "(obstack \<Rightarrow> obstack) \<Rightarrow> unit obc" where "upd_ob f w = Inr ((), (f (fst w), snd w))"

definition live_block :: "ob_mem \<Rightarrow> u64 \<Rightarrow> bool" where "live_block m p \<longleftrightarrow> p \<in> fst ` set (blocks m)"

definition get_header :: "u64 \<Rightarrow> obstack_chunk obc" where
  "get_header p w = (if live_block (snd w) p then Inr (headers (snd w) p, w) else Inl UseAfterFree)"

definition upd_header :: "u64 \<Rightarrow> (obstack_chunk \<Rightarrow> obstack_chunk) \<Rightarrow> unit obc" where
  "upd_header p f w = (if live_block (snd w) p then
     Inr ((), (fst w, (snd w)\<lparr>headers := (headers (snd w))(p := f (headers (snd w) p))\<rparr>)) else Inl UseAfterFree)"

text \<open>A range of bytes is usable when it lies in the contents of one live chunk.\<close>

definition range_ok :: "ob_mem \<Rightarrow> u64 \<Rightarrow> nat \<Rightarrow> bool" where
  "range_ok m a n \<longleftrightarrow> n = 0 \<or> list_ex (\<lambda>(p, s). unat p + 16 \<le> unat a \<and> unat a + n \<le> unat p + unat s) (blocks m)"

definition read_bytes :: "ob_mem \<Rightarrow> u64 \<Rightarrow> nat \<Rightarrow> u8 list" where
  "read_bytes m a n = map (\<lambda>i. bytes m (a + of_nat i)) [0..<n]"

definition put_bytes :: "u64 \<Rightarrow> u8 list \<Rightarrow> ob_mem \<Rightarrow> ob_mem" where
  "put_bytes a xs m = m\<lparr>bytes := (\<lambda>x. if unat (x - a) < length xs then xs ! unat (x - a) else bytes m x)\<rparr>"

definition write_bytes :: "u64 \<Rightarrow> u8 list \<Rightarrow> unit obc" where
  "write_bytes a xs w = (if range_ok (snd w) a (length xs) then Inr ((), (fst w, put_bytes a xs (snd w))) else Inl OutOfBounds)"

definition memcpy_bytes :: "u64 \<Rightarrow> u64 \<Rightarrow> u64 \<Rightarrow> unit obc" where
  "memcpy_bytes dst src n w = (if range_ok (snd w) src (unat n) then write_bytes dst (read_bytes (snd w) src (unat n)) w else Inl OutOfBounds)"

section \<open>Chunks\<close>

definition BPTR_ALIGN :: "u64 \<Rightarrow> u64 \<Rightarrow> u64 \<Rightarrow> u64" where "BPTR_ALIGN B P A = B + ((P - B + A) AND NOT A)"

text \<open>A difference of pointers is as wide as a pointer, so that the base is 0.\<close>

definition PTR_ALIGN :: "u64 \<Rightarrow> u64 \<Rightarrow> u64 \<Rightarrow> u64" where "PTR_ALIGN B P A = BPTR_ALIGN 0 P A"

definition contents :: "u64 \<Rightarrow> u64" where "contents c = c + 16"

definition DEFAULT_ALIGNMENT :: u64 where "DEFAULT_ALIGNMENT = max 16 (max 8 8)"
definition DEFAULT_ROUNDING :: u64 where "DEFAULT_ROUNDING = max 16 (max 8 8)"

definition call_chunkfun :: "chunk_fns \<Rightarrow> u64 \<Rightarrow> u64 obc" where
  "call_chunkfun fns sz w =
     (let h = fst w; m = snd w;
          p = (if use_extra_arg h then chunkfun_extra fns (extra_arg h) (blocks m) sz else chunkfun_plain fns (blocks m) sz) in
      Inr (p, (h, if p = 0 then m else m\<lparr>blocks := (p, sz) # blocks m\<rparr>)))"

definition call_freefun :: "u64 \<Rightarrow> unit obc" where
  "call_freefun p w = (if live_block (snd w) p then Inr ((), (fst w, (snd w)\<lparr>blocks := filter (\<lambda>b. fst b \<noteq> p) (blocks (snd w))\<rparr>))
     else Inl UseAfterFree)"

text \<open>\<^verbatim>\<open>obstack_alloc_failed_handler\<close> of \<^verbatim>\<open>compat/obstack/handler.c\<close> ends the process.\<close>

definition print_and_abort :: "unit obc" where "print_and_abort = efail Exit"

definition default_chunk_size :: u64 where
  "default_chunk_size =
     (let extra = ((((12 + DEFAULT_ROUNDING - 1) AND NOT (DEFAULT_ROUNDING - 1)) + 4 + DEFAULT_ROUNDING - 1) AND NOT (DEFAULT_ROUNDING - 1))
      in 4096 - extra)"

definition obstack_begin_worker :: "chunk_fns \<Rightarrow> u64 \<Rightarrow> u64 \<Rightarrow> int obc" where
  "obstack_begin_worker fns sz alignment =
     (let alignment = (if alignment = 0 then DEFAULT_ALIGNMENT else alignment);
          sz = (if sz = 0 then default_chunk_size else sz) in
      eseq (upd_ob (\<lambda>h. h\<lparr>chunk_size := sz, alignment_mask := alignment - 1\<rparr>))
      (ebind (call_chunkfun fns sz) (\<lambda>chunk'.
      eseq (upd_ob (\<lambda>h. h\<lparr>chunk := chunk'\<rparr>))
      (eseq (ewhen (chunk' = 0) print_and_abort)
      (eseq (upd_ob (\<lambda>h. let b = PTR_ALIGN chunk' (contents chunk') (alignment - 1) in h\<lparr>object_base := b, next_free := b\<rparr>))
      (eseq (upd_header chunk' (\<lambda>c. c\<lparr>limit := chunk' + sz\<rparr>))
      (eseq (upd_ob (\<lambda>h. h\<lparr>chunk_limit := chunk' + sz\<rparr>))
      (eseq (upd_header chunk' (\<lambda>c. c\<lparr>prev := 0\<rparr>))
      (eseq (upd_ob (\<lambda>h. h\<lparr>maybe_empty_object := False\<rparr>))
      (eret 1))))))))))"

definition u_obstack_begin :: "chunk_fns \<Rightarrow> u64 \<Rightarrow> u64 \<Rightarrow> int obc" where
  "u_obstack_begin fns sz alignment = eseq (upd_ob (\<lambda>h. h\<lparr>use_extra_arg := False\<rparr>)) (obstack_begin_worker fns sz alignment)"

definition u_obstack_begin_1 :: "chunk_fns \<Rightarrow> u64 \<Rightarrow> u64 \<Rightarrow> u64 \<Rightarrow> int obc" where
  "u_obstack_begin_1 fns sz alignment arg =
     eseq (upd_ob (\<lambda>h. h\<lparr>extra_arg := arg, use_extra_arg := True\<rparr>)) (obstack_begin_worker fns sz alignment)"

text \<open>The size of a new chunk, with room for the object, the addition and some growth.\<close>

definition newchunk_size :: "u64 \<Rightarrow> u64 \<Rightarrow> u64 \<Rightarrow> u64 \<Rightarrow> u64" where
  "newchunk_size obj_size len msk csize =
     (let sum1 = obj_size + len; sum2 = sum1 + msk;
          new_size = sum2 + drop_bit 3 obj_size + 100;
          new_size = (if new_size < sum2 then sum2 else new_size) in
      if new_size < csize then csize else new_size)"

definition u_obstack_newchunk :: "chunk_fns \<Rightarrow> u64 \<Rightarrow> unit obc" where
  "u_obstack_newchunk fns len =
     ebind get_ob (\<lambda>h.
     let old_chunk = chunk h; obj_size = next_free h - object_base h;
         new_size = newchunk_size obj_size len (alignment_mask h) (chunk_size h) in
     ebind (if obj_size \<le> obj_size + len \<and> obj_size + len \<le> obj_size + len + alignment_mask h then call_chunkfun fns new_size else eret 0) (\<lambda>new_chunk.
     eseq (ewhen (new_chunk = 0) print_and_abort)
     (eseq (upd_ob (\<lambda>h. h\<lparr>chunk := new_chunk\<rparr>))
     (eseq (upd_header new_chunk (\<lambda>c. c\<lparr>prev := old_chunk\<rparr>))
     (eseq (upd_ob (\<lambda>h. h\<lparr>chunk_limit := new_chunk + new_size\<rparr>))
     (eseq (upd_header new_chunk (\<lambda>c. c\<lparr>limit := new_chunk + new_size\<rparr>))
     (let base = PTR_ALIGN new_chunk (contents new_chunk) (alignment_mask h) in
      eseq (memcpy_bytes base (object_base h) obj_size)
      (eseq (if \<not> maybe_empty_object h \<and> object_base h = PTR_ALIGN old_chunk (contents old_chunk) (alignment_mask h) then
          ebind (get_header old_chunk) (\<lambda>c.
          eseq (upd_header new_chunk (\<lambda>n. n\<lparr>prev := prev c\<rparr>))
          (call_freefun old_chunk))
        else eret ())
      (upd_ob (\<lambda>h. h\<lparr>object_base := base, next_free := base + obj_size, maybe_empty_object := False\<rparr>))))))))))"

text \<open>The walks over the chunks, newest first. The list of chunks has no cycle, so that one pass for each live block is enough.\<close>

fun chunk_walk :: "nat \<Rightarrow> u64 \<Rightarrow> u64 \<Rightarrow> u64 obc" where
  "chunk_walk 0 lp obj = efail NoEnd"
| "chunk_walk (Suc fuel) lp obj =
     (if lp = 0 then eret 0
      else ebind (get_header lp) (\<lambda>c. if obj \<le> lp \<or> limit c < obj then chunk_walk fuel (prev c) obj else eret lp))"

definition walk_fuel :: "nat obc" where "walk_fuel w = Inr (Suc (length (blocks (snd w))), w)"

definition u_obstack_allocated_p :: "u64 \<Rightarrow> int obc" where
  "u_obstack_allocated_p obj =
     ebind get_ob (\<lambda>h. ebind walk_fuel (\<lambda>fuel. ebind (chunk_walk fuel (chunk h) obj) (\<lambda>lp. eret (if lp \<noteq> 0 then 1 else 0))))"

fun free_walk :: "nat \<Rightarrow> u64 \<Rightarrow> u64 \<Rightarrow> u64 obc" where
  "free_walk 0 lp obj = efail NoEnd"
| "free_walk (Suc fuel) lp obj =
     (if lp = 0 then eret 0
      else ebind (get_header lp) (\<lambda>c.
        if obj \<le> lp \<or> limit c < obj then
          eseq (call_freefun lp)
          (eseq (upd_ob (\<lambda>h. h\<lparr>maybe_empty_object := True\<rparr>))
          (free_walk fuel (prev c) obj))
        else eret lp))"

definition u_obstack_free :: "u64 \<Rightarrow> unit obc" where
  "u_obstack_free obj =
     ebind get_ob (\<lambda>h. ebind walk_fuel (\<lambda>fuel. ebind (free_walk fuel (chunk h) obj) (\<lambda>lp.
     if lp \<noteq> 0 then
       eseq (upd_ob (\<lambda>h. h\<lparr>object_base := obj, next_free := obj\<rparr>))
       (ebind (get_header lp) (\<lambda>c.
       eseq (upd_ob (\<lambda>h. h\<lparr>chunk_limit := limit c\<rparr>))
       (upd_ob (\<lambda>h. h\<lparr>chunk := lp\<rparr>))))
     else if obj \<noteq> 0 then efail Abort else eret ())))"

fun used_walk :: "nat \<Rightarrow> u64 \<Rightarrow> u64 \<Rightarrow> u64 obc" where
  "used_walk 0 lp nbytes = efail NoEnd"
| "used_walk (Suc fuel) lp nbytes =
     (if lp = 0 then eret nbytes else ebind (get_header lp) (\<lambda>c. used_walk fuel (prev c) (nbytes + (limit c - lp))))"

definition u_obstack_memory_used :: "u64 obc" where
  "u_obstack_memory_used = ebind get_ob (\<lambda>h. ebind walk_fuel (\<lambda>fuel. used_walk fuel (chunk h) 0))"

section \<open>Objects\<close>

definition obstack_init :: "chunk_fns \<Rightarrow> int obc" where "obstack_init fns = u_obstack_begin fns 0 0"

definition obstack_begin :: "chunk_fns \<Rightarrow> u64 \<Rightarrow> int obc" where "obstack_begin fns sz = u_obstack_begin fns sz 0"

definition obstack_object_size :: "obstack \<Rightarrow> u64" where "obstack_object_size h = next_free h - object_base h"

definition obstack_room :: "obstack \<Rightarrow> u64" where "obstack_room h = chunk_limit h - next_free h"

definition obstack_make_room :: "chunk_fns \<Rightarrow> u64 \<Rightarrow> unit obc" where
  "obstack_make_room fns len = ebind get_ob (\<lambda>h. ewhen (obstack_room h < len) (u_obstack_newchunk fns len))"

definition obstack_empty_p :: "bool obc" where
  "obstack_empty_p = ebind get_ob (\<lambda>h. ebind (get_header (chunk h)) (\<lambda>c.
     eret (prev c = 0 \<and> next_free h = PTR_ALIGN (chunk h) (contents (chunk h)) (alignment_mask h))))"

definition obstack_blank_fast :: "u64 \<Rightarrow> unit obc" where "obstack_blank_fast n = upd_ob (\<lambda>h. h\<lparr>next_free := next_free h + n\<rparr>)"

text \<open>The bytes that are added come from the caller's memory and are given as a list.\<close>

definition append_bytes :: "u8 list \<Rightarrow> unit obc" where
  "append_bytes xs = ebind get_ob (\<lambda>h. eseq (write_bytes (next_free h) xs) (obstack_blank_fast (of_nat (length xs))))"

definition obstack_grow :: "chunk_fns \<Rightarrow> u8 list \<Rightarrow> unit obc" where
  "obstack_grow fns xs =
     (let len = of_nat (length xs) in
      ebind get_ob (\<lambda>h. eseq (ewhen (obstack_room h < len) (u_obstack_newchunk fns len)) (append_bytes xs)))"

definition obstack_grow0 :: "chunk_fns \<Rightarrow> u8 list \<Rightarrow> unit obc" where
  "obstack_grow0 fns xs =
     (let len = of_nat (length xs) in
      ebind get_ob (\<lambda>h. eseq (ewhen (obstack_room h < len + 1) (u_obstack_newchunk fns (len + 1)))
        (eseq (append_bytes xs) (append_bytes [0]))))"

definition obstack_1grow :: "chunk_fns \<Rightarrow> u8 \<Rightarrow> unit obc" where
  "obstack_1grow fns datum = ebind get_ob (\<lambda>h. eseq (ewhen (obstack_room h < 1) (u_obstack_newchunk fns 1)) (append_bytes [datum]))"

definition obstack_blank :: "chunk_fns \<Rightarrow> u64 \<Rightarrow> unit obc" where
  "obstack_blank fns len =
     ebind get_ob (\<lambda>h. eseq (ewhen (obstack_room h < len) (u_obstack_newchunk fns len)) (obstack_blank_fast len))"

definition obstack_finish :: "u64 obc" where
  "obstack_finish = ebind get_ob (\<lambda>h.
     let val = object_base h;
         aligned = PTR_ALIGN (object_base h) (next_free h) (alignment_mask h);
         nf = (if chunk_limit h - chunk h < aligned - chunk h then chunk_limit h else aligned) in
     eseq (ewhen (next_free h = val) (upd_ob (\<lambda>h. h\<lparr>maybe_empty_object := True\<rparr>)))
     (eseq (upd_ob (\<lambda>h. h\<lparr>next_free := nf, object_base := nf\<rparr>))
     (eret val)))"

definition obstack_alloc :: "chunk_fns \<Rightarrow> u64 \<Rightarrow> u64 obc" where
  "obstack_alloc fns len = eseq (obstack_blank fns len) obstack_finish"

definition obstack_copy :: "chunk_fns \<Rightarrow> u8 list \<Rightarrow> u64 obc" where
  "obstack_copy fns xs = eseq (obstack_grow fns xs) obstack_finish"

definition obstack_copy0 :: "chunk_fns \<Rightarrow> u8 list \<Rightarrow> u64 obc" where
  "obstack_copy0 fns xs = eseq (obstack_grow0 fns xs) obstack_finish"

definition obstack_free :: "u64 \<Rightarrow> unit obc" where
  "obstack_free obj = ebind get_ob (\<lambda>h.
     if chunk h < obj \<and> obj < chunk_limit h then upd_ob (\<lambda>h. h\<lparr>object_base := obj, next_free := obj\<rparr>)
     else u_obstack_free obj)"

end
