(* ===== verification/Neb_Obstack_Inv.thy ===== *)
theory Neb_Obstack_Inv
  imports Neb_Obstack
begin

text \<open>
  The invariant of an object stack: a chain of chunks, each a live block of the heap, with the finished objects in order below the growing one.
  Alignment, the size of a new chunk and its exact effect, growing and finishing an object.
\<close>

section \<open>Alignment\<close>

lemma unat_and_not_mask: "unat (x AND NOT (mask k) :: u64) = unat x div 2 ^ k * 2 ^ k"
proof -
  have e: "x AND NOT (mask k) = push_bit k (drop_bit k x)" by (rule bit_eqI) (auto simp: bit_simps)
  have "2 ^ k * (unat x div 2 ^ k) \<le> unat x" by simp
  also have "unat x < 2 ^ 64" using unsigned_less [of x] by simp
  finally show ?thesis by (simp add: e unat_push_bit_mult unat_drop_bit_div mult.commute)
qed

text \<open>Alignment in the lower half of the address space.\<close>

lemma unat_mask64: "k \<le> 62 \<Longrightarrow> unat (mask k :: u64) = 2 ^ k - 1"
proof -
  assume "k \<le> 62"
  then have "(2::nat) ^ k \<le> 2 ^ 62" using power_increasing [of k 62 "2::nat"] by simp
  then have m: "(2::nat) ^ k - 1 < 2 ^ 64" by simp
  have "(mask k :: u64) = of_nat (2 ^ k - 1)" by (simp add: mask_eq_exp_minus_1 of_nat_diff)
  then show ?thesis using m by (simp add: unat_of_nat del: of_nat_diff)
qed

lemma align_bounds:
  assumes "unat p \<le> 2 ^ 63 + 16" "k \<le> 62"
  shows "unat p \<le> unat (PTR_ALIGN b p (mask k))" "unat (PTR_ALIGN b p (mask k)) < unat p + 2 ^ k"
    and "PTR_ALIGN b p (mask k) AND mask k = 0"
proof -
  have k: "(2::nat) ^ k \<le> 2 ^ 62" using assms(2) power_increasing [of k 62 "2::nat"] by simp
  have s: "unat (p + mask k) = unat p + (2 ^ k - 1)"
    using assms k by (subst unat_add_no_wrap) (simp_all add: unat_mask64)
  have e: "unat (PTR_ALIGN b p (mask k)) = (unat p + (2 ^ k - 1)) div 2 ^ k * 2 ^ k"
    by (simp add: PTR_ALIGN_def BPTR_ALIGN_def unat_and_not_mask s)
  have "unat p + (2 ^ k - 1) < 2 ^ k + (unat p + (2 ^ k - 1)) div 2 ^ k * 2 ^ k" by (rule dividend_less_div_times) simp
  then show "unat p \<le> unat (PTR_ALIGN b p (mask k))" unfolding e by linarith
  have "(unat p + (2 ^ k - 1)) div 2 ^ k * 2 ^ k \<le> unat p + (2 ^ k - 1)" by (rule div_times_less_eq_dividend)
  then show "unat (PTR_ALIGN b p (mask k)) < unat p + 2 ^ k" using e by (metis One_nat_def Suc_pred add_Suc_right le_imp_less_Suc zero_less_numeral zero_less_power)
  show "PTR_ALIGN b p (mask k) AND mask k = 0"
    by (simp add: PTR_ALIGN_def BPTR_ALIGN_def and.assoc)
qed

section \<open>The heap\<close>

text \<open>What an allocator promises: a block it returns is not null, lies in the lower half of the address space, which is the part of a
  process on the supported systems, and does not meet a live block.\<close>

definition apart :: "u64 \<times> u64 \<Rightarrow> u64 \<times> u64 \<Rightarrow> bool" where
  "apart a b \<longleftrightarrow> unat (fst a) + unat (snd a) \<le> unat (fst b) \<or> unat (fst b) + unat (snd b) \<le> unat (fst a)"

definition fresh_block :: "(u64 \<times> u64) list \<Rightarrow> u64 \<times> u64 \<Rightarrow> bool" where
  "fresh_block bs b \<longleftrightarrow> fst b \<noteq> 0 \<and> snd b \<noteq> 0 \<and> unat (fst b) + unat (snd b) \<le> 2 ^ 63 \<and> list_all (apart b) bs"

fun heap_ok :: "(u64 \<times> u64) list \<Rightarrow> bool" where
  "heap_ok [] \<longleftrightarrow> True"
| "heap_ok (b # bs) \<longleftrightarrow> fresh_block bs b \<and> heap_ok bs"

definition good_chunkfun :: "((u64 \<times> u64) list \<Rightarrow> u64 \<Rightarrow> u64) \<Rightarrow> bool" where
  "good_chunkfun f \<longleftrightarrow> (\<forall>bs n. heap_ok bs \<and> n \<noteq> 0 \<longrightarrow> f bs n = 0 \<or> fresh_block bs (f bs n, n))"

definition good_fns :: "chunk_fns \<Rightarrow> bool" where
  "good_fns fns \<longleftrightarrow> good_chunkfun (chunkfun_plain fns) \<and> (\<forall>a. good_chunkfun (chunkfun_extra fns a))"

lemma apart_sym: "apart a b = apart b a" by (auto simp: apart_def)

lemma heap_ok_mem: "heap_ok bs \<Longrightarrow> (p, s) \<in> set bs \<Longrightarrow> p \<noteq> 0 \<and> s \<noteq> 0 \<and> unat p + unat s \<le> 2 ^ 63"
  by (induction bs) (auto simp: fresh_block_def)

lemma heap_ok_apart: "heap_ok bs \<Longrightarrow> a \<in> set bs \<Longrightarrow> b \<in> set bs \<Longrightarrow> a \<noteq> b \<Longrightarrow> apart a b"
  by (induction bs) (auto simp: fresh_block_def list_all_iff apart_sym)

lemma heap_ok_filter: "heap_ok bs \<Longrightarrow> heap_ok (filter P bs)"
  by (induction bs) (auto simp: fresh_block_def list_all_iff)

lemma unat_pos: "x \<noteq> 0 \<longleftrightarrow> 0 < unat (x :: 'a::len word)"
  by (simp add: unat_gt_0)

lemma heap_ok_same: "heap_ok bs \<Longrightarrow> (p, s) \<in> set bs \<Longrightarrow> (p, t) \<in> set bs \<Longrightarrow> s = t"
  using heap_ok_apart [of bs "(p, s)" "(p, t)"] heap_ok_mem [of bs p s] heap_ok_mem [of bs p t] by (auto simp: apart_def unat_pos)

section \<open>Bytes\<close>

lemma length_read_bytes [simp]: "length (read_bytes m a n) = n"
  by (simp add: read_bytes_def)

lemma read_bytes_add: "read_bytes m a (i + n) = read_bytes m a i @ read_bytes m (a + of_nat i) n"
  by (rule nth_equalityI) (auto simp: read_bytes_def nth_append)

text \<open>The distance of an address behind another one.\<close>

lemma unat_minus_word: "unat (x - a) = (if a \<le> x then unat x - unat a else 2 ^ 64 - unat a + unat x)" for x a :: u64
proof -
  have "unat a < 2 ^ 64" using unsigned_less [of a] by simp
  then show ?thesis using unat_sub_if' [of x a] by (auto simp: word_le_nat_alt)
qed

lemma put_bytes_same: "read_bytes (put_bytes a xs m) a (length xs) = xs" if "length xs < 2 ^ 64"
  using that by (auto simp: read_bytes_def put_bytes_def unat_of_nat intro!: nth_equalityI)

lemma put_bytes_other:
  assumes "unat a + length xs \<le> 2 ^ 64" "unat b + n \<le> 2 ^ 64" "unat b + n \<le> unat a \<or> unat a + length xs \<le> unat b"
  shows "read_bytes (put_bytes a xs m) b n = read_bytes m b n"
proof -
  have "\<not> unat (b + of_nat i - a) < length xs" if "i < n" for i
  proof -
    have u: "unat (b + of_nat i) = unat b + i" using that assms(2) by (subst unat_add_no_wrap) (simp_all add: unat_of_nat)
    then show ?thesis using that assms by (auto simp: unat_minus_word word_le_nat_alt)
  qed
  then show ?thesis by (simp add: read_bytes_def put_bytes_def)
qed

lemma put_bytes_fields [simp]: "blocks (put_bytes a xs m) = blocks m" "headers (put_bytes a xs m) = headers m"
  by (simp_all add: put_bytes_def)

section \<open>The invariant\<close>

text \<open>The chunks, newest first, each with its size and its finished objects, newest first.\<close>

type_synonym ob_stack = "(u64 \<times> u64 \<times> (u64 \<times> nat) list) list"

fun below :: "nat \<Rightarrow> nat \<Rightarrow> (u64 \<times> nat) list \<Rightarrow> bool" where
  "below st hi [] \<longleftrightarrow> st \<le> hi"
| "below st hi ((a, n) # os) \<longleftrightarrow> unat a + n \<le> hi \<and> below st (unat a) os"

definition first_object :: "nat \<Rightarrow> u64 \<Rightarrow> u64" where "first_object k c = PTR_ALIGN c (contents c) (mask k)"

definition aligned_in :: "nat \<Rightarrow> u64 \<Rightarrow> u64 \<Rightarrow> u64 \<Rightarrow> bool" where "aligned_in k c s a \<longleftrightarrow> a AND mask k = 0 \<or> a = c + s"

definition chunk_ok :: "nat \<Rightarrow> ob_mem \<Rightarrow> nat \<Rightarrow> u64 \<times> u64 \<times> (u64 \<times> nat) list \<Rightarrow> bool" where
  "chunk_ok k m hi ch \<longleftrightarrow> (case ch of (c, s, os) \<Rightarrow> (c, s) \<in> set (blocks m) \<and> limit (headers m c) = c + s \<and>
     below (unat (first_object k c)) hi os \<and> hi \<le> unat c + unat s \<and> (\<forall>(a, n) \<in> set os. aligned_in k c s a))"

fun chained :: "nat \<Rightarrow> ob_mem \<Rightarrow> u64 \<Rightarrow> ob_stack \<Rightarrow> bool" where
  "chained k m p [] \<longleftrightarrow> p = 0"
| "chained k m p ((c, s, os) # st) \<longleftrightarrow> p = c \<and> c \<notin> fst ` set st \<and> chunk_ok k m (unat c + unat s) (c, s, os) \<and> chained k m (prev (headers m c)) st"

definition ob_inv :: "nat \<Rightarrow> obstack \<times> ob_mem \<Rightarrow> ob_stack \<Rightarrow> bool" where
  "ob_inv k w st \<longleftrightarrow> (case w of (h, m) \<Rightarrow> k \<le> 62 \<and> heap_ok (blocks m) \<and> alignment_mask h = mask k \<and>
     (case st of [] \<Rightarrow> False | (c, s, os) # st' \<Rightarrow> c \<notin> fst ` set st' \<and> chunk h = c \<and> chunk_limit h = c + s \<and>
        chunk_ok k m (unat (object_base h)) (c, s, os) \<and> chained k m (prev (headers m c)) st' \<and>
        unat (object_base h) \<le> unat (next_free h) \<and> unat (next_free h) \<le> unat c + unat s \<and> aligned_in k c s (object_base h) \<and>
        (\<not> maybe_empty_object h \<longrightarrow> (\<forall>(a, n) \<in> set os. 0 < n))))"

definition objects :: "ob_stack \<Rightarrow> (u64 \<times> nat) list" where "objects st = concat (map (\<lambda>(c, s, os). os) st)"

definition current :: "obstack \<times> ob_mem \<Rightarrow> u8 list" where
  "current w = read_bytes (snd w) (object_base (fst w)) (unat (obstack_object_size (fst w)))"

lemma below_mono: "below st hi os \<Longrightarrow> hi \<le> hi' \<Longrightarrow> below st hi' os"
  by (cases "(st, hi, os)" rule: below.cases) auto

lemma below_mem: "below st hi os \<Longrightarrow> (a, n) \<in> set os \<Longrightarrow> st \<le> unat a \<and> unat a + n \<le> hi"
proof (induction st hi os rule: below.induct)
  case (2 st hi a' n' os)
  then show ?case
  proof (cases "(a, n) = (a', n')")
    case True
    have "st \<le> x" if "below st x os" for x using that by (induction st x os rule: below.induct) auto
    then show ?thesis using 2(2) True by auto
  qed auto
qed simp

lemma eruns_exit_abort: "eruns_exit print_and_abort w Q"
  by (simp add: eruns_exit_def print_and_abort_def efail_def)

lemma eruns_exit_ob: "eruns_exit get_ob w Q \<longleftrightarrow> Q (fst w) w" "eruns_exit (upd_ob f) w Q' \<longleftrightarrow> Q' () (f (fst w), snd w)"
  by (simp_all add: eruns_exit_def eruns_def get_ob_def upd_ob_def)

lemmas ob_run_simps = eruns_exit_simps eruns_exit_abort eruns_exit_ob

section \<open>A new chunk\<close>

lemma unat_lt64: "unat (x :: u64) < 18446744073709551616"
  using unsigned_less [of x] by simp

lemma le_add_no_wrap: "x \<le> x + y \<Longrightarrow> unat (x + y) = unat x + unat y" for x y :: u64
  using unat_plus_if' [of x y] unat_lt64 [of y] by (auto simp: word_le_nat_alt split: if_splits)

lemma newchunk_size_enough:
  assumes "obj \<le> obj + len" "obj + len \<le> obj + len + msk" "unat (newchunk_size obj len msk csize) \<le> 2 ^ 63" "unat obj \<le> 2 ^ 63"
  shows "116 + unat obj + unat len + unat msk \<le> 16 + unat (newchunk_size obj len msk csize)"
proof -
  let ?s = "obj + len + msk"
  have s: "unat ?s = unat obj + unat len + unat msk" using le_add_no_wrap [OF assms(1)] le_add_no_wrap [OF assms(2)] by simp
  define d where "d = drop_bit 3 obj + 100"
  have d: "unat d = unat obj div 8 + 100" "unat d \<le> 2 ^ 60 + 100"
  proof -
    have "unat (drop_bit 3 obj) = unat obj div 8" using unat_drop_bit_div [of 3 obj] by simp
    moreover have "unat obj div 8 \<le> 2 ^ 60" using assms(4) by simp
    ultimately show "unat d = unat obj div 8 + 100" unfolding d_def by (subst unat_add_no_wrap) simp_all
    then show "unat d \<le> 2 ^ 60 + 100" using \<open>unat obj div 8 \<le> 2 ^ 60\<close> by simp
  qed
  have need: "newchunk_size obj len msk csize = (let ns = ?s + d; ns = (if ns < ?s then ?s else ns) in if ns < csize then csize else ns)"
    by (simp add: newchunk_size_def d_def add.assoc Let_def)
  have "unat ?s \<le> unat (newchunk_size obj len msk csize)" unfolding need by (auto simp: Let_def word_less_nat_alt)
  then have "unat ?s + unat d < 2 ^ 64" using assms(3) d(2) by simp
  then have "unat (?s + d) = unat ?s + unat d" by (intro unat_add_no_wrap) simp
  then have "unat ?s + unat d \<le> unat (newchunk_size obj len msk csize)" unfolding need by (auto simp: Let_def word_less_nat_alt)
  then show ?thesis using s d(1) by simp
qed

lemma call_chunkfun_cases:
  assumes "good_fns fns" "heap_ok (blocks (snd w))" "sz \<noteq> 0"
  shows "\<exists>p. call_chunkfun fns sz w = Inr (p, (fst w, if p = 0 then snd w else (snd w)\<lparr>blocks := (p, sz) # blocks (snd w)\<rparr>)) \<and>
    (p = 0 \<or> fresh_block (blocks (snd w)) (p, sz))"
  using assms by (auto simp: call_chunkfun_def good_fns_def good_chunkfun_def Let_def)

lemma fresh_not_live: "heap_ok bs \<Longrightarrow> fresh_block bs (p, s) \<Longrightarrow> p \<notin> fst ` set bs"
  using heap_ok_mem [of bs p] by (force simp: fresh_block_def list_all_iff apart_def unat_pos)

lemma chained_live: "chained k m p st \<Longrightarrow> fst ` set st \<subseteq> fst ` set (blocks m)"
  by (induction k m p st rule: chained.induct) (auto simp: chunk_ok_def intro: rev_image_eqI)

text \<open>Changes of the memory that do not touch the chunks of a chain.\<close>

lemma chained_cong:
  assumes "chained k m p st" "\<And>c s os. (c, s, os) \<in> set st \<Longrightarrow> (c, s) \<in> set (blocks m) \<Longrightarrow> (c, s) \<in> set (blocks m')"
    and "\<And>c. c \<in> fst ` set st \<Longrightarrow> headers m' c = headers m c"
  shows "chained k m' p st"
  using assms by (induction k m p st rule: chained.induct) (auto simp: chunk_ok_def)

lemma contents_bound: "heap_ok bs \<Longrightarrow> (c, s) \<in> set bs \<Longrightarrow> unat (contents c) = unat c + 16 \<and> unat (contents c) \<le> 2 ^ 63 + 16"
  using heap_ok_mem [of bs c s] unat_add_no_wrap [of c 16] by (simp add: contents_def)

text \<open>What a step keeps: the finished objects with their contents, and the blocks of others.\<close>

definition others :: "ob_mem \<Rightarrow> ob_stack \<Rightarrow> (u64 \<times> u64) list" where "others m st = filter (\<lambda>b. fst b \<notin> fst ` set st) (blocks m)"

definition kept :: "ob_mem \<Rightarrow> ob_stack \<Rightarrow> ob_mem \<Rightarrow> ob_stack \<Rightarrow> bool" where
  "kept m st m' st' \<longleftrightarrow> objects st' = objects st \<and> others m' st' = others m st \<and>
     (\<forall>(a, n) \<in> set (objects st). read_bytes m' a n = read_bytes m a n) \<and>
     (\<forall>(q, t) \<in> set (others m st). read_bytes m' q (unat t) = read_bytes m q (unat t) \<and> headers m' q = headers m q)"

lemma chained_objects:
  assumes "chained k m p st" "(a, n) \<in> set (objects st)" "heap_ok (blocks m)" "k \<le> 62"
  shows "\<exists>c s. (c, s) \<in> set (blocks m) \<and> c \<in> fst ` set st \<and> unat c + 16 \<le> unat a \<and> unat a + n \<le> unat c + unat s"
  using assms
proof (induction k m p st rule: chained.induct)
  case (2 k m p c s os st)
  show ?case
  proof (cases "(a, n) \<in> set os")
    case True
    have c: "(c, s) \<in> set (blocks m)" "below (unat (first_object k c)) (unat c + unat s) os" using 2(2) by (auto simp: chunk_ok_def)
    have "unat (contents c) = unat c + 16" "unat (contents c) \<le> 2 ^ 63 + 16" using contents_bound [OF 2(4) c(1)] by simp_all
    then show ?thesis using True c below_mem [OF c(2) True] align_bounds(1) [of "contents c" k c] \<open>k \<le> 62\<close> 
      by (intro exI [of _ c] exI [of _ s]) (simp add: first_object_def)
  next
    case False
    then show ?thesis using 2 by (auto simp: objects_def)
  qed
qed (simp add: objects_def)

lemma put_bytes_apart:
  assumes "apart (p, s) (q, t)" "unat p + unat s \<le> 2 ^ 63" "unat q + unat t \<le> 2 ^ 63"
    and "unat p \<le> unat a" "unat a + length xs \<le> unat p + unat s" "unat q \<le> unat b" "unat b + n \<le> unat q + unat t"
  shows "read_bytes (put_bytes a xs m) b n = read_bytes m b n"
  using assms by (intro put_bytes_other) (auto simp: apart_def)

lemma newchunk_size_pos: "unat obj \<le> 2 ^ 63 \<Longrightarrow> newchunk_size obj len msk csize \<noteq> 0"
proof
  assume a: "unat obj \<le> 2 ^ 63" "newchunk_size obj len msk csize = 0"
  define d where "d = drop_bit 3 obj + 100"
  have "unat (drop_bit 3 obj) = unat obj div 8" using unat_drop_bit_div [of 3 obj] by simp
  then have "unat d = unat obj div 8 + 100" unfolding d_def using a(1) by (subst unat_add_no_wrap) simp_all
  then have "d \<noteq> 0" by (auto simp: unat_pos)
  moreover have "newchunk_size obj len msk csize = (let ns = obj + len + msk + d; ns = (if ns < obj + len + msk then obj + len + msk else ns) in if ns < csize then csize else ns)"
    by (simp add: newchunk_size_def d_def add.assoc Let_def)
  with a(2) have "d = 0" by (auto simp: Let_def word_neq_0_conv [symmetric] split: if_splits)
  ultimately show False by simp
qed

text \<open>Facts of the current chunk.\<close>

lemma ob_inv_cur:
  assumes "ob_inv k (h, m) ((c, s, os) # st)"
  shows "k \<le> 62" "heap_ok (blocks m)" "alignment_mask h = mask k" "(c, s) \<in> set (blocks m)" "c \<noteq> 0" "unat c + unat s \<le> 2 ^ 63"
    "unat (c + s) = unat c + unat s" "chunk h = c" "chunk_limit h = c + s" "unat c + 16 \<le> unat (first_object k c)"
    "unat (first_object k c) \<le> unat (object_base h)" "unat (object_base h) \<le> unat (next_free h)" "unat (next_free h) \<le> unat c + unat s"
    "unat (obstack_object_size h) = unat (next_free h) - unat (object_base h)" "unat (obstack_room h) = unat c + unat s - unat (next_free h)"
    "chained k m (prev (headers m c)) st" "c \<notin> fst ` set st" "below (unat (first_object k c)) (unat (object_base h)) os"
    "limit (headers m c) = c + s" "aligned_in k c s (object_base h)"
proof -
  show 1: "k \<le> 62" "heap_ok (blocks m)" "alignment_mask h = mask k" "(c, s) \<in> set (blocks m)" "chunk h = c" "chunk_limit h = c + s"
    "unat (object_base h) \<le> unat (next_free h)" "unat (next_free h) \<le> unat c + unat s" "chained k m (prev (headers m c)) st" "c \<notin> fst ` set st"
    "below (unat (first_object k c)) (unat (object_base h)) os" "limit (headers m c) = c + s" "aligned_in k c s (object_base h)"
    using assms by (auto simp: ob_inv_def chunk_ok_def)
  show 2: "c \<noteq> 0" "unat c + unat s \<le> 2 ^ 63" using heap_ok_mem [OF 1(2,4)] by simp_all
  show 3: "unat (c + s) = unat c + unat s" using 2(2) by (intro unat_add_no_wrap) simp
  show "unat c + 16 \<le> unat (first_object k c)"
    using align_bounds(1) [of "contents c" k c] contents_bound [OF 1(2,4)] 1(1) by (simp add: first_object_def)
  have "lo \<le> hi" if "below lo hi os" for lo hi using that by (induction lo hi os rule: below.induct) auto
  then show "unat (first_object k c) \<le> unat (object_base h)" using 1(11) by blast
  show "unat (obstack_object_size h) = unat (next_free h) - unat (object_base h)"
    using 1(7) by (simp add: obstack_object_size_def unat_minus_word word_le_nat_alt)
  show "unat (obstack_room h) = unat c + unat s - unat (next_free h)"
    using 1(6,8) 3 by (simp add: obstack_room_def unat_minus_word word_le_nat_alt)
qed

lemma ob_inv_split: "ob_inv k (h, m) st \<Longrightarrow> \<exists>c s os st'. st = (c, s, os) # st'"
  by (auto simp: ob_inv_def split: list.splits)

text \<open>A chunk that is not the current one any more.\<close>

lemma ob_inv_chained: "ob_inv k (h, m) st \<Longrightarrow> chained k m (chunk h) st"
proof -
  assume a: "ob_inv k (h, m) st"
  then obtain c s os st' where st: "st = (c, s, os) # st'" using ob_inv_split by blast
  note f = ob_inv_cur [OF a [unfolded st]]
  have "below (unat (first_object k c)) (unat c + unat s) os" using below_mono [OF f(18)] f(12,13) by simp
  then show ?thesis using a st by (simp add: ob_inv_def chunk_ok_def)
qed

lemma objects_Cons: "objects ((c, s, os) # st) = os @ objects st"
  by (simp add: objects_def)

lemma range_okI: "(p, s) \<in> set (blocks m) \<Longrightarrow> unat p + 16 \<le> unat a \<Longrightarrow> unat a + n \<le> unat p + unat s \<Longrightarrow> range_ok m a n"
  by (auto simp: range_ok_def list_ex_iff)

text \<open>The state behind \<open>u_obstack_newchunk\<close>, for the block \<open>p\<close> of \<open>ns\<close> bytes.\<close>

definition drops_old :: "nat \<Rightarrow> obstack \<Rightarrow> bool" where
  "drops_old k h \<longleftrightarrow> \<not> maybe_empty_object h \<and> object_base h = first_object k (chunk h)"

definition newchunk_ob :: "nat \<Rightarrow> u64 \<Rightarrow> u64 \<Rightarrow> obstack \<Rightarrow> obstack" where
  "newchunk_ob k p ns h = h\<lparr>chunk := p, chunk_limit := p + ns, object_base := first_object k p,
     next_free := first_object k p + obstack_object_size h, maybe_empty_object := False\<rparr>"

definition newchunk_mem :: "nat \<Rightarrow> u64 \<Rightarrow> u64 \<Rightarrow> obstack \<Rightarrow> ob_mem \<Rightarrow> ob_mem" where
  "newchunk_mem k p ns h m =
     (let xs = read_bytes m (object_base h) (unat (obstack_object_size h));
          bs = (p, ns) # blocks m in
      put_bytes (first_object k p) xs m
        \<lparr>blocks := (if drops_old k h then filter (\<lambda>b. fst b \<noteq> chunk h) bs else bs),
         headers := (headers m)(p := \<lparr>limit = p + ns, prev = if drops_old k h then prev (headers m (chunk h)) else chunk h\<rparr>)\<rparr>)"

lemma read_bytes_upd [simp]: "read_bytes (m\<lparr>blocks := bs\<rparr>) a n = read_bytes m a n" "read_bytes (m\<lparr>headers := hs\<rparr>) a n = read_bytes m a n"
  by (simp_all add: read_bytes_def)

lemma put_bytes_upd: "put_bytes a xs (m\<lparr>blocks := bs\<rparr>) = (put_bytes a xs m)\<lparr>blocks := bs\<rparr>" "put_bytes a xs (m\<lparr>headers := hs\<rparr>) = (put_bytes a xs m)\<lparr>headers := hs\<rparr>"
  by (simp_all add: put_bytes_def cong: if_cong)

lemma header_upd: "r\<lparr>prev := a, limit := b\<rparr> = \<lparr>limit = b, prev = a\<rparr>" "r\<lparr>limit := b, prev := a\<rparr> = \<lparr>limit = b, prev = a\<rparr>"
  for r :: obstack_chunk by (cases r; simp)+

lemma newchunk_eval:
  assumes "good_fns fns" "ob_inv k (h, m) ((c, s, os) # st)"
  shows "u_obstack_newchunk fns len (h, m) = Inl Exit \<or>
    (\<exists>p ns. fresh_block (blocks m) (p, ns) \<and> 16 + 2 ^ k + unat (obstack_object_size h) + unat len \<le> unat ns \<and>
      u_obstack_newchunk fns len (h, m) = Inr ((), (newchunk_ob k p ns h, newchunk_mem k p ns h m)))"
proof -
  note f = ob_inv_cur [OF assms(2)]
  define obj where "obj = obstack_object_size h"
  define ns where "ns = newchunk_size obj len (mask k) (chunk_size h)"
  have o: "unat obj \<le> 2 ^ 63" using f(6,13,14) by (simp add: obj_def)
  have ns0: "ns \<noteq> 0" unfolding ns_def by (rule newchunk_size_pos [OF o])
  show ?thesis
  proof (cases "obj \<le> obj + len \<and> obj + len \<le> obj + len + mask k")
    case True
    obtain p where p: "call_chunkfun fns ns (h, m) = Inr (p, (h, if p = 0 then m else m\<lparr>blocks := (p, ns) # blocks m\<rparr>))" "p = 0 \<or> fresh_block (blocks m) (p, ns)"
      using call_chunkfun_cases [OF assms(1), of "(h, m)" ns] f(2) ns0 by auto
    show ?thesis
    proof (cases "p = 0")
      case True
      then show ?thesis using p \<open>obj \<le> obj + len \<and> _\<close> f(3)
        by (simp add: u_obstack_newchunk_def Let_def obj_def obstack_object_size_def ns_def evm_simps get_ob_def print_and_abort_def)
    next
      case False
      then have fr: "fresh_block (blocks m) (p, ns)" using p(2) by blast
      have pn: "unat p + unat ns \<le> 2 ^ 63" using fr by (simp add: fresh_block_def)
      have en: "16 + 2 ^ k + unat obj + unat len \<le> unat ns"
        using newchunk_size_enough [of obj len "mask k" "chunk_size h"] True o pn unat_mask64 [OF f(1)] by (auto simp: ns_def)
      have pnl: "p \<notin> fst ` set (blocks m)" using fresh_not_live [OF f(2) fr] .
      have cl: "c \<in> fst ` set (blocks m)" using f(4) by force
      have pc: "p \<noteq> c" using pnl cl by blast
      have ct: "unat (contents p) = unat p + 16" using pn en by (simp add: contents_def unat_add_no_wrap)
      have fo: "unat p + 16 \<le> unat (first_object k p)" "unat (first_object k p) + unat obj \<le> unat p + unat ns"
        using align_bounds(1,2) [of "contents p" k p] f(1) pn en ct by (auto simp: first_object_def)
      have r1: "range_ok m' (object_base h) (unat obj)" if "blocks m' = (p, ns) # blocks m" for m'
        using that f by (intro range_okI [of c s]) (auto simp: obj_def)
      have r2: "range_ok m' (first_object k p) (unat obj)" if "blocks m' = (p, ns) # blocks m" for m'
        using that fo by (intro range_okI [of p ns]) auto
      have "u_obstack_newchunk fns len (h, m) = Inr ((), (newchunk_ob k p ns h, newchunk_mem k p ns h m))"
        using p(1) True False f(3,8) pc cl
        by (simp add: u_obstack_newchunk_def Let_def ns_def [symmetric] obj_def [symmetric] obstack_object_size_def [symmetric]
          evm_simps get_ob_def upd_ob_def upd_header_def get_header_def live_block_def call_freefun_def memcpy_bytes_def write_bytes_def first_object_def [symmetric] r1 r2
          drops_old_def newchunk_ob_def newchunk_mem_def put_bytes_upd header_upd)
      then show ?thesis using fr en by (auto simp: obj_def)
    qed
  next
    case False
    have "u_obstack_newchunk fns len (h, m) = Inl Exit"
      by (simp only: u_obstack_newchunk_def Let_def obstack_object_size_def [symmetric] obj_def [symmetric] evm_simps get_ob_def fst_conv f(3) False if_False)
        (simp add: evm_simps print_and_abort_def)
    then show ?thesis by blast
  qed
qed

lemma newchunk_inv:
  assumes inv: "ob_inv k (h, m) ((c, s, os) # st)" and fr: "fresh_block (blocks m) (p, ns)"
    and en: "16 + 2 ^ k + unat (obstack_object_size h) + len \<le> unat ns"
  defines "st' \<equiv> (p, ns, []) # (if drops_old k h then st else (c, s, os) # st)"
  shows "ob_inv k (newchunk_ob k p ns h, newchunk_mem k p ns h m) st'"
    and "len \<le> unat (obstack_room (newchunk_ob k p ns h))"
    and "obstack_object_size (newchunk_ob k p ns h) = obstack_object_size h"
    and "unat (first_object k p) + unat (obstack_object_size h) \<le> unat p + unat ns"
proof -
  note f = ob_inv_cur [OF inv]
  let ?m = "newchunk_mem k p ns h m" and ?o = "obstack_object_size h"
  have pn: "unat p + unat ns \<le> 2 ^ 63" "p \<noteq> 0" "ns \<noteq> 0" using fr by (simp_all add: fresh_block_def)
  have pnl: "p \<notin> fst ` set (blocks m)" using fresh_not_live [OF f(2) fr] .
  have chl: "fst ` set ((c, s, os) # st) \<subseteq> fst ` set (blocks m)" using chained_live [OF ob_inv_chained [OF inv]] .
  have ct: "unat (contents p) = unat p + 16" using pn en by (simp add: contents_def unat_add_no_wrap)
  have fo: "unat p + 16 \<le> unat (first_object k p)" "unat (first_object k p) + unat ?o + len \<le> unat p + unat ns" "first_object k p AND mask k = 0"
    using align_bounds [of "contents p" k p] f(1) pn en ct by (auto simp: first_object_def)
  have nf: "unat (first_object k p + ?o) = unat (first_object k p) + unat ?o" using fo(2) pn(1) by (intro unat_add_no_wrap) simp
  have lim: "unat (p + ns) = unat p + unat ns" using pn(1) by (intro unat_add_no_wrap) simp
  have hd: "headers ?m q = headers m q" if "q \<in> fst ` set (blocks m)" for q using that pnl by (auto simp: newchunk_mem_def Let_def)
  have blk: "(q, t) \<in> set (blocks ?m)" if "(q, t) \<in> set (blocks m)" "q \<noteq> c \<or> \<not> drops_old k h" for q t
    using that f(8) by (auto simp: newchunk_mem_def Let_def)
  have "heap_ok ((p, ns) # blocks m)" using fr f(2) by simp
  then have heap: "heap_ok (blocks ?m)"
    using heap_ok_filter [of "(p, ns) # blocks m" "\<lambda>b. fst b \<noteq> chunk h"] by (simp add: newchunk_mem_def Let_def)
  have pv: "prev (headers ?m p) = (if drops_old k h then prev (headers m c) else chunk h)" using f(8) by (simp add: newchunk_mem_def Let_def)
  have ch: "chained k ?m (prev (headers ?m p)) (if drops_old k h then st else (c, s, os) # st)"
  proof (cases "drops_old k h")
    case True
    have "chained k ?m (prev (headers m c)) st"
      using f(17) chl by (intro chained_cong [OF f(16)] blk hd) force+
    then show ?thesis using True by (simp only: pv if_True)
  next
    case False
    have "chained k ?m (chunk h) ((c, s, os) # st)"
      using False chl by (intro chained_cong [OF ob_inv_chained [OF inv]] blk hd) auto
    then show ?thesis using False by (simp only: pv if_False)
  qed
  have "(p, ns) \<in> set (blocks ?m)" using pnl chl f(8) by (auto simp: newchunk_mem_def Let_def)
  moreover have "limit (headers ?m p) = p + ns" by (simp add: newchunk_mem_def Let_def)
  moreover have "p \<notin> fst ` set (if drops_old k h then st else (c, s, os) # st)" using pnl chl by auto
  ultimately show "ob_inv k (newchunk_ob k p ns h, newchunk_mem k p ns h m) st'"
    using f(1,3) heap ch fo nf pn lim unfolding st'_def
    by (simp add: ob_inv_def chunk_ok_def newchunk_ob_def aligned_in_def)
  show "len \<le> unat (obstack_room (newchunk_ob k p ns h))" using fo(2) nf lim by (simp add: obstack_room_def newchunk_ob_def unat_minus_word word_le_nat_alt)
  show "obstack_object_size (newchunk_ob k p ns h) = obstack_object_size h" by (simp add: obstack_object_size_def newchunk_ob_def)
  show "unat (first_object k p) + unat (obstack_object_size h) \<le> unat p + unat ns" using fo(2) by simp
qed

lemma newchunk_kept:
  assumes inv: "ob_inv k (h, m) ((c, s, os) # st)" and fr: "fresh_block (blocks m) (p, ns)"
    and en: "16 + 2 ^ k + unat (obstack_object_size h) + len \<le> unat ns"
  shows "kept m ((c, s, os) # st) (newchunk_mem k p ns h m) ((p, ns, []) # (if drops_old k h then st else (c, s, os) # st))"
    and "current (newchunk_ob k p ns h, newchunk_mem k p ns h m) = current (h, m)"
proof -
  note f = ob_inv_cur [OF inv]
  let ?m = "newchunk_mem k p ns h m" and ?o = "obstack_object_size h" and ?st = "(c, s, os) # st"
  have pn: "unat p + unat ns \<le> 2 ^ 63" "list_all (apart (p, ns)) (blocks m)" using fr by (simp_all add: fresh_block_def)
  have pnl: "p \<notin> fst ` set (blocks m)" using fresh_not_live [OF f(2) fr] .
  have chl: "fst ` set ?st \<subseteq> fst ` set (blocks m)" using chained_live [OF ob_inv_chained [OF inv]] .
  have ct: "unat (contents p) = unat p + 16" using pn en by (simp add: contents_def unat_add_no_wrap)
  have fo: "unat p \<le> unat (first_object k p)" "unat (first_object k p) + unat ?o \<le> unat p + unat ns"
    using align_bounds(1,2) [of "contents p" k p] f(1) pn en ct by (auto simp: first_object_def)
  have rd: "read_bytes ?m a n = read_bytes m a n" if "(q, t) \<in> set (blocks m)" "unat q \<le> unat a" "unat a + n \<le> unat q + unat t" for a n q t
  proof -
    have "apart (p, ns) (q, t)" "unat q + unat t \<le> 2 ^ 63" using that pn(2) heap_ok_mem [OF f(2) that(1)] by (auto simp: list_all_iff)
    from put_bytes_apart [OF this(1) pn(1) this(2) fo(1) _ that(2,3)] fo(2) show ?thesis by (simp add: newchunk_mem_def Let_def)
  qed
  have os: "os = []" if "drops_old k h"
  proof (rule ccontr)
    assume "os \<noteq> []"
    then obtain a n where a: "(a, n) \<in> set os" by (cases os) auto
    have "object_base h = first_object k c" "0 < n" using that inv f(8) a by (auto simp: drops_old_def ob_inv_def)
    then show False using below_mem [OF f(18) a] by simp
  qed
  have "objects ((p, ns, []) # (if drops_old k h then st else ?st)) = objects ?st" using os by (auto simp: objects_Cons)
  moreover have "others ?m ((p, ns, []) # (if drops_old k h then st else ?st)) = others m ?st"
    using pnl chl f(8,17) by (auto simp: others_def newchunk_mem_def Let_def intro!: filter_cong)
  moreover have "read_bytes ?m a n = read_bytes m a n" if "(a, n) \<in> set (objects ?st)" for a n
    using chained_objects [OF ob_inv_chained [OF inv] that f(2,1)] rd by fastforce
  moreover have "read_bytes ?m q (unat t) = read_bytes m q (unat t) \<and> headers ?m q = headers m q" if "(q, t) \<in> set (others m ?st)" for q t
    using that rd [of q t q "unat t"] pnl by (force simp: others_def newchunk_mem_def Let_def)
  ultimately show "kept m ?st ?m ((p, ns, []) # (if drops_old k h then st else ?st))" unfolding kept_def by blast
  have "length (read_bytes m (object_base h) (unat ?o)) = unat ?o" by simp
  then show "current (newchunk_ob k p ns h, ?m) = current (h, m)"
    using put_bytes_same [of "read_bytes m (object_base h) (unat ?o)" "first_object k p" m] unat_lt64 [of ?o] newchunk_inv(3) [OF inv fr en]
    by (simp add: current_def newchunk_mem_def Let_def newchunk_ob_def)
qed

section \<open>Growing an object\<close>

lemma kept_refl: "kept m st m st" by (auto simp: kept_def)

lemma kept_trans: "kept m st m' st' \<Longrightarrow> kept m' st' m'' st'' \<Longrightarrow> kept m st m'' st''"
  unfolding kept_def by fastforce

definition grown :: "nat \<Rightarrow> obstack \<times> ob_mem \<Rightarrow> ob_stack \<Rightarrow> obstack \<times> ob_mem \<Rightarrow> ob_stack \<Rightarrow> u8 list \<Rightarrow> bool" where
  "grown k w st w' st' xs \<longleftrightarrow> ob_inv k w' st' \<and> kept (snd w) st (snd w') st' \<and> current w' = current w @ xs"

lemma room_ok:
  assumes "good_fns fns" "ob_inv k w st"
  shows "eruns_exit (ewhen (obstack_room (fst w) < len) (u_obstack_newchunk fns len)) w
    (\<lambda>_ w'. \<exists>st'. grown k w st w' st' [] \<and> unat len \<le> unat (obstack_room (fst w')))"
proof -
  obtain h m where w: "w = (h, m)" by (cases w)
  obtain c s os st0 where st: "st = (c, s, os) # st0" using ob_inv_split assms(2) w by blast
  note inv = assms(2) [unfolded w st]
  have "eruns_exit (u_obstack_newchunk fns len) w (\<lambda>_ w'. \<exists>st'. grown k w st w' st' [] \<and> unat len \<le> unat (obstack_room (fst w')))"
    using newchunk_eval [OF assms(1) inv, of len]
  proof (elim disjE exE conjE)
    fix p ns
    assume a: "fresh_block (blocks m) (p, ns)" "16 + 2 ^ k + unat (obstack_object_size h) + unat len \<le> unat ns"
      "u_obstack_newchunk fns len (h, m) = Inr ((), (newchunk_ob k p ns h, newchunk_mem k p ns h m))"
    have "grown k w st (newchunk_ob k p ns h, newchunk_mem k p ns h m) ((p, ns, []) # (if drops_old k h then st0 else (c, s, os) # st0)) []"
      using newchunk_inv(1) [OF inv a(1,2)] newchunk_kept [OF inv a(1,2)] by (simp add: grown_def w st)
    then show ?thesis using newchunk_inv(2) [OF inv a(1,2)] a(3) by (auto simp: eruns_exit_def eruns_def w)
  qed (simp add: eruns_exit_def w)
  moreover have "grown k w st w st []" using assms(2) by (simp add: grown_def kept_refl)
  ultimately show ?thesis by (auto simp: eruns_exit_ewhen word_less_nat_alt)
qed

lemma cur_other_bytes:
  assumes "ob_inv k (h, m) ((c, s, os) # st)" "unat a + length xs \<le> unat c + unat s" "unat (object_base h) \<le> unat a"
  shows "kept m ((c, s, os) # st) (put_bytes a xs m) ((c, s, os) # st)"
proof -
  note f = ob_inv_cur [OF assms(1)]
  have len: "unat a + length xs \<le> 2 ^ 64" using assms(2) f(6) by simp
  have out: "read_bytes (put_bytes a xs m) b n = read_bytes m b n"
    if "(q, t) \<in> set (blocks m)" "q \<noteq> c" "unat q \<le> unat b" "unat b + n \<le> unat q + unat t" for q t b n
  proof -
    have "apart (c, s) (q, t)" "unat q + unat t \<le> 2 ^ 63" using heap_ok_apart [OF f(2,4) that(1)] heap_ok_mem [OF f(2) that(1)] that(2) by auto
    from put_bytes_apart [OF this(1) f(6) this(2) _ assms(2) that(3,4)] show ?thesis using f(10,11) assms(3) by simp
  qed
  have "read_bytes (put_bytes a xs m) b n = read_bytes m b n" if "(b, n) \<in> set os" for b n
    using below_mem [OF f(18) that] assms(3) f(6,12,13) by (intro put_bytes_other [OF len]) auto
  moreover have "read_bytes (put_bytes a xs m) b n = read_bytes m b n" if mem: "(b, n) \<in> set (objects st)" for b n
  proof -
    obtain q t where q: "(q, t) \<in> set (blocks m)" "q \<in> fst ` set st" "unat q + 16 \<le> unat b" "unat b + n \<le> unat q + unat t"
      using chained_objects [OF f(16) mem f(2,1)] by blast
    then have "q \<noteq> c" using f(17) by blast
    then show ?thesis using out [OF q(1)] q by simp
  qed
  moreover have "read_bytes (put_bytes a xs m) q (unat t) = read_bytes m q (unat t)" if "(q, t) \<in> set (others m ((c, s, os) # st))" for q t
    using that out [of q t q "unat t"] by (force simp: others_def)
  ultimately show ?thesis by (auto simp: kept_def others_def objects_Cons)
qed

lemma ob_inv_bytes: "ob_inv k (h, put_bytes a xs m) st = ob_inv k (h, m) st"
proof -
  have "chained k (put_bytes a xs m) p st = chained k m p st" for p st
    by (induction k m p st rule: chained.induct) (auto simp: chunk_ok_def)
  then show ?thesis by (auto simp: ob_inv_def chunk_ok_def split: list.splits)
qed

lemma ob_inv_advance:
  assumes "ob_inv k (h, m) st" "unat n \<le> unat (obstack_room h)"
  shows "ob_inv k (h\<lparr>next_free := next_free h + n\<rparr>, m) st" "current (h\<lparr>next_free := next_free h + n\<rparr>, m) = current (h, m) @ read_bytes m (next_free h) (unat n)"
    "unat (obstack_room (h\<lparr>next_free := next_free h + n\<rparr>)) = unat (obstack_room h) - unat n"
proof -
  obtain c s os st' where st: "st = (c, s, os) # st'" using ob_inv_split assms(1) by blast
  note f = ob_inv_cur [OF assms(1) [unfolded st]]
  have nf: "unat (next_free h + n) = unat (next_free h) + unat n" using assms(2) f by (intro unat_add_no_wrap) simp
  show 1: "ob_inv k (h\<lparr>next_free := next_free h + n\<rparr>, m) st" using assms f(13,15) nf unfolding st by (simp add: ob_inv_def)
  note g = ob_inv_cur [OF 1 [unfolded st]]
  have "object_base h + of_nat (unat (obstack_object_size h)) = next_free h" by (simp add: obstack_object_size_def)
  moreover have "unat (obstack_object_size (h\<lparr>next_free := next_free h + n\<rparr>)) = unat (obstack_object_size h) + unat n" using f(12,14) g(14) nf by simp
  ultimately show "current (h\<lparr>next_free := next_free h + n\<rparr>, m) = current (h, m) @ read_bytes m (next_free h) (unat n)"
    using read_bytes_add [of m "object_base h" "unat (obstack_object_size h)" "unat n"] by (simp add: current_def)
  show "unat (obstack_room (h\<lparr>next_free := next_free h + n\<rparr>)) = unat (obstack_room h) - unat n" using f(15) g(15) nf by simp
qed

lemma append_ok:
  assumes "ob_inv k w st" "length xs \<le> unat (obstack_room (fst w))"
  shows "\<exists>w'. append_bytes xs w = Inr ((), w') \<and> grown k w st w' st xs \<and> unat (obstack_room (fst w')) = unat (obstack_room (fst w)) - length xs"
proof -
  obtain h m where w: "w = (h, m)" by (cases w)
  obtain c s os st' where st: "st = (c, s, os) # st'" using ob_inv_split assms(1) w by blast
  note f = ob_inv_cur [OF assms(1) [unfolded w st]]
  let ?m = "put_bytes (next_free h) xs m" and ?n = "of_nat (length xs) :: u64"
  have n: "unat ?n = length xs" using assms(2) unat_lt64 [of "obstack_room h"] by (simp add: unat_of_nat w)
  have fit: "unat (next_free h) + length xs \<le> unat c + unat s" using assms(2) f(13,15) by (simp add: w)
  have r: "range_ok m (next_free h) (length xs)" using fit f by (intro range_okI [OF f(4)]) auto
  have i: "ob_inv k (h, ?m) st" "unat ?n \<le> unat (obstack_room h)" using assms n by (simp_all add: w ob_inv_bytes)
  have kp: "kept m st ?m st" unfolding st using assms(1) fit f(12) by (intro cur_other_bytes) (simp_all add: w st)
  have cu: "current (h, ?m) = current (h, m)"
    using f(6,12,13,14) fit by (auto simp: current_def intro!: put_bytes_other)
  have "append_bytes xs w = Inr ((), (h\<lparr>next_free := next_free h + ?n\<rparr>, ?m))"
    using r by (simp add: append_bytes_def evm_simps get_ob_def w write_bytes_def obstack_blank_fast_def upd_ob_def)
  moreover have "grown k w st (h\<lparr>next_free := next_free h + ?n\<rparr>, ?m) st xs"
    using ob_inv_advance(1,2) [OF i] kp cu n put_bytes_same [of xs "next_free h" m] fit f(6) by (simp add: grown_def w)
  ultimately show ?thesis using ob_inv_advance(3) [OF i] n by (auto simp: w)
qed

section \<open>Finishing an object\<close>

lemma finish_ok:
  assumes "ob_inv k (h, m) ((c, s, os) # st)"
  shows "\<exists>h'. obstack_finish (h, m) = Inr (object_base h, (h', m)) \<and> obstack_object_size h' = 0 \<and>
    ob_inv k (h', m) ((c, s, (object_base h, unat (obstack_object_size h)) # os) # st)"
proof -
  note f = ob_inv_cur [OF assms]
  define al where "al = PTR_ALIGN (object_base h) (next_free h) (mask k)"
  have al: "unat (next_free h) \<le> unat al" "al AND mask k = 0"
    using align_bounds [of "next_free h" k "object_base h"] f(1,6,13) by (simp_all add: al_def)
  define nf where "nf = (if chunk_limit h - chunk h < al - chunk h then chunk_limit h else al)"
  have cal: "c \<le> al" using al(1) f(10,11,12) by (simp add: word_le_nat_alt)
  have "unat (al - c) = unat al - unat c" using cal by (simp add: unat_minus_word)
  moreover have "c + s - c = s" by simp
  ultimately have nf: "unat (next_free h) \<le> unat nf" "unat nf \<le> unat c + unat s" "aligned_in k c s nf"
    using al f(7,13) cal by (auto simp: nf_def f(8,9) aligned_in_def word_less_nat_alt word_le_nat_alt split: if_splits)
  let ?h = "h\<lparr>next_free := nf, object_base := nf, maybe_empty_object := maybe_empty_object h \<or> next_free h = object_base h\<rparr>"
  have "obstack_finish (h, m) = Inr (object_base h, (?h, m))"
    by (cases "next_free h = object_base h")
      (simp_all add: obstack_finish_def Let_def evm_simps get_ob_def upd_ob_def nf_def al_def f(3))
  moreover have "ob_inv k (?h, m) ((c, s, (object_base h, unat (obstack_object_size h)) # os) # st)"
    using assms nf f unfolding ob_inv_def chunk_ok_def by (auto simp: word_unat_eq_iff)
  ultimately show ?thesis by (intro exI [of _ ?h]) (simp add: obstack_object_size_def)
qed

lemma kept_objects: "kept m st m' st' \<Longrightarrow> objects st' = objects st" by (simp add: kept_def)

end
