(* ===== verification/Neb_Obstack_Free.thy ===== *)
theory Neb_Obstack_Free
  imports Neb_Obstack_Inv
begin

text \<open>
  The walks over the chunks of an object stack: releasing objects, releasing everything, memory in use, and the creation of a stack.
\<close>

section \<open>Releasing objects\<close>

lemma objects_append: "objects (xs @ ys) = objects xs @ objects ys" by (simp add: objects_def)

lemma objects_at:
  "i < length (objects st) \<Longrightarrow> \<exists>pre c s os1 os2 st2. st = pre @ (c, s, os1 @ objects st ! i # os2) # st2 \<and>
     drop (Suc i) (objects st) = os2 @ objects st2"
proof (induction st arbitrary: i)
  case (Cons ch st)
  obtain c s os where ch: "ch = (c, s, os)" by (cases ch)
  show ?case
  proof (cases "i < length os")
    case True
    then have "os = take i os @ os ! i # drop (Suc i) os" by (rule id_take_nth_drop)
    then show ?thesis using True unfolding ch
      by (intro exI [of _ "[]"] exI [of _ c] exI [of _ s] exI [of _ "take i os"] exI [of _ "drop (Suc i) os"] exI [of _ st]) (simp add: objects_Cons nth_append)
  next
    case False
    then have "i - length os < length (objects st)" using Cons.prems by (simp add: ch objects_Cons)
    from Cons.IH [OF this] obtain pre c' s' os1 os2 st2
      where e: "st = pre @ (c', s', os1 @ objects st ! (i - length os) # os2) # st2" "drop (Suc (i - length os)) (objects st) = os2 @ objects st2" by blast
    have "Suc i - length os = Suc (i - length os)" using False by simp
    then show ?thesis using e False unfolding ch
      by (intro exI [of _ "(c, s, os) # pre"] exI [of _ c'] exI [of _ s'] exI [of _ os1] exI [of _ os2] exI [of _ st2]) (simp add: objects_Cons nth_append)
  qed
qed (simp add: objects_def)

lemma chained_drop: "chained k m p (pre @ st) \<Longrightarrow> \<exists>q. chained k m q st"
  by (induction pre arbitrary: p) (auto split: prod.splits)

text \<open>The walk over the chunks releases those in front of the one that holds the address.\<close>

definition without :: "u64 set \<Rightarrow> ob_mem \<Rightarrow> ob_mem" where "without S m = m\<lparr>blocks := filter (\<lambda>b. fst b \<notin> S) (blocks m)\<rparr>"

lemma chunk_not_at:
  assumes "heap_ok bs" "(c, s) \<in> set bs" "(c', s') \<in> set bs" "c \<noteq> c'" "unat c < unat a" "unat a \<le> unat c + unat s"
  shows "a \<le> c' \<or> c' + s' < a"
proof -
  have "unat (c' + s') = unat c' + unat s'" using heap_ok_mem [OF assms(1,3)] by (intro unat_add_no_wrap) simp
  then show ?thesis using heap_ok_apart [OF assms(1-3)] assms(4-) by (auto simp: apart_def word_le_nat_alt word_less_nat_alt)
qed

lemma chained_without:
  assumes "chained k m p st" "fst ` set st \<inter> S = {}"
  shows "chained k (without S m) p st"
  by (rule chained_cong [OF assms(1)]) (use assms(2) in \<open>force simp: without_def\<close>)+

lemma free_walk_ok:
  assumes "chained k m p (pre @ (c, s, os) # st)" "heap_ok (blocks m)" "length pre < fuel" "unat c < unat a" "unat a \<le> unat c + unat s"
  shows "free_walk fuel p a (h, m) = Inr (c, (h\<lparr>maybe_empty_object := maybe_empty_object h \<or> pre \<noteq> []\<rparr>, without (fst ` set pre) m))"
  using assms
proof (induction pre arbitrary: p m fuel h)
  case Nil
  then obtain fuel' where "fuel = Suc fuel'" by (cases fuel) auto
  moreover have c: "(c, s) \<in> set (blocks m)" "limit (headers m c) = c + s" "p = c" using Nil by (auto simp: chunk_ok_def)
  moreover have "unat (c + s) = unat c + unat s" "c \<noteq> 0" using heap_ok_mem [OF Nil(2) c(1)] by (auto intro: unat_add_no_wrap)
  moreover have "live_block m c" using c(1) by (force simp: live_block_def)
  ultimately show ?case using Nil(4,5) by (simp add: evm_simps get_header_def without_def word_le_nat_alt word_less_nat_alt)
next
  case (Cons ch pre)
  obtain c' s' os' where ch: "ch = (c', s', os')" by (cases ch)
  obtain fuel' where fu: "fuel = Suc fuel'" using Cons.prems(3) by (cases fuel) auto
  have c': "(c', s') \<in> set (blocks m)" "limit (headers m c') = c' + s'" "p = c'" "c' \<notin> fst ` set (pre @ (c, s, os) # st)"
    "chained k m (prev (headers m c')) (pre @ (c, s, os) # st)" using Cons.prems(1) by (auto simp: ch chunk_ok_def)
  have "(c, s) \<in> set (blocks m)" using chained_drop [OF c'(5)] by (auto simp: chunk_ok_def)
  then have at: "a \<le> c' \<or> c' + s' < a" using chunk_not_at [OF Cons.prems(2) _ c'(1) _ Cons.prems(4,5)] c'(4) by auto
  have c0: "c' \<noteq> 0" using heap_ok_mem [OF Cons.prems(2) c'(1)] by simp
  have lv: "live_block m c'" using c'(1) by (force simp: live_block_def)
  let ?m = "without {c'} m"
  have "free_walk fuel' (prev (headers m c')) a (h\<lparr>maybe_empty_object := True\<rparr>, ?m) =
      Inr (c, (h\<lparr>maybe_empty_object := True\<rparr>, without (fst ` set pre) ?m))"
    using Cons.IH [of ?m "prev (headers m c')" fuel' "h\<lparr>maybe_empty_object := True\<rparr>"] Cons.prems chained_without [OF c'(5), of "{c'}"] c'(4) fu
    by (auto simp: heap_ok_filter without_def)
  moreover have "without (fst ` set pre) ?m = without (fst ` set (ch # pre)) m"
    by (auto simp: without_def ch intro!: arg_cong [of _ _ "\<lambda>b. m\<lparr>blocks := b\<rparr>"] filter_cong)
  moreover have "call_freefun c' w = Inr ((), (fst w, without {c'} (snd w)))" if "live_block (snd w) c'" for w
    using that by (simp add: call_freefun_def without_def)
  ultimately show ?case using at lv c' c0 fu by (simp add: evm_simps get_header_def upd_ob_def)
qed

lemma chained_distinct: "chained k m p st \<Longrightarrow> distinct (map fst st)"
  by (induction k m p st rule: chained.induct) auto

lemma chain_length: "chained k m p st \<Longrightarrow> length st \<le> length (blocks m)"
proof -
  assume a: "chained k m p st"
  have "length st = card (fst ` set st)" using chained_distinct [OF a] by (metis distinct_card length_map set_map)
  also have "\<dots> \<le> card (fst ` set (blocks m))" by (rule card_mono [OF _ chained_live [OF a]]) simp
  also have "\<dots> \<le> length (blocks m)" by (metis card_length le_trans length_map set_map)
  finally show ?thesis .
qed

lemma chained_tail_inv:
  assumes inv: "ob_inv k (h, m) (pre @ (c, s, os1 @ (a, n) # os2) # st)"
    and me: "maybe_empty_object h' \<or> (pre = [] \<and> \<not> maybe_empty_object h)"
    and h': "alignment_mask h' = mask k" "chunk h' = c" "chunk_limit h' = c + s" "object_base h' = a" "next_free h' = a"
  shows "ob_inv k (h', without (fst ` set pre) m) ((c, s, os2) # st)"
proof -
  obtain q where "chained k m q ((c, s, os1 @ (a, n) # os2) # st)" using chained_drop [OF ob_inv_chained [OF inv]] by blast
  then have ch: "chunk_ok k m (unat c + unat s) (c, s, os1 @ (a, n) # os2)" "chained k m (prev (headers m c)) st" "c \<notin> fst ` set st" by auto
  have b: "(c, s) \<in> set (blocks m)" "limit (headers m c) = c + s" "\<forall>(a, n) \<in> set (os1 @ (a, n) # os2). aligned_in k c s a"
    and bl: "below (unat (first_object k c)) (unat c + unat s) (os1 @ (a, n) # os2)" using ch(1) by (auto simp: chunk_ok_def)
  have "below lo hi (os1 @ (a, n) # os2) \<Longrightarrow> unat a + n \<le> hi \<and> below lo (unat a) os2" for lo hi
    by (induction os1 arbitrary: hi) (fastforce split: prod.splits)+
  from this [OF bl] have bl2: "unat a + n \<le> unat c + unat s" "below (unat (first_object k c)) (unat a) os2" by auto
  have di: "distinct (map fst (pre @ (c, s, os1 @ (a, n) # os2) # st))"
    by (rule chained_distinct [OF ob_inv_chained [OF inv]])
  then have "fst ` set st \<inter> fst ` set pre = {}" "c \<notin> fst ` set pre" by auto
  moreover have "k \<le> 62" "heap_ok (blocks m)" using inv by (auto simp: ob_inv_def)
  moreover have "\<forall>(a, n) \<in> set os2. 0 < n" if "\<not> maybe_empty_object h'" using inv me that by (auto simp: ob_inv_def)
  ultimately show ?thesis using ch b bl2 h' chained_without [OF ch(2), of "fst ` set pre"] heap_ok_filter [of "blocks m"]
    by (auto simp: ob_inv_def chunk_ok_def without_def)
qed

lemma obstack_free_ok:
  assumes inv: "ob_inv k (h, m) st" and i: "i < length (objects st)" "objects st ! i = (a, n)"
  shows "\<exists>h' m' st'. obstack_free a (h, m) = Inr ((), (h', m')) \<and> ob_inv k (h', m') st' \<and> objects st' = drop (Suc i) (objects st) \<and>
    bytes m' = bytes m \<and> headers m' = headers m \<and> others m' st' = others m st \<and> obstack_object_size h' = 0"
proof -
  obtain pre c s os1 os2 st2 where st: "st = pre @ (c, s, os1 @ (a, n) # os2) # st2" "drop (Suc i) (objects st) = os2 @ objects st2"
    using objects_at [OF i(1)] i(2) by auto
  note ch = ob_inv_chained [OF inv, unfolded st(1)]
  obtain c0 s0 os0 st0 where c0: "st = (c0, s0, os0) # st0" using ob_inv_split [OF inv] by blast
  note f = ob_inv_cur [OF inv [unfolded c0]]
  obtain q where "chained k m q ((c, s, os1 @ (a, n) # os2) # st2)" using chained_drop [OF ch] by blast
  then have cs: "(c, s) \<in> set (blocks m)" "limit (headers m c) = c + s"
    and bl: "below (unat (first_object k c)) (unat c + unat s) (os1 @ (a, n) # os2)" by (auto simp: chunk_ok_def)
  have fo: "unat c + 16 \<le> unat (first_object k c)"
    using align_bounds(1) [of "contents c" k c] contents_bound [OF f(2) cs(1)] f(1) by (simp add: first_object_def)
  have a: "unat c < unat a" "unat a \<le> unat c + unat s" using below_mem [OF bl, of a n] fo by auto
  have lim: "unat (c + s) = unat c + unat s" "c \<noteq> 0" using heap_ok_mem [OF f(2) cs(1)] by (auto intro: unat_add_no_wrap)
  have oth: "others (without (fst ` set pre) m) ((c, s, os2) # st2) = others m st"
    unfolding st(1) by (auto simp: others_def without_def intro!: filter_cong)
  show ?thesis
  proof (cases "chunk h < a \<and> a < chunk_limit h")
    case True
    have "c = c0"
    proof (rule ccontr)
      assume "c \<noteq> c0"
      then have "a \<le> c0 \<or> c0 + s0 < a" by (rule chunk_not_at [OF f(2) cs(1) f(4) _ a])
      then show False using True f(8,9) by auto
    qed
    have pre: "pre = []"
    proof (rule ccontr)
      assume "pre \<noteq> []"
      then have "c0 \<in> fst ` set pre" using c0 st(1) by (cases pre) auto
      moreover have "distinct (map fst st)" by (rule chained_distinct [OF ob_inv_chained [OF inv]])
      ultimately show False using \<open>c = c0\<close> st(1) by auto
    qed
    let ?h = "h\<lparr>object_base := a, next_free := a\<rparr>"
    have "s = s0" using pre st(1) c0 by simp
    have "ob_inv k (?h, without (fst ` set pre) m) ((c, s, os2) # st2)"
      using pre \<open>c = c0\<close> \<open>s = s0\<close> f(3,8,9) by (intro chained_tail_inv [OF inv [unfolded st(1)]]) auto
    moreover have "without (fst ` set pre) m = m" by (simp add: without_def pre)
    moreover have "obstack_free a (h, m) = Inr ((), (?h, m))" using True by (simp add: obstack_free_def evm_simps get_ob_def upd_ob_def)
    ultimately show ?thesis using st(2) oth by (intro exI [of _ ?h] exI [of _ m] exI [of _ "(c, s, os2) # st2"]) (simp add: objects_Cons obstack_object_size_def)
  next
    case False
    let ?h = "h\<lparr>maybe_empty_object := maybe_empty_object h \<or> pre \<noteq> [], object_base := a, next_free := a, chunk_limit := c + s, chunk := c\<rparr>"
    let ?m = "without (fst ` set pre) m"
    have "length pre < Suc (length (blocks m))" using chain_length [OF ch] by simp
    from free_walk_ok [OF ch f(2) this a] have w: "free_walk (Suc (length (blocks m))) (chunk h) a (h, m) =
      Inr (c, h\<lparr>maybe_empty_object := maybe_empty_object h \<or> pre \<noteq> []\<rparr>, ?m)" .
    have iv: "ob_inv k (?h, ?m) ((c, s, os2) # st2)" using f(3) by (intro chained_tail_inv [OF inv [unfolded st(1)]]) auto
    have "live_block ?m c" using ob_inv_cur(4) [OF iv] by (force simp: live_block_def)
    moreover have "limit (headers ?m c) = c + s" using cs(2) by (simp add: without_def)
    ultimately have "u_obstack_free a (h, m) = Inr ((), (?h, ?m))"
      using w lim by (simp add: u_obstack_free_def evm_simps get_ob_def upd_ob_def walk_fuel_def get_header_def del: free_walk.simps)
    then have "obstack_free a (h, m) = Inr ((), (?h, ?m))" unfolding obstack_free_def by (simp only: evm_simps get_ob_def fst_conv False if_False)
    then show ?thesis using st(2) oth iv by (intro exI [of _ ?h] exI [of _ ?m] exI [of _ "(c, s, os2) # st2"]) (simp add: objects_Cons obstack_object_size_def without_def)
  qed
qed

text \<open>Releasing everything gives every chunk back, and nothing else.\<close>

lemma without_without: "without S (without T m) = without (S \<union> T) m"
  by (auto simp: without_def intro!: arg_cong [of _ _ "\<lambda>b. m\<lparr>blocks := b\<rparr>"] filter_cong)

lemma free_walk_all:
  "chained k m p st \<Longrightarrow> heap_ok (blocks m) \<Longrightarrow> length st < fuel \<Longrightarrow>
   \<exists>h'. free_walk fuel p 0 (h, m) = Inr (0, (h', without (fst ` set st) m))"
proof (induction st arbitrary: p m fuel h)
  case Nil
  then show ?case by (cases fuel) (auto simp: without_def evm_simps)
next
  case (Cons ch st)
  obtain c s os where ch: "ch = (c, s, os)" by (cases ch)
  obtain fuel' where fu: "fuel = Suc fuel'" using Cons.prems(3) by (cases fuel) auto
  have c: "(c, s) \<in> set (blocks m)" "p = c" "c \<notin> fst ` set st" "chained k m (prev (headers m c)) st"
    using Cons.prems(1) by (auto simp: ch chunk_ok_def)
  have lv: "live_block m c" using c(1) by (force simp: live_block_def)
  have fr: "call_freefun c w = Inr ((), (fst w, without {c} (snd w)))" if "live_block (snd w) c" for w
    using that by (simp add: call_freefun_def without_def)
  obtain h' where "free_walk fuel' (prev (headers m c)) 0 (h\<lparr>maybe_empty_object := True\<rparr>, without {c} m) =
      Inr (0, (h', without (fst ` set st) (without {c} m)))"
    using Cons.IH [of "without {c} m" "prev (headers m c)" fuel' "h\<lparr>maybe_empty_object := True\<rparr>"] Cons.prems chained_without [OF c(4), of "{c}"] c(3) fu
    by (auto simp: heap_ok_filter without_def)
  then show ?case using lv c fu fr heap_ok_mem [OF Cons.prems(2) c(1)]
    by (auto simp: evm_simps get_header_def upd_ob_def without_without ch intro!: exI [of _ h'])
qed

lemma obstack_free_all:
  assumes "ob_inv k (h, m) st"
  shows "\<exists>h'. obstack_free 0 (h, m) = Inr ((), (h', m\<lparr>blocks := others m st\<rparr>))"
proof -
  have hp: "heap_ok (blocks m)" using assms by (simp add: ob_inv_def)
  have "length st < Suc (length (blocks m))" using chain_length [OF ob_inv_chained [OF assms]] by simp
  from free_walk_all [OF ob_inv_chained [OF assms] hp this] obtain h' where
    "free_walk (Suc (length (blocks m))) (chunk h) 0 (h, m) = Inr (0, (h', without (fst ` set st) m))" by blast
  then have "u_obstack_free 0 (h, m) = Inr ((), (h', without (fst ` set st) m))"
    by (simp add: u_obstack_free_def evm_simps get_ob_def walk_fuel_def del: free_walk.simps)
  moreover have "without (fst ` set st) m = m\<lparr>blocks := others m st\<rparr>" by (simp add: without_def others_def)
  ultimately show ?thesis by (auto simp: obstack_free_def evm_simps get_ob_def)
qed

lemma used_walk_ok:
  "chained k m p st \<Longrightarrow> heap_ok (blocks m) \<Longrightarrow> length st < fuel \<Longrightarrow>
   used_walk fuel p n (h, m) = Inr (n + sum_list (map (\<lambda>(c, s, os). s) st), (h, m))"
proof (induction st arbitrary: p fuel n)
  case Nil
  then show ?case by (cases fuel) (auto simp: evm_simps)
next
  case (Cons ch st)
  obtain c s os where ch: "ch = (c, s, os)" by (cases ch)
  obtain fuel' where fu: "fuel = Suc fuel'" using Cons.prems(3) by (cases fuel) auto
  have c: "(c, s) \<in> set (blocks m)" "p = c" "limit (headers m c) = c + s" using Cons.prems(1) by (auto simp: ch chunk_ok_def)
  have "live_block m c" using c(1) by (force simp: live_block_def)
  then show ?case using Cons heap_ok_mem [OF Cons.prems(2) c(1)] c fu by (simp add: evm_simps get_header_def ch)
qed

lemma obstack_memory_used_ok:
  assumes "ob_inv k (h, m) st"
  shows "u_obstack_memory_used (h, m) = Inr (sum_list (map (\<lambda>(c, s, os). s) st), (h, m))"
proof -
  have hp: "heap_ok (blocks m)" using assms by (simp add: ob_inv_def)
  have "length st < Suc (length (blocks m))" using chain_length [OF ob_inv_chained [OF assms]] by simp
  from used_walk_ok [OF ob_inv_chained [OF assms] hp this, of 0] show ?thesis
    by (simp add: u_obstack_memory_used_def evm_simps get_ob_def walk_fuel_def del: used_walk.simps)
qed

lemma chunk_walk_ok:
  "chained k m p (pre @ (c, s, os) # st) \<Longrightarrow> heap_ok (blocks m) \<Longrightarrow> length pre < fuel \<Longrightarrow> unat c < unat a \<Longrightarrow> unat a \<le> unat c + unat s \<Longrightarrow>
   chunk_walk fuel p a (h, m) = Inr (c, (h, m))"
proof (induction pre arbitrary: p fuel)
  case Nil
  then obtain fuel' where "fuel = Suc fuel'" by (cases fuel) auto
  moreover have c: "(c, s) \<in> set (blocks m)" "limit (headers m c) = c + s" "p = c" using Nil by (auto simp: chunk_ok_def)
  moreover have "unat (c + s) = unat c + unat s" "c \<noteq> 0" using heap_ok_mem [OF Nil(2) c(1)] by (auto intro: unat_add_no_wrap)
  moreover have "live_block m c" using c(1) by (force simp: live_block_def)
  ultimately show ?case using Nil(4,5) by (simp add: evm_simps get_header_def word_le_nat_alt word_less_nat_alt)
next
  case (Cons ch pre)
  obtain c' s' os' where ch: "ch = (c', s', os')" by (cases ch)
  obtain fuel' where fu: "fuel = Suc fuel'" using Cons.prems(3) by (cases fuel) auto
  have c': "(c', s') \<in> set (blocks m)" "limit (headers m c') = c' + s'" "p = c'" "c' \<notin> fst ` set (pre @ (c, s, os) # st)"
    "chained k m (prev (headers m c')) (pre @ (c, s, os) # st)" using Cons.prems(1) by (auto simp: ch chunk_ok_def)
  have "(c, s) \<in> set (blocks m)" using chained_drop [OF c'(5)] by (auto simp: chunk_ok_def)
  then have at: "a \<le> c' \<or> c' + s' < a" using chunk_not_at [OF Cons.prems(2) _ c'(1) _ Cons.prems(4,5)] c'(4) by auto
  have "live_block m c'" using c'(1) by (force simp: live_block_def)
  then show ?case using at c' fu heap_ok_mem [OF Cons.prems(2) c'(1)] Cons.IH [OF c'(5) Cons.prems(2) _ Cons.prems(4,5), of fuel'] Cons.prems(3)
    by (simp add: evm_simps get_header_def)
qed

text \<open>The chunk of a finished object.\<close>

lemma object_chunk:
  assumes "ob_inv k (h, m) st" "(a, n) \<in> set (objects st)"
  shows "\<exists>pre c s os st2. st = pre @ (c, s, os) # st2 \<and> c \<noteq> 0 \<and> (c, s) \<in> set (blocks m) \<and> unat c + 16 \<le> unat a \<and> unat a + n \<le> unat c + unat s"
proof -
  obtain c s os where m: "(c, s, os) \<in> set st" "(a, n) \<in> set os" using assms(2) by (auto simp: objects_def)
  then obtain pre st2 where st: "st = pre @ (c, s, os) # st2" by (meson split_list)
  have hp: "heap_ok (blocks m)" "k \<le> 62" using assms(1) by (simp_all add: ob_inv_def)
  obtain q where "chained k m q ((c, s, os) # st2)" using chained_drop [OF ob_inv_chained [OF assms(1), unfolded st]] by blast
  then have c: "(c, s) \<in> set (blocks m)" "below (unat (first_object k c)) (unat c + unat s) os" by (auto simp: chunk_ok_def)
  have "unat c + 16 \<le> unat (first_object k c)"
    using align_bounds(1) [of "contents c" k c] contents_bound [OF hp(1) c(1)] hp(2) by (simp add: first_object_def)
  then show ?thesis using below_mem [OF c(2) m(2)] c(1) st heap_ok_mem [OF hp(1) c(1)] by fastforce
qed

lemma obstack_allocated_p_ok:
  assumes "ob_inv k (h, m) st" "(a, n) \<in> set (objects st)"
  shows "u_obstack_allocated_p a (h, m) = Inr (1, (h, m))"
proof -
  obtain pre c s os st2 where st: "st = pre @ (c, s, os) # st2" "c \<noteq> 0" "unat c + 16 \<le> unat a" "unat a + n \<le> unat c + unat s"
    using object_chunk [OF assms] by blast
  note ch = ob_inv_chained [OF assms(1), unfolded st(1)]
  have hp: "heap_ok (blocks m)" using assms(1) by (simp add: ob_inv_def)
  have "length pre < Suc (length (blocks m))" using chain_length [OF ch] by simp
  from chunk_walk_ok [OF ch hp this, of a h] st show ?thesis
    by (simp add: u_obstack_allocated_p_def evm_simps get_ob_def walk_fuel_def del: chunk_walk.simps)
qed

section \<open>Starting\<close>

definition default_size :: "u64 \<Rightarrow> u64" where "default_size sz = (if sz = 0 then default_chunk_size else sz)"

lemma default_chunk_size: "default_chunk_size = 4064"
  by (simp add: default_chunk_size_def DEFAULT_ROUNDING_def)

lemma obstack_begin_ok:
  assumes "good_fns fns" "heap_ok (blocks m)"
    and "(if alignment = 0 then 16 else alignment) = 2 ^ k" "k \<le> 62" "16 + 2 ^ k \<le> unat (default_size sz)"
  shows "eruns_exit (obstack_begin_worker fns sz alignment) (h, m) (\<lambda>r w'. r = 1 \<and>
    (\<exists>c s. ob_inv k w' [(c, s, [])] \<and> others (snd w') [(c, s, [])] = blocks m \<and> bytes (snd w') = bytes m \<and> (\<forall>q \<in> fst ` set (blocks m). headers (snd w') q = headers m q)) \<and>
    current w' = [])"
proof -
  let ?s = "default_size sz" and ?h = "h\<lparr>chunk_size := default_size sz, alignment_mask := mask k\<rparr>"
  have al: "(if alignment = 0 then DEFAULT_ALIGNMENT else alignment) - 1 = mask k"
  proof -
    have "DEFAULT_ALIGNMENT = 16" by (simp add: DEFAULT_ALIGNMENT_def)
    then show ?thesis using assms(3) by (simp only: mask_eq_exp_minus_1)
  qed
  have s0: "?s \<noteq> 0" using assms(5) by (auto simp: unat_pos)
  obtain p where p: "call_chunkfun fns ?s (?h, m) = Inr (p, (?h, if p = 0 then m else m\<lparr>blocks := (p, ?s) # blocks m\<rparr>))" "p = 0 \<or> fresh_block (blocks m) (p, ?s)"
    using call_chunkfun_cases [OF assms(1), of "(?h, m)" ?s] assms(2) s0 by auto
  show ?thesis
  proof (cases "p = 0")
    case True
    have "obstack_begin_worker fns sz alignment (h, m) = Inl Exit"
      using p(1) True by (simp only: obstack_begin_worker_def Let_def al default_size_def [symmetric])
        (simp add: evm_simps upd_ob_def print_and_abort_def)
    then show ?thesis by (simp add: eruns_exit_def)
  next
    case False
    then have fr: "fresh_block (blocks m) (p, ?s)" using p(2) by blast
    have ps: "unat p + unat ?s \<le> 2 ^ 63" using fr by (simp add: fresh_block_def)
    have ct: "unat (contents p) = unat p + 16" using ps assms(5) by (simp add: contents_def unat_add_no_wrap)
    have fo: "unat p + 16 \<le> unat (first_object k p)" "unat (first_object k p) \<le> unat p + unat ?s" "first_object k p AND mask k = 0"
      using align_bounds [of "contents p" k p] assms(4,5) ps ct by (auto simp: first_object_def)
    have pnl: "p \<notin> fst ` set (blocks m)" using fresh_not_live [OF assms(2) fr] .
    let ?h' = "h\<lparr>chunk_size := ?s, chunk := p, object_base := first_object k p, next_free := first_object k p, chunk_limit := p + ?s,
      alignment_mask := mask k, maybe_empty_object := False\<rparr>"
    let ?m' = "m\<lparr>blocks := (p, ?s) # blocks m, headers := (headers m)(p := \<lparr>limit = p + ?s, prev = 0\<rparr>)\<rparr>"
    have "obstack_begin_worker fns sz alignment (h, m) = Inr (1, (?h', ?m'))"
      using p(1) False
      by (simp only: obstack_begin_worker_def Let_def al default_size_def [symmetric])
        (simp add: evm_simps upd_ob_def upd_header_def live_block_def first_object_def header_upd)
    moreover have "ob_inv k (?h', ?m') [(p, ?s, [])]"
      using assms(2,4) fr fo by (auto simp: ob_inv_def chunk_ok_def aligned_in_def)
    moreover have "others ?m' [(p, ?s, [])] = blocks m" using pnl by (auto simp: others_def intro!: filter_True)
    moreover have "headers ?m' q = headers m q" if "q \<in> fst ` set (blocks m)" for q using that pnl by auto
    ultimately have "obstack_begin_worker fns sz alignment (h, m) = Inr (1, (?h', ?m'))" and "\<exists>c s. ob_inv k (?h', ?m') [(c, s, [])] \<and>
        others (snd (?h', ?m')) [(c, s, [])] = blocks m \<and> bytes (snd (?h', ?m')) = bytes m \<and> (\<forall>q \<in> fst ` set (blocks m). headers (snd (?h', ?m')) q = headers m q)"
      by (blast, intro exI [of _ p] exI [of _ ?s]) simp
    moreover have "current (?h', ?m') = []" by (simp add: current_def obstack_object_size_def read_bytes_def)
    ultimately show ?thesis unfolding eruns_exit_def eruns_def by blast
  qed
qed

end
