(* ===== verification/Neb_Obstack_Api.thy ===== *)
theory Neb_Obstack_Api
  imports Neb_Obstack_Free
begin

text \<open>
  An object stack as its user sees it: sessions of calls refine a stack of byte strings.
\<close>

section \<open>The operations on objects\<close>

lemma grown_append:
  assumes "grown k w st w' st' xs" "ob_inv k w' st'" "length ys \<le> unat (obstack_room (fst w'))"
  shows "\<exists>w''. append_bytes ys w' = Inr ((), w'') \<and> grown k w st w'' st' (xs @ ys) \<and> unat (obstack_room (fst w'')) = unat (obstack_room (fst w')) - length ys"
proof -
  obtain w'' where "append_bytes ys w' = Inr ((), w'')" "grown k w' st' w'' st' ys" "unat (obstack_room (fst w'')) = unat (obstack_room (fst w')) - length ys"
    using append_ok [OF assms(2,3)] by blast
  then show ?thesis using assms(1) kept_trans unfolding grown_def by fastforce
qed

lemma make_room_ok: "good_fns fns \<Longrightarrow> ob_inv k w st \<Longrightarrow> eruns_exit (obstack_make_room fns len) w (\<lambda>_ w'. \<exists>st'. grown k w st w' st' [])"
  unfolding obstack_make_room_def ob_run_simps(1,6) by (erule (1) room_ok [THEN eruns_exit_mono]) blast

lemma grow_ok:
  assumes "good_fns fns" "ob_inv k w st" "length xs < 2 ^ 64"
  shows "eruns_exit (obstack_grow fns xs) w (\<lambda>_ w'. \<exists>st'. grown k w st w' st' xs)"
  unfolding obstack_grow_def Let_def ob_run_simps(1,2,6)
proof (rule room_ok [OF assms(1,2), THEN eruns_exit_mono], elim exE conjE)
  fix w' st'
  assume g: "grown k w st w' st' []" "unat (of_nat (length xs) :: u64) \<le> unat (obstack_room (fst w'))"
  then have "length xs \<le> unat (obstack_room (fst w'))" using assms(3) by (simp add: unat_of_nat)
  from grown_append [OF g(1) _ this] g(1) show "eruns_exit (append_bytes xs) w' (\<lambda>_ w'. \<exists>st'. grown k w st w' st' xs)"
    by (auto simp: grown_def eruns_exit_def eruns_def)
qed

lemma grow0_ok:
  assumes "good_fns fns" "ob_inv k w st" "length xs + 1 < 2 ^ 64"
  shows "eruns_exit (obstack_grow0 fns xs) w (\<lambda>_ w'. \<exists>st'. grown k w st w' st' (xs @ [0]))"
  unfolding obstack_grow0_def Let_def ob_run_simps(1,2,6)
proof (rule room_ok [OF assms(1,2), THEN eruns_exit_mono], elim exE conjE)
  fix w' st'
  assume g: "grown k w st w' st' []" "unat (of_nat (length xs) + 1 :: u64) \<le> unat (obstack_room (fst w'))"
  have "unat (of_nat (length xs + 1) :: u64) = length xs + 1" using assms(3) unfolding unat_of_nat by simp
  then have r: "length xs + 1 \<le> unat (obstack_room (fst w'))" using g(2) by (simp add: add.commute)
  obtain w1 where w1: "append_bytes xs w' = Inr ((), w1)" "grown k w st w1 st' xs" "unat (obstack_room (fst w1)) = unat (obstack_room (fst w')) - length xs"
    using grown_append [OF g(1), of xs] g(1) r by (auto simp: grown_def)
  obtain w2 where "append_bytes [0] w1 = Inr ((), w2)" "grown k w st w2 st' (xs @ [0])"
  proof -
    have "ob_inv k w1 st'" "length [0 :: u8] \<le> unat (obstack_room (fst w1))" using w1(2,3) r by (simp_all add: grown_def)
    from grown_append [OF w1(2) this] show ?thesis using that by auto
  qed
  then show "eruns_exit (append_bytes xs) w' (\<lambda>_ w'. eruns_exit (append_bytes [0]) w' (\<lambda>_ w'. \<exists>st'. grown k w st w' st' (xs @ [0])))"
    using w1(1) by (cases w2) (auto simp: eruns_exit_def eruns_def)
qed

lemma grow1_ok:
  assumes "good_fns fns" "ob_inv k w st"
  shows "eruns_exit (obstack_1grow fns x) w (\<lambda>_ w'. \<exists>st'. grown k w st w' st' [x])"
proof -
  have "obstack_1grow fns x = obstack_grow fns [x]" by (simp add: obstack_1grow_def obstack_grow_def Let_def)
  then show ?thesis using grow_ok [OF assms, of "[x]"] by simp
qed

lemma blank_ok:
  assumes "good_fns fns" "ob_inv k w st"
  shows "eruns_exit (obstack_blank fns n) w (\<lambda>_ w'. \<exists>st' zs. grown k w st w' st' zs \<and> length zs = unat n)"
  unfolding obstack_blank_def ob_run_simps(1,2,6)
proof (rule room_ok [OF assms, THEN eruns_exit_mono], elim exE conjE)
  fix w' st'
  assume g: "grown k w st w' st' []" "unat n \<le> unat (obstack_room (fst w'))"
  obtain h m where w': "w' = (h, m)" by (cases w')
  have i: "ob_inv k (h, m) st'" "unat n \<le> unat (obstack_room h)" using g by (simp_all add: grown_def w')
  have "grown k w st (h\<lparr>next_free := next_free h + n\<rparr>, m) st' (read_bytes m (next_free h) (unat n))"
    using ob_inv_advance(1,2) [OF i] g(1) by (simp add: grown_def w')
  then show "eruns_exit (obstack_blank_fast n) w' (\<lambda>_ w'. \<exists>st' zs. grown k w st w' st' zs \<and> length zs = unat n)"
    unfolding obstack_blank_fast_def ob_run_simps(7) w' by fastforce
qed

text \<open>A finished object is pushed on the objects, with the bytes it had.\<close>

definition pushed :: "nat \<Rightarrow> obstack \<times> ob_mem \<Rightarrow> ob_stack \<Rightarrow> u64 \<Rightarrow> obstack \<times> ob_mem \<Rightarrow> ob_stack \<Rightarrow> u8 list \<Rightarrow> bool" where
  "pushed k w st p w' st' xs \<longleftrightarrow> ob_inv k w' st' \<and> objects st' = (p, length xs) # objects st \<and> current w' = [] \<and> read_bytes (snd w') p (length xs) = xs \<and>
     others (snd w') st' = others (snd w) st \<and> (\<forall>(a, n) \<in> set (objects st). read_bytes (snd w') a n = read_bytes (snd w) a n) \<and>
     (\<forall>(q, t) \<in> set (others (snd w) st). read_bytes (snd w') q (unat t) = read_bytes (snd w) q (unat t) \<and> headers (snd w') q = headers (snd w) q)"

lemma finish_pushed:
  assumes "grown k w st w' st' xs"
  shows "eruns_exit obstack_finish w' (\<lambda>p w''. \<exists>st''. pushed k w st p w'' st'' (current w @ xs))"
proof -
  obtain h m where w': "w' = (h, m)" by (cases w')
  have i: "ob_inv k (h, m) st'" "kept (snd w) st m st'" "current (h, m) = current w @ xs" using assms by (simp_all add: grown_def w')
  obtain c s os st0 where st: "st' = (c, s, os) # st0" using ob_inv_split [OF i(1)] by blast
  have len: "length (current w @ xs) = unat (obstack_object_size h)" unfolding i(3) [symmetric] by (simp add: current_def)
  obtain h' where h': "obstack_finish (h, m) = Inr (object_base h, (h', m))" "obstack_object_size h' = 0"
    "ob_inv k (h', m) ((c, s, (object_base h, unat (obstack_object_size h)) # os) # st0)" using finish_ok [OF i(1) [unfolded st]] by blast
  let ?st = "(c, s, (object_base h, unat (obstack_object_size h)) # os) # st0"
  have "others m ?st = others m st'" by (simp add: others_def st)
  then have "pushed k w st (object_base h) (h', m) ?st (current w @ xs)"
    unfolding pushed_def len using i(2,3) h'(2,3) by (auto simp: kept_def objects_Cons st current_def read_bytes_def)
  then show ?thesis using h'(1) by (auto simp: eruns_exit_def eruns_def w')
qed

lemma finish_only:
  assumes "ob_inv k w st" shows "eruns_exit obstack_finish w (\<lambda>p w'. \<exists>st'. pushed k w st p w' st' (current w))"
proof -
  have "grown k w st w st []" using assms by (simp add: grown_def kept_refl)
  from finish_pushed [OF this] show ?thesis by simp
qed

lemma alloc_ok:
  assumes "good_fns fns" "ob_inv k w st"
  shows "eruns_exit (obstack_alloc fns n) w (\<lambda>p w'. \<exists>st' zs. pushed k w st p w' st' (current w @ zs) \<and> length zs = unat n)"
  unfolding obstack_alloc_def ob_run_simps(2)
  by (rule blank_ok [OF assms, THEN eruns_exit_mono]) (blast intro: finish_pushed [THEN eruns_exit_mono])

lemma copy_ok:
  assumes "good_fns fns" "ob_inv k w st" "length xs < 2 ^ 64"
  shows "eruns_exit (obstack_copy fns xs) w (\<lambda>p w'. \<exists>st'. pushed k w st p w' st' (current w @ xs))"
  unfolding obstack_copy_def ob_run_simps(2)
  by (rule grow_ok [OF assms, THEN eruns_exit_mono]) (blast intro: finish_pushed [THEN eruns_exit_mono])

lemma copy0_ok:
  assumes "good_fns fns" "ob_inv k w st" "length xs + 1 < 2 ^ 64"
  shows "eruns_exit (obstack_copy0 fns xs) w (\<lambda>p w'. \<exists>st'. pushed k w st p w' st' (current w @ xs @ [0]))"
  unfolding obstack_copy0_def ob_run_simps(2)
  by (rule grow0_ok [OF assms, THEN eruns_exit_mono]) (blast intro: finish_pushed [THEN eruns_exit_mono])

section \<open>The objects do not meet\<close>

definition sep :: "u64 \<times> nat \<Rightarrow> u64 \<times> nat \<Rightarrow> bool" where "sep x y \<longleftrightarrow> unat (fst x) + snd x \<le> unat (fst y) \<or> unat (fst y) + snd y \<le> unat (fst x)"

lemma below_sep: "below lo hi os \<Longrightarrow> sorted_wrt sep os"
proof (induction lo hi os rule: below.induct)
  case (2 lo hi a n os)
  then show ?case using below_mem [of lo "unat a" os] by (auto simp: sep_def)
qed simp

lemma chained_sep: "chained k m p st \<Longrightarrow> heap_ok (blocks m) \<Longrightarrow> k \<le> 62 \<Longrightarrow> sorted_wrt sep (objects st)"
proof (induction k m p st rule: chained.induct)
  case (2 k m p c s os st)
  have c: "(c, s) \<in> set (blocks m)" "below (unat (first_object k c)) (unat c + unat s) os" "c \<notin> fst ` set st" "chained k m (prev (headers m c)) st"
    using 2(2) by (auto simp: chunk_ok_def)
  have fo: "unat c + 16 \<le> unat (first_object k c)"
    using align_bounds(1) [of "contents c" k c] contents_bound [OF 2(3) c(1)] 2(4) by (simp add: first_object_def)
  have "sep (a, n) (b, l)" if os: "(a, n) \<in> set os" and ob: "(b, l) \<in> set (objects st)" for a n b l
  proof -
    obtain q t where q: "(q, t) \<in> set (blocks m)" "q \<in> fst ` set st" "unat q + 16 \<le> unat b" "unat b + l \<le> unat q + unat t"
      using chained_objects [OF c(4) ob 2(3,4)] by blast
    then have "apart (c, s) (q, t)" using c(3) heap_ok_apart [OF 2(3) c(1) q(1)] by blast
    then show ?thesis using q below_mem [OF c(2) os] fo by (auto simp: sep_def apart_def)
  qed
  then show ?case using 2(1) [OF c(4) 2(3,4)] below_sep [OF c(2)] by (auto simp: objects_Cons sorted_wrt_append)
qed (simp add: objects_def)

lemma objects_aligned:
  assumes "chained k m p st" "(a, n) \<in> set (objects st)" "0 < n" "heap_ok (blocks m)"
  shows "a AND mask k = 0"
  using assms
proof (induction k m p st rule: chained.induct)
  case (2 k m p c s os st)
  show ?case
  proof (cases "(a, n) \<in> set os")
    case True
    have c: "(c, s) \<in> set (blocks m)" "below (unat (first_object k c)) (unat c + unat s) os" "aligned_in k c s a" using 2(2) True by (auto simp: chunk_ok_def)
    have "unat (c + s) = unat c + unat s" using heap_ok_mem [OF 2(5) c(1)] by (intro unat_add_no_wrap) simp
    then show ?thesis using below_mem [OF c(2) True] c(3) 2(4) by (auto simp: aligned_in_def)
  qed (use 2 in \<open>auto simp: objects_Cons\<close>)
qed (simp add: objects_def)

section \<open>Sessions\<close>

text \<open>A user of an object stack: the stack, and the finished objects that the user holds, newest first, each with its size.\<close>

type_synonym ob_session = "(obstack \<times> ob_mem) \<times> (u64 \<times> nat) list"

datatype ob_call = CallGrow "u8 list" | CallGrow0 "u8 list" | Call1grow u8 | CallBlank u64 | CallMakeRoom u64 | CallFinish
  | CallAlloc u64 | CallCopy "u8 list" | CallCopy0 "u8 list" | CallFree nat | CallAllocated nat | CallWrite nat nat u8

definition on_stack :: "'a obc \<Rightarrow> (obstack \<Rightarrow> 'a \<Rightarrow> (u64 \<times> nat) list \<Rightarrow> u64 \<times> (u64 \<times> nat) list) \<Rightarrow> ob_session \<Rightarrow> (u64 \<times> ob_session) outcome" where
  "on_stack f g s = (case f (fst s) of Inl e \<Rightarrow> Inl e | Inr (x, w') \<Rightarrow> let (r, os) = g (fst (fst s)) x (snd s) in Inr (r, (w', os)))"

definition gets_object :: "nat \<Rightarrow> obstack \<Rightarrow> u64 \<Rightarrow> (u64 \<times> nat) list \<Rightarrow> u64 \<times> (u64 \<times> nat) list" where
  "gets_object n h p os = (p, (p, unat (obstack_object_size h) + n) # os)"

fun ob_run :: "chunk_fns \<Rightarrow> ob_call \<Rightarrow> ob_session \<Rightarrow> (u64 \<times> ob_session) outcome" where
  "ob_run fns (CallGrow xs) s = on_stack (obstack_grow fns xs) (\<lambda>h x os. (0, os)) s"
| "ob_run fns (CallGrow0 xs) s = on_stack (obstack_grow0 fns xs) (\<lambda>h x os. (0, os)) s"
| "ob_run fns (Call1grow b) s = on_stack (obstack_1grow fns b) (\<lambda>h x os. (0, os)) s"
| "ob_run fns (CallBlank n) s = on_stack (obstack_blank fns n) (\<lambda>h x os. (0, os)) s"
| "ob_run fns (CallMakeRoom n) s = on_stack (obstack_make_room fns n) (\<lambda>h x os. (0, os)) s"
| "ob_run fns CallFinish s = on_stack obstack_finish (gets_object 0) s"
| "ob_run fns (CallAlloc n) s = on_stack (obstack_alloc fns n) (gets_object (unat n)) s"
| "ob_run fns (CallCopy xs) s = on_stack (obstack_copy fns xs) (gets_object (length xs)) s"
| "ob_run fns (CallCopy0 xs) s = on_stack (obstack_copy0 fns xs) (gets_object (Suc (length xs))) s"
| "ob_run fns (CallFree i) s = on_stack (obstack_free (fst (snd s ! i))) (\<lambda>h x os. (0, drop (Suc i) os)) s"
| "ob_run fns (CallAllocated i) s = on_stack (u_obstack_allocated_p (fst (snd s ! i))) (\<lambda>h x os. (of_int x, os)) s"
| "ob_run fns (CallWrite i j b) s = on_stack (write_bytes (fst (snd s ! i) + of_nat j) [b]) (\<lambda>h x os. (0, os)) s"

text \<open>The user names objects that it holds, and gives lists of bytes that fit in memory. A call that exhausts the memory ends the process.\<close>

definition ob_legal :: "chunk_fns \<Rightarrow> ob_session \<Rightarrow> ob_call \<Rightarrow> bool" where
  "ob_legal fns s c \<longleftrightarrow> \<not> exits (ob_run fns c s) \<and> (case c of
     CallGrow xs \<Rightarrow> length xs < 2 ^ 64 | CallCopy xs \<Rightarrow> length xs < 2 ^ 64
   | CallGrow0 xs \<Rightarrow> length xs + 1 < 2 ^ 64 | CallCopy0 xs \<Rightarrow> length xs + 1 < 2 ^ 64
   | CallFree i \<Rightarrow> i < length (snd s) | CallAllocated i \<Rightarrow> i < length (snd s)
   | CallWrite i j b \<Rightarrow> i < length (snd s) \<and> j < snd (snd s ! i) | _ \<Rightarrow> True)"

text \<open>What the calls do: the contents of the objects, newest first, and of the object that grows.\<close>

definition ob_abs :: "ob_session \<Rightarrow> u8 list list \<times> u8 list" where
  "ob_abs s = (map (\<lambda>(a, n). read_bytes (snd (fst s)) a n) (snd s), current (fst s))"

fun ob_spec :: "ob_call \<Rightarrow> u8 list list \<times> u8 list \<Rightarrow> u64 \<Rightarrow> u8 list list \<times> u8 list \<Rightarrow> bool" where
  "ob_spec (CallGrow xs) (fin, cur) r y \<longleftrightarrow> y = (fin, cur @ xs)"
| "ob_spec (CallGrow0 xs) (fin, cur) r y \<longleftrightarrow> y = (fin, cur @ xs @ [0])"
| "ob_spec (Call1grow b) (fin, cur) r y \<longleftrightarrow> y = (fin, cur @ [b])"
| "ob_spec (CallBlank n) (fin, cur) r y \<longleftrightarrow> (\<exists>zs. length zs = unat n \<and> y = (fin, cur @ zs))"
| "ob_spec (CallMakeRoom n) (fin, cur) r y \<longleftrightarrow> y = (fin, cur)"
| "ob_spec CallFinish (fin, cur) r y \<longleftrightarrow> y = (cur # fin, [])"
| "ob_spec (CallAlloc n) (fin, cur) r y \<longleftrightarrow> (\<exists>zs. length zs = unat n \<and> y = ((cur @ zs) # fin, []))"
| "ob_spec (CallCopy xs) (fin, cur) r y \<longleftrightarrow> y = ((cur @ xs) # fin, [])"
| "ob_spec (CallCopy0 xs) (fin, cur) r y \<longleftrightarrow> y = ((cur @ xs @ [0]) # fin, [])"
| "ob_spec (CallFree i) (fin, cur) r y \<longleftrightarrow> y = (drop (Suc i) fin, [])"
| "ob_spec (CallAllocated i) (fin, cur) r y \<longleftrightarrow> r = 1 \<and> y = (fin, cur)"
| "ob_spec (CallWrite i j b) (fin, cur) r y \<longleftrightarrow> y = (fin[i := (fin ! i)[j := b]], cur)"

definition ob_sinv :: "nat \<Rightarrow> (u64 \<times> u64) list \<Rightarrow> ob_session \<Rightarrow> bool" where
  "ob_sinv k B s \<longleftrightarrow> (\<exists>st. ob_inv k (fst s) st \<and> objects st = snd s \<and> others (snd (fst s)) st = B)"

lemma length_current: "length (current w) = unat (obstack_object_size (fst w))"
  by (simp add: current_def)

lemma read_objects_cong: "\<forall>(a, n) \<in> set os. read_bytes m' a n = read_bytes m a n \<Longrightarrow>
    map (\<lambda>(a, n). read_bytes m' a n) os = map (\<lambda>(a, n). read_bytes m a n) os"
  by auto

lemma step_grown:
  assumes "eruns_exit f w (\<lambda>_ w'. \<exists>st' xs. grown k w st w' st' xs \<and> P xs)" "objects st = os" "others (snd w) st = B"
    and "on_stack f (\<lambda>h x os. (0, os)) (w, os) \<noteq> Inl Exit"
  shows "\<exists>s' xs. on_stack f (\<lambda>h x os. (0, os)) (w, os) = Inr (0, s') \<and> ob_sinv k B s' \<and> P xs \<and>
    ob_abs s' = (fst (ob_abs (w, os)), snd (ob_abs (w, os)) @ xs)"
proof -
  obtain x w' st' xs where w': "f w = Inr (x, w')" "grown k w st w' st' xs" "P xs"
    using assms(1,4) by (auto simp: eruns_exit_def eruns_def on_stack_def)
  have "ob_sinv k B (w', os)" using w'(2) assms(2,3) by (auto simp: ob_sinv_def grown_def kept_def)
  moreover have "ob_abs (w', os) = (fst (ob_abs (w, os)), snd (ob_abs (w, os)) @ xs)"
    using w'(2) assms(2) read_objects_cong [of os "snd w'" "snd w"] by (auto simp: ob_abs_def grown_def kept_def)
  ultimately show ?thesis using w'(1,3) by (auto simp: on_stack_def)
qed

lemma step_pushed:
  assumes "eruns_exit f w (\<lambda>p w'. \<exists>st' xs. pushed k w st p w' st' (current w @ xs) \<and> P xs)" "objects st = os" "others (snd w) st = B"
    and "on_stack f (gets_object n) (w, os) \<noteq> Inl Exit" "\<And>xs. P xs \<Longrightarrow> length xs = n"
  shows "\<exists>r s' xs. on_stack f (gets_object n) (w, os) = Inr (r, s') \<and> ob_sinv k B s' \<and> P xs \<and>
    ob_abs s' = ((snd (ob_abs (w, os)) @ xs) # fst (ob_abs (w, os)), [])"
proof -
  obtain p w' st' xs where w': "f w = Inr (p, w')" "pushed k w st p w' st' (current w @ xs)" "P xs"
    using assms(1,4) by (auto simp: eruns_exit_def eruns_def on_stack_def)
  have n: "unat (obstack_object_size (fst w)) + n = length (current w @ xs)" using assms(5) [OF w'(3)] by (simp add: length_current)
  let ?os = "(p, length (current w @ xs)) # os"
  have "ob_sinv k B (w', ?os)" using w'(2) assms(2,3) by (auto simp: ob_sinv_def pushed_def)
  moreover have "ob_abs (w', ?os) = ((snd (ob_abs (w, os)) @ xs) # fst (ob_abs (w, os)), [])"
    using w'(2) assms(2) read_objects_cong [of os "snd w'" "snd w"] by (auto simp: ob_abs_def pushed_def)
  moreover have "on_stack f (gets_object n) (w, os) = Inr (p, (w', ?os))" using w'(1) n by (simp add: on_stack_def gets_object_def)
  ultimately show ?thesis using w'(3) by blast
qed

lemma ob_write_ok:
  assumes "ob_inv k (h, m) st" "i < length (objects st)" "j < snd (objects st ! i)"
  shows "\<exists>m'. write_bytes (fst (objects st ! i) + of_nat j) [b] (h, m) = Inr ((), (h, m')) \<and> ob_inv k (h, m') st \<and> others m' st = others m st \<and>
    ob_abs ((h, m'), objects st) = ((fst (ob_abs ((h, m), objects st)))[i := (fst (ob_abs ((h, m), objects st)) ! i)[j := b]], snd (ob_abs ((h, m), objects st)))"
proof -
  obtain a n where an: "objects st ! i = (a, n)" by (cases "objects st ! i")
  have mem: "(a, n) \<in> set (objects st)" using assms(2) an by (metis nth_mem)
  obtain pre c s os st2 where c: "st = pre @ (c, s, os) # st2" "(c, s) \<in> set (blocks m)" "unat c + 16 \<le> unat a" "unat a + n \<le> unat c + unat s"
    using object_chunk [OF assms(1) mem] by blast
  obtain c0 s0 os0 st0 where st0: "st = (c0, s0, os0) # st0" using ob_inv_split [OF assms(1)] by blast
  note f = ob_inv_cur [OF assms(1) [unfolded st0]]
  have cs: "unat c + unat s \<le> 2 ^ 63" using heap_ok_mem [OF f(2) c(2)] by simp
  have j: "j < n" using assms(3) an by simp
  have aj: "unat (a + of_nat j) = unat a + j" using j c(4) cs by (subst unat_add_no_wrap) (simp_all add: unat_of_nat)
  let ?m = "put_bytes (a + of_nat j) [b] m"
  have r: "range_ok m (a + of_nat j) 1" using c aj j by (intro range_okI [OF c(2)]) auto
  have lt: "unat (a + of_nat j) + length [b] \<le> 2 ^ 64" using aj j c(4) cs by simp
  have other: "read_bytes ?m a' n' = read_bytes m a' n'"
    if s: "sep (a, n) (a', n')" and u: "unat a' + n' \<le> 2 ^ 64" for a' n'
    using s u aj j by (intro put_bytes_other [OF lt u]) (auto simp: sep_def)
  have upd: "read_bytes ?m a n = (read_bytes m a n)[j := b]"
  proof (rule nth_equalityI)
    fix x assume x: "x < length (read_bytes ?m a n)"
    then have ax: "unat (a + of_nat x) = unat a + x" using c(4) cs by (subst unat_add_no_wrap) (simp_all add: unat_of_nat)
    have "(a + of_nat x = a + of_nat j) = (x = j)" using aj ax by (metis add_left_cancel)
    moreover have "(unat (u - v) < 1) = (u = v)" for u v :: u64 using unat_pos [of "u - v"] by auto
    ultimately have "unat (a + of_nat x - (a + of_nat j)) < 1 \<longleftrightarrow> x = j" by metis
    then show "read_bytes ?m a n ! x = (read_bytes m a n)[j := b] ! x" using x
      by (simp add: read_bytes_def put_bytes_def nth_list_update del: add_diff_cancel_left)
  qed simp
  have srt: "sorted_wrt sep (objects st)" by (rule chained_sep [OF ob_inv_chained [OF assms(1)] f(2,1)])
  have objs: "map (\<lambda>(a, n). read_bytes ?m a n) (objects st) = (map (\<lambda>(a, n). read_bytes m a n) (objects st))[i := (read_bytes m a n)[j := b]]"
  proof (rule nth_equalityI)
    fix x assume "x < length (map (\<lambda>(a, n). read_bytes ?m a n) (objects st))"
    then have x: "x < length (objects st)" by simp
    obtain a' n' where x': "objects st ! x = (a', n')" by (cases "objects st ! x")
    have "(a', n') \<in> set (objects st)" using x x' by (metis nth_mem)
    then obtain c' s' where "(c', s') \<in> set (blocks m)" "unat a' + n' \<le> unat c' + unat s'" using object_chunk [OF assms(1)] by blast
    then have u: "unat a' + n' \<le> 2 ^ 64" using heap_ok_mem [OF f(2)] by fastforce
    show "map (\<lambda>(a, n). read_bytes ?m a n) (objects st) ! x = (map (\<lambda>(a, n). read_bytes m a n) (objects st))[i := (read_bytes m a n)[j := b]] ! x"
    proof (cases "x = i")
      case True
      then show ?thesis using x an upd by simp
    next
      case False
      have "sep (a, n) (a', n')"
      proof (cases "x < i")
        case True
        then have "sep (objects st ! x) (objects st ! i)" using srt assms(2) by (simp add: sorted_wrt_iff_nth_less)
        then show ?thesis using x' an by (auto simp: sep_def)
      next
        case F: False
        then have "sep (objects st ! i) (objects st ! x)" using srt x False by (simp add: sorted_wrt_iff_nth_less)
        then show ?thesis using x' an by (auto simp: sep_def)
      qed
      from other [OF this u] show ?thesis using x x' False by simp
    qed
  qed simp
  have "sep (a, n) (object_base h, unat (obstack_object_size h))"
  proof (cases "(a, n) \<in> set os0")
    case True
    then show ?thesis using below_mem [OF f(18)] by (fastforce simp: sep_def)
  next
    case False
    then have "(a, n) \<in> set (objects st0)" using mem st0 by (simp add: objects_Cons)
    then obtain q t where q: "(q, t) \<in> set (blocks m)" "q \<in> fst ` set st0" "unat q + 16 \<le> unat a" "unat a + n \<le> unat q + unat t"
      using chained_objects [OF f(16) _ f(2,1)] by blast
    then have "apart (c0, s0) (q, t)" using f(17) heap_ok_apart [OF f(2,4) q(1)] by blast
    then show ?thesis using q f(10,11,12,13,14) by (auto simp: sep_def apart_def)
  qed
  then have "read_bytes ?m (object_base h) (unat (obstack_object_size h)) = read_bytes m (object_base h) (unat (obstack_object_size h))"
    using f(6,12,13,14) by (intro other) simp_all
  then have "ob_abs ((h, ?m), objects st) = ((fst (ob_abs ((h, m), objects st)))[i := (fst (ob_abs ((h, m), objects st)) ! i)[j := b]], snd (ob_abs ((h, m), objects st)))"
    using objs an assms(2) by (simp add: ob_abs_def current_def)
  moreover have "write_bytes (fst (objects st ! i) + of_nat j) [b] (h, m) = Inr ((), (h, ?m))" using r an by (simp add: write_bytes_def)
  moreover have "others ?m st = others m st" by (simp add: others_def)
  ultimately show ?thesis using assms(1) by (intro exI [of _ ?m]) (simp add: ob_inv_bytes)
qed

lemma ob_call_refines:
  assumes g: "good_fns fns" and inv: "ob_sinv k B s" and l: "ob_legal fns s c"
  shows "\<exists>r s'. ob_run fns c s = Inr (r, s') \<and> ob_sinv k B s' \<and> ob_spec c (ob_abs s) r (ob_abs s')"
proof -
  obtain w os where s: "s = (w, os)" by (cases s)
  obtain h m where w: "w = (h, m)" by (cases w)
  obtain st where st: "ob_inv k w st" "objects st = os" "others (snd w) st = B" using inv by (auto simp: ob_sinv_def s)
  obtain fin cur where ab: "ob_abs (w, os) = (fin, cur)" by (cases "ob_abs (w, os)")
  have ne: "ob_run fns c (w, os) \<noteq> Inl Exit" using l by (simp add: ob_legal_def exits_iff s)
  note G = step_grown [OF _ st(2,3)] and P = step_pushed [OF _ st(2,3)]
  have cong: "eruns_exit f w (\<lambda>_ w'. \<exists>st'. grown k w st w' st' xs) \<Longrightarrow> eruns_exit f w (\<lambda>_ w'. \<exists>st' ys. grown k w st w' st' ys \<and> ys = xs)" for f :: "unit obc" and xs
    by (erule eruns_exit_mono) blast
  have congp: "eruns_exit f w (\<lambda>p w'. \<exists>st'. pushed k w st p w' st' (current w @ xs)) \<Longrightarrow>
      eruns_exit f w (\<lambda>p w'. \<exists>st' ys. pushed k w st p w' st' (current w @ ys) \<and> ys = xs)" for f xs
    by (erule eruns_exit_mono) blast
  show ?thesis unfolding s
  proof (cases c)
    case (CallGrow xs)
    then have "length xs < 2 ^ 64" using l by (simp add: ob_legal_def)
    from G [OF cong [OF grow_ok [OF g st(1) this]]] show "\<exists>r s'. ob_run fns c (w, os) = Inr (r, s') \<and> ob_sinv k B s' \<and> ob_spec c (ob_abs (w, os)) r (ob_abs s')"
      using ne CallGrow ab by fastforce
  next
    case (CallGrow0 xs)
    then have "length xs + 1 < 2 ^ 64" using l by (simp add: ob_legal_def)
    from G [OF cong [OF grow0_ok [OF g st(1) this]]] show "\<exists>r s'. ob_run fns c (w, os) = Inr (r, s') \<and> ob_sinv k B s' \<and> ob_spec c (ob_abs (w, os)) r (ob_abs s')"
      using ne CallGrow0 ab by fastforce
  next
    case (Call1grow b)
    from G [OF cong [OF grow1_ok [OF g st(1)]]] show "\<exists>r s'. ob_run fns c (w, os) = Inr (r, s') \<and> ob_sinv k B s' \<and> ob_spec c (ob_abs (w, os)) r (ob_abs s')"
      using ne Call1grow ab by fastforce
  next
    case (CallBlank n)
    from G [OF blank_ok [OF g st(1)]] show "\<exists>r s'. ob_run fns c (w, os) = Inr (r, s') \<and> ob_sinv k B s' \<and> ob_spec c (ob_abs (w, os)) r (ob_abs s')"
      using ne CallBlank ab by fastforce
  next
    case (CallMakeRoom n)
    from G [OF cong [OF make_room_ok [OF g st(1)]]] show "\<exists>r s'. ob_run fns c (w, os) = Inr (r, s') \<and> ob_sinv k B s' \<and> ob_spec c (ob_abs (w, os)) r (ob_abs s')"
      using ne CallMakeRoom ab by fastforce
  next
    case CallFinish
    have "eruns_exit obstack_finish w (\<lambda>p w'. \<exists>st' ys. pushed k w st p w' st' (current w @ ys) \<and> ys = [])"
      using finish_only [OF st(1)] by (rule eruns_exit_mono) simp
    from P [OF this, of 0] show "\<exists>r s'. ob_run fns c (w, os) = Inr (r, s') \<and> ob_sinv k B s' \<and> ob_spec c (ob_abs (w, os)) r (ob_abs s')"
      using ne CallFinish ab by fastforce
  next
    case (CallAlloc n)
    from P [OF alloc_ok [OF g st(1)], of n "unat n"] show "\<exists>r s'. ob_run fns c (w, os) = Inr (r, s') \<and> ob_sinv k B s' \<and> ob_spec c (ob_abs (w, os)) r (ob_abs s')"
      using ne CallAlloc ab by fastforce
  next
    case (CallCopy xs)
    then have "length xs < 2 ^ 64" using l by (simp add: ob_legal_def)
    from P [OF congp [OF copy_ok [OF g st(1) this]], of "length xs"] show "\<exists>r s'. ob_run fns c (w, os) = Inr (r, s') \<and> ob_sinv k B s' \<and> ob_spec c (ob_abs (w, os)) r (ob_abs s')"
      using ne CallCopy ab by fastforce
  next
    case (CallCopy0 xs)
    then have "length xs + 1 < 2 ^ 64" using l by (simp add: ob_legal_def)
    from P [OF congp [OF copy0_ok [OF g st(1) this]], of "Suc (length xs)"] show "\<exists>r s'. ob_run fns c (w, os) = Inr (r, s') \<and> ob_sinv k B s' \<and> ob_spec c (ob_abs (w, os)) r (ob_abs s')"
      using ne CallCopy0 ab by fastforce
  next
    case (CallFree i)
    then have i: "i < length (objects st)" using l st(2) by (simp add: ob_legal_def s)
    obtain a n where an: "objects st ! i = (a, n)" by (cases "objects st ! i")
    obtain h' m' st' where f: "obstack_free a (h, m) = Inr ((), (h', m'))" "ob_inv k (h', m') st'" "objects st' = drop (Suc i) (objects st)"
      "bytes m' = bytes m" "others m' st' = others m st" "obstack_object_size h' = 0" using obstack_free_ok [OF st(1) [unfolded w] i an] by blast
    have "read_bytes m' = read_bytes m" using f(4) by (simp add: read_bytes_def fun_eq_iff)
    then show "\<exists>r s'. ob_run fns c (w, os) = Inr (r, s') \<and> ob_sinv k B s' \<and> ob_spec c (ob_abs (w, os)) r (ob_abs s')"
      using f st(2,3) an CallFree w by (auto simp: on_stack_def ob_sinv_def ob_abs_def current_def drop_map read_bytes_def)
  next
    case (CallAllocated i)
    then have i: "i < length (objects st)" using l st(2) by (simp add: ob_legal_def s)
    obtain a n where an: "objects st ! i = (a, n)" by (cases "objects st ! i")
    then have "(a, n) \<in> set (objects st)" using i by (metis nth_mem)
    from obstack_allocated_p_ok [OF st(1) [unfolded w] this] show "\<exists>r s'. ob_run fns c (w, os) = Inr (r, s') \<and> ob_sinv k B s' \<and> ob_spec c (ob_abs (w, os)) r (ob_abs s')"
      using inv st(2) an CallAllocated w ab by (auto simp: on_stack_def s)
  next
    case (CallWrite i j b)
    then have i: "i < length (objects st)" "j < snd (objects st ! i)" using l st(2) by (simp_all add: ob_legal_def s)
    from ob_write_ok [OF st(1) [unfolded w] i, of b] obtain m' where "write_bytes (fst (os ! i) + of_nat j) [b] (h, m) = Inr ((), (h, m'))" "ob_inv k (h, m') st"
      "others m' st = others m st" "ob_abs ((h, m'), os) = (fin[i := (fin ! i)[j := b]], cur)" using st(2) ab w by auto
    then show "\<exists>r s'. ob_run fns c (w, os) = Inr (r, s') \<and> ob_sinv k B s' \<and> ob_spec c (ob_abs (w, os)) r (ob_abs s')"
      using st(2,3) w ab CallWrite by (auto simp: on_stack_def ob_sinv_def)
  qed
qed

section \<open>Properties\<close>

lemma ob_api: "good_fns fns \<Longrightarrow> api_refinement (ob_run fns) (ob_legal fns) (ob_sinv k B) ob_abs ob_spec"
  by unfold_locales (blast intro: ob_call_refines)

lemma begin_session:
  assumes "good_fns fns" "heap_ok (blocks m)" "(if alignment = 0 then 16 else alignment) = 2 ^ k" "k \<le> 62"
    and "16 + 2 ^ k \<le> unat (if sz = 0 then default_chunk_size else sz)" "u_obstack_begin fns sz alignment (h, m) = Inr (r, w)"
  shows "ob_sinv k (blocks m) (w, [])" "ob_abs (w, []) = ([], [])" "r = 1"
proof -
  have "obstack_begin_worker fns sz alignment (h\<lparr>use_extra_arg := False\<rparr>, m) = Inr (r, w)"
    using assms(6) by (simp add: u_obstack_begin_def evm_simps upd_ob_def)
  then have q: "r = 1 \<and> (\<exists>c s. ob_inv k w [(c, s, [])] \<and> others (snd w) [(c, s, [])] = blocks m \<and> bytes (snd w) = bytes m \<and>
      (\<forall>q \<in> fst ` set (blocks m). headers (snd w) q = headers m q)) \<and> current w = []"
    using obstack_begin_ok [OF assms(1-5) [folded default_size_def], of "h\<lparr>use_extra_arg := False\<rparr>"] by (auto simp: eruns_exit_def eruns_def)
  then show "ob_sinv k (blocks m) (w, [])" by (auto simp: ob_sinv_def objects_def)
  show "r = 1" "ob_abs (w, []) = ([], [])" using q by (auto simp: ob_abs_def)
qed

text \<open>C10. An object stack is a stack of byte strings, the last of which may grow: from its creation on, any sequence of growing, finishing,
  allocating, copying and releasing, and of writes of the user into its objects, ends without a fault as long as memory lasts, and every object keeps
  its bytes until it is released, also when the chunk of a growing object is replaced. The objects do not overlap and are aligned,
  and releasing the stack leaves exactly the blocks of others. For every allocator that returns fresh blocks, every power of two as alignment and every chunk size that has
  room for a header and one unit of alignment.\<close>

theorem obstack_refines:
  assumes "good_fns fns" "heap_ok (blocks m)" "(if alignment = 0 then 16 else alignment) = 2 ^ k" "k \<le> 62"
    and "16 + 2 ^ k \<le> unat (if sz = 0 then default_chunk_size else sz)" "u_obstack_begin fns sz alignment (h, m) = Inr (r, w)"
    and "legal_calls (ob_run fns) (ob_legal fns) cs (w, [])"
  shows "\<exists>rs w' os h'. run_calls (ob_run fns) cs (w, []) = Inr (rs, (w', os)) \<and> spec_calls ob_spec cs ([], []) rs (ob_abs (w', os)) \<and>
    sorted_wrt sep os \<and> (\<forall>(a, n) \<in> set os. 0 < n \<longrightarrow> a AND mask k = 0) \<and>
    obstack_free 0 w' = Inr ((), (h', (snd w')\<lparr>blocks := blocks m\<rparr>))"
proof -
  note b = begin_session [OF assms(1-6)]
  obtain rs w' os where r: "run_calls (ob_run fns) cs (w, []) = Inr (rs, (w', os))" "ob_sinv k (blocks m) (w', os)"
    "spec_calls ob_spec cs ([], []) rs (ob_abs (w', os))"
    using api_refinement.calls_refine [OF ob_api [OF assms(1)] b(1) assms(7)] b(2) by auto
  obtain st where st: "ob_inv k w' st" "objects st = os" "others (snd w') st = blocks m" using r(2) by (auto simp: ob_sinv_def)
  obtain h1 m1 where w': "w' = (h1, m1)" by (cases w')
  note i = st(1) [unfolded w'] and ch = ob_inv_chained [OF st(1) [unfolded w']]
  have hp: "heap_ok (blocks m1)" "k \<le> 62" using i by (simp_all add: ob_inv_def)
  have "sorted_wrt sep os" using chained_sep [OF ch hp] st(2) by simp
  moreover have "\<forall>(a, n) \<in> set os. 0 < n \<longrightarrow> a AND mask k = 0" using objects_aligned [OF ch _ _ hp(1)] st(2) by auto
  moreover obtain h' where "obstack_free 0 w' = Inr ((), (h', (snd w')\<lparr>blocks := blocks m\<rparr>))"
    using obstack_free_all [OF i] st(3) by (auto simp: w')
  ultimately show ?thesis using r by blast
qed

text \<open>An allocator that puts a block behind all others.\<close>

definition bump :: "(u64 \<times> u64) list \<Rightarrow> u64 \<Rightarrow> u64" where
  "bump bs n = (let e = foldr (\<lambda>(p, s) x. max (unat p + unat s) x) bs 4096 in if e + unat n \<le> 2 ^ 63 then of_nat e else 0)"

definition bump_fns :: chunk_fns where "bump_fns = \<lparr>chunkfun_plain = bump, chunkfun_extra = (\<lambda>_. bump)\<rparr>"

lemma bump_good: "good_fns bump_fns"
proof -
  have "bump bs n = 0 \<or> fresh_block bs (bump bs n, n)" if "n \<noteq> 0" for bs n
  proof (cases "bump bs n = 0")
    case False
    define e where "e = foldr (\<lambda>(p, s) x. max (unat p + unat s) x) bs 4096"
    have e: "list_all (\<lambda>(p, s). unat p + unat s \<le> e) bs" unfolding e_def by (induction bs) (auto simp: list_all_iff max_def)
    have b: "bump bs n = of_nat e" "e + unat n \<le> 2 ^ 63" using False by (auto simp: bump_def e_def [symmetric] Let_def split: if_splits)
    then have "unat (bump bs n) = e" by (simp add: unat_of_nat)
    then show ?thesis using that False b(2) e by (auto simp: fresh_block_def apart_def list_all_iff)
  qed simp
  then show ?thesis by (simp add: good_fns_def good_chunkfun_def bump_fns_def)
qed

definition empty_world :: "obstack \<times> ob_mem" where
  "empty_world = (\<lparr>chunk_size = 0, chunk = 0, object_base = 0, next_free = 0, chunk_limit = 0, alignment_mask = 0, extra_arg = 0,
      use_extra_arg = False, maybe_empty_object = False\<rparr>,
    \<lparr>blocks = [(64, 32)], headers = (\<lambda>_. \<lparr>limit = 0, prev = 0\<rparr>), bytes = (\<lambda>_. 0)\<rparr>)"

definition first_world :: "obstack \<times> ob_mem" where
  "first_world = (\<lparr>chunk_size = 48, chunk = 4096, object_base = 4112, next_free = 4112, chunk_limit = 4144, alignment_mask = 15, extra_arg = 0,
      use_extra_arg = False, maybe_empty_object = False\<rparr>,
    \<lparr>blocks = [(4096, 48), (64, 32)], headers = (\<lambda>_. \<lparr>limit = 0, prev = 0\<rparr>)(4096 := \<lparr>limit = 4144, prev = 0\<rparr>), bytes = (\<lambda>_. 0)\<rparr>)"

lemma first_begin: "u_obstack_begin bump_fns 48 16 empty_world = Inr (1, first_world)"
  by (simp add: u_obstack_begin_def obstack_begin_worker_def Let_def evm_simps upd_ob_def call_chunkfun_def empty_world_def bump_fns_def bump_def
    upd_header_def live_block_def PTR_ALIGN_def BPTR_ALIGN_def contents_def first_world_def header_upd)

lemma first_legal: "legal_calls (ob_run bump_fns) (ob_legal bump_fns) [CallCopy [7, 8], CallGrow [9], CallFree 0] (first_world, [])"
  by (simp add: ob_legal_def exits_def first_world_def on_stack_def obstack_copy_def obstack_grow_def append_bytes_def write_bytes_def obstack_finish_def Let_def evm_simps
    get_ob_def upd_ob_def obstack_room_def range_ok_def obstack_blank_fast_def PTR_ALIGN_def BPTR_ALIGN_def gets_object_def obstack_free_def put_bytes_def)

theorem obstack_refines_witness:
  "\<exists>rs s'. u_obstack_begin bump_fns 48 16 empty_world = Inr (1, first_world) \<and>
    run_calls (ob_run bump_fns) [CallCopy [7, 8], CallGrow [9], CallFree 0] (first_world, []) = Inr (rs, s') \<and>
    spec_calls ob_spec [CallCopy [7, 8], CallGrow [9], CallFree 0] ([], []) rs (ob_abs s')"
proof -
  have h: "heap_ok (blocks (snd empty_world))" "(if (16::u64) = 0 then 16 else 16 :: u64) = 2 ^ 4" "(4::nat) \<le> 62"
    "16 + 2 ^ 4 \<le> unat (if (48::u64) = 0 then default_chunk_size else 48)" by (simp_all add: empty_world_def fresh_block_def)
  have "u_obstack_begin bump_fns 48 16 (fst empty_world, snd empty_world) = Inr (1, first_world)" using first_begin by simp
  from obstack_refines [OF bump_good h this first_legal] show ?thesis using first_begin by blast
qed

end
