(* ===== verification/Spec2Isabelle.thy ===== *)
theory Spec2Isabelle
  imports Neb_Prelude Neb_Random Neb_Csum Neb_Bm Neb_Evdp_Api Neb_Timer_Run Neb_Ipaddr Neb_Copy Neb_Pidfile Neb_Sem Neb_Thread Neb_Unix Neb_Rb_Clients Neb_Obstack_Api
begin

text \<open>
  Verification of the nebase library, a C base library for daemons: an event dispatcher with timers, sockets
  helpers, process and thread housekeeping, random choice without repetition, and text search. File names below are
  relative to \<^verbatim>\<open>src/\<close>.

  \<^bold>\<open>How the code is modelled.\<close> C structures are records, enumerations are datatypes, and functions keep their
  names. Code on values is a function; code on linked structures is a computation on a state (\<open>('a, 's) comp\<close> of
  \<open>Neb_Prelude\<close>) that ends with a fault where the source would read or write outside an object, follow a null or a
  released pointer, or overflow a signed integer. Objects in memory are maps from addresses to records, and intrusive lists keep their link fields. Machine
  integers keep their width where it matters (\<open>Neb_Csum\<close>, \<open>Neb_Ipaddr\<close>, \<open>Neb_Sem\<close>). System calls, the allocator and user callbacks are
  arguments of the definitions; what the code relies on of them is a named hypothesis of the theorems. The Linux branch of
  conditional code is modelled. Log messages have no definition.

  \<^bold>\<open>The parts.\<close>

  \<^item> \<open>Neb_Prelude\<close>: integer types, faults, array access, the computation monad with its evaluation rules
    \<open>evm_simps\<close>, sequences of calls, and two interfaces as locales: \<open>safe_api\<close>, whose calls keep an invariant
    and do not fault, and \<open>api_refinement\<close>, whose calls moreover implement an abstract specification; the second is a sublocale of the first.
    \<open>Neb_Text\<close> has the C library's decimal output and input.

  \<^item> \<open>Neb_Random\<close>: \<^verbatim>\<open>src/random.c\<close>, buckets of nodes sliced by use count, pools and rings. Invariant of the slices,
    picking and putting back, a ring gives every node once per round, overflow of the range functions.

  \<^item> \<open>Neb_Csum\<close>: \<^verbatim>\<open>src/sock/csum.c\<close>, Internet checksums. The word-at-a-time sum equals the sum of RFC 1071, and filled
    TCP, ICMP and IP headers verify.

  \<^item> \<open>Neb_Bm\<close>: \<^verbatim>\<open>src/str/bm.c\<close>, Boyer-Moore search. Both shift tables are right, and the search ends with the first occurrence.

  \<^item> The event dispatcher, \<^verbatim>\<open>src/evdp/core.c\<close>, \<^verbatim>\<open>src/evdp/io_base.c\<close>, \<^verbatim>\<open>src/evdp/sys_timer.c\<close> and the epoll driver
    \<^verbatim>\<open>src/evdp/driver/epoll/\<close>: \<open>Neb_Evdp_Base\<close> (queue, sources and the linked lists), \<open>Neb_Epoll\<close> (the
    driver), \<open>Neb_Evdp_Core\<close> (queue operations and the run loop), \<open>Neb_Evdp_Io\<close> (constructors). \<open>Neb_Evdp_Lists\<close>,
    \<open>Neb_Evdp_Inv\<close>, \<open>Neb_Evdp_Detach\<close> and \<open>Neb_Evdp_Events\<close> prove the invariant: both lists are well linked, hold exactly the attached
    sources, and the counters count them. \<open>Neb_Evdp_Api\<close> shows that every legal sequence of calls keeps it, that the loop over
    fetched events ends safely whatever the callbacks do within their contract, and that detaching cancels exactly the events of a source.

  \<^item> \<open>Neb_Time\<close>: \<^verbatim>\<open>include/nebase/time.h\<close>, \<^verbatim>\<open>src/time.c\<close>, timespec arithmetic and the next time of day.

  \<^item> The timer of a queue, \<^verbatim>\<open>src/evdp/timer.c\<close>: \<open>Neb_Timer\<close> (the model), \<open>Neb_Timer_Inv\<close> (the invariant of tree, lists and caches),
    \<open>Neb_Timer_Run\<close> (the operations refine a map from points to due times; running handles exactly the due points; the nearest timeout). The
    red-black tree is used through \<open>Neb_Rbtree\<close>, an ordered sequence with the locale \<open>rb_order\<close> for comparison functions, interpreted on those of the
    timer and of the thread registry; the next item shows that the tree implements it. The abstract map \<open>sched\<close> of \<open>Neb_Timer_Inv\<close> is the specification of the timer.

  \<^item> The red-black tree, \<^verbatim>\<open>compat/rbtree/rb.c\<close> with the macros of \<^verbatim>\<open>include/nebase/compat/rbtree/sys/rbtree.h\<close>: \<open>Neb_Rb\<close> is the code on a
    memory of nodes, in which father, position and colour share one word and the head of the tree is written as if it were a node. \<open>Neb_Rb_Rep\<close> relates the memory to a
    functional tree and a path, \<open>Neb_Rb_Insert\<close>, \<open>Neb_Rb_Remove\<close> and \<open>Neb_Rb_Swap\<close> prove the rotations, both rebalancing loops and the three
    ways of removal, and \<open>Neb_Rb_Api\<close> concludes that the calls refine an ordered sequence, that the loops are logarithmic and that nothing else is written. Its locale
    \<open>rb_client\<close> says what the comparison functions must satisfy; \<open>Neb_Rb_Clients\<close> interprets it on those of the timer and of the registry of threads, and
    shows that their models, on a sequence, and the code, on the memory, go the same steps.

  \<^item> Object stacks, \<^verbatim>\<open>compat/obstack/obstack.c\<close> with the macros of \<^verbatim>\<open>include/nebase/compat/obstack/gnulib/obstack.h\<close>: \<open>Neb_Obstack\<close> is the code on
    live blocks, chunk headers and bytes, with the allocator as an argument. \<open>Neb_Obstack_Inv\<close> has the invariant (a chain of live chunks that hold aligned objects one after the other) and shows that it is kept
    by growing and finishing, also across a new chunk; \<open>Neb_Obstack_Free\<close> is about releasing, and \<open>Neb_Obstack_Api\<close> concludes that the calls refine a stack of byte strings.

  \<^item> \<open>Neb_Ipaddr\<close>: \<^verbatim>\<open>src/net/ipaddr.c\<close>, reverse lookup names (read back to the address), the next address, networks and masks.

  \<^item> \<open>Neb_Copy\<close>: \<^verbatim>\<open>src/file/copy.c\<close>, copying with fallbacks, exact for all answers of the system.

  \<^item> \<open>Neb_Pidfile\<close>: \<^verbatim>\<open>src/pidfile.c\<close>, with a step relation of processes that share the file; mutual exclusion by rule induction.

  \<^item> \<open>Neb_Sem\<close>: \<^verbatim>\<open>src/sem_sysv.c\<close> and \<^verbatim>\<open>src/sem_posix.c\<close>; \<open>Neb_Thread\<close>: \<^verbatim>\<open>src/thread.c\<close>, the registry of threads, which
    refines a set and uses the notification semaphore.

  \<^item> \<open>Neb_Unix\<close>: \<^verbatim>\<open>src/sock/unix.c\<close> without credentials, and the file type query of \<^verbatim>\<open>src/file/stat.c\<close>; sockets
    are made whole or not at all, and what becomes of passed descriptors.

  \<^bold>\<open>Fuel.\<close> Loops whose length depends on callbacks have a bound as an argument and end with the fault \<open>NoEnd\<close> beyond it: the event
  loop needs one more than the fetched events, \<open>evdp_timer_run_until\<close> one more than the nodes of the tree and the points of each node; the theorems state that these
  bounds are enough. The loops of the red-black tree have 130 passes (\<open>rb_fuel\<close>), twice the logarithm of the number of nodes a memory of 64-bit addresses has room for, and the theorems
  state that the calls end within them. The walks over the chunks of an object stack have one pass more than there are live blocks, and a chunk is a live block. All other loops are total functions.

  \<^bold>\<open>Not modelled.\<close> The other event drivers (kevent, io-uring, aio-poll and event-port), which repeat the epoll driver for other systems; other socket, pipe, pty, signal and statistics
  wrappers, which are sequences of system calls; logging; the vendored code in \<^verbatim>\<open>compat/\<close> other than the tree and the object stacks; and the self checks and counters of the tree, which are not compiled in. Later work: the kevent driver against the same queue, credentials over Unix sockets, and
  the composition of the run loop with the timer.
\<close>

end
